(* ===== verification/Prelude.thy ===== *)
theory Prelude
  imports Main "HOL-Library.Word"
begin

unbundle bit_operations_syntax

text \<open>
  Shared vocabulary of the development: the machine integers of the Rust sources as words,
  the checked, saturating and overflowing operations of the Rust core library that the kernel
  calls, little-endian byte strings, and generic lemmas on lists, options and words that the
  component theories use. All supported targets of the kernel are 64-bit and little-endian,
  so \<open>usize\<close> is a 64-bit word.
\<close>

named_theorems rust_int \<open>characterisations of the checked machine-integer operations\<close>
named_theorems le_bytes \<open>facts on little-endian byte strings\<close>

type_synonym u8 = "8 word"
type_synonym u16 = "16 word"
type_synonym u32 = "32 word"
type_synonym u64 = "64 word"
type_synonym usize = "64 word"

section \<open>Machine integers\<close>

definition checked_add :: "'a::len word \<Rightarrow> 'a word \<Rightarrow> 'a word option" where
  "checked_add a b = (if unat a + unat b < 2 ^ LENGTH('a) then Some (a + b) else None)"

definition checked_sub :: "'a::len word \<Rightarrow> 'a word \<Rightarrow> 'a word option" where
  "checked_sub a b = (if b \<le> a then Some (a - b) else None)"

definition saturating_add :: "'a::len word \<Rightarrow> 'a word \<Rightarrow> 'a word" where
  "saturating_add a b = (if unat a + unat b < 2 ^ LENGTH('a) then a + b else - 1)"

definition saturating_sub :: "'a::len word \<Rightarrow> 'a word \<Rightarrow> 'a word" where
  "saturating_sub a b = (if b \<le> a then a - b else 0)"

definition overflowing_add :: "'a::len word \<Rightarrow> 'a word \<Rightarrow> 'a word \<times> bool" where
  "overflowing_add a b = (a + b, \<not> unat a + unat b < 2 ^ LENGTH('a))"

definition overflowing_sub :: "'a::len word \<Rightarrow> 'a word \<Rightarrow> 'a word \<times> bool" where
  "overflowing_sub a b = (a - b, a < b)"

definition is_power_of_two :: "'a::len word \<Rightarrow> bool" where
  "is_power_of_two a \<longleftrightarrow> a \<noteq> 0 \<and> a AND (a - 1) = 0"

lemma unat_u64_less: "unat (w :: 64 word) < 2 ^ 64"
  by (rule order_less_le_trans [OF unsigned_less]) simp

lemma uint_u64_bounds: "0 \<le> uint (w :: 64 word)" "uint (w :: 64 word) < 2 ^ 64"
  using uint_bounded [of w] by simp_all

lemma unat_add_no_wrap:
  fixes a b :: "'a::len word"
  assumes "unat a + unat b < 2 ^ LENGTH('a)"
  shows "unat (a + b) = unat a + unat b"
  using assms by (simp add: unat_word_ariths)

lemma checked_add_Some [rust_int]:
  fixes a b c :: "'a::len word"
  shows "checked_add a b = Some c \<longleftrightarrow> unat a + unat b < 2 ^ LENGTH('a) \<and> c = a + b"
  by (auto simp: checked_add_def)

lemma checked_add_None [rust_int]:
  fixes a b :: "'a::len word"
  shows "checked_add a b = None \<longleftrightarrow> 2 ^ LENGTH('a) \<le> unat a + unat b"
  by (auto simp: checked_add_def)

lemma checked_sub_Some [rust_int]:
  "checked_sub a b = Some c \<longleftrightarrow> b \<le> a \<and> c = a - b"
  by (auto simp: checked_sub_def)

lemma checked_sub_None [rust_int]:
  "checked_sub a b = None \<longleftrightarrow> a < b"
  by (auto simp: checked_sub_def)

lemma checked_add_unat:
  "checked_add a b = Some c \<Longrightarrow> unat c = unat a + unat b"
  by (simp add: rust_int unat_add_no_wrap)

lemma checked_sub_unat:
  "checked_sub a b = Some c \<Longrightarrow> unat c = unat a - unat b"
  by (simp add: rust_int unat_sub)

lemma unat_saturating_sub [simp]:
  "unat (saturating_sub a b) = unat a - unat b"
  by (auto simp: saturating_sub_def unat_sub word_le_nat_alt)

lemma unat_saturating_add:
  fixes a b :: "'a::len word"
  shows "unat (saturating_add a b) = min (unat a + unat b) (2 ^ LENGTH('a) - 1)"
proof (cases "unat a + unat b < 2 ^ LENGTH('a)")
  case True
  then show ?thesis by (simp add: saturating_add_def unat_add_no_wrap)
next
  case False
  have "unat (- 1 :: 'a word) = 2 ^ LENGTH('a) - 1"
    by (simp add: unsigned_minus_1_eq_mask mask_eq_exp_minus_1)
  with False show ?thesis by (simp add: saturating_add_def)
qed

section \<open>Little-endian byte strings\<close>

text \<open>
  \<open>from_le_bytes\<close> and \<open>to_le_bytes\<close> of the Rust integer types, for a word of any length;
  the number of bytes is the length of the string.
\<close>

fun from_le_bytes :: "u8 list \<Rightarrow> 'a::len word" where
  "from_le_bytes [] = 0"
| "from_le_bytes (b # bs) = ucast b OR push_bit 8 (from_le_bytes bs)"

fun to_le_bytes :: "nat \<Rightarrow> 'a::len word \<Rightarrow> u8 list" where
  "to_le_bytes 0 w = []"
| "to_le_bytes (Suc n) w = ucast w # to_le_bytes n (drop_bit 8 w)"

lemma length_to_le_bytes [simp, le_bytes]: "length (to_le_bytes n w) = n"
  by (induction n arbitrary: w) auto

lemma nth_to_le_bytes [le_bytes]:
  "i < n \<Longrightarrow> to_le_bytes n w ! i = ucast (drop_bit (8 * i) w)"
proof (induction n arbitrary: w i)
  case 0
  then show ?case by simp
next
  case (Suc n)
  then show ?case by (cases i) (simp_all add: drop_bit_drop_bit add.commute)
qed

lemma bit_from_le_bytes [le_bytes]:
  "bit (from_le_bytes bs :: 'a::len word) i \<longleftrightarrow>
     i < LENGTH('a) \<and> i div 8 < length bs \<and> bit (bs ! (i div 8)) (i mod 8)"
proof (induction bs arbitrary: i)
  case Nil
  then show ?case by simp
next
  case (Cons b bs)
  show ?case
  proof (cases "i < 8")
    case True
    then show ?thesis by (auto simp: bit_simps)
  next
    case False
    then obtain j where i: "i = j + 8"
      by (metis add.commute le_Suc_ex not_less)
    have "\<not> bit b i"
      using False bit_imp_le_length[of b i] by auto
    moreover have "(j + 8) div 8 = Suc (j div 8)"
      by simp
    ultimately show ?thesis
      using Cons[of j] by (auto simp: i bit_simps)
  qed
qed

lemma from_to_le_bytes [le_bytes]:
  fixes w :: "'a::len word"
  assumes "LENGTH('a) \<le> 8 * n"
  shows "from_le_bytes (to_le_bytes n w) = w"
proof (rule bit_word_eqI)
  fix i assume "i < LENGTH('a)"
  with assms have "i div 8 < n" by (simp add: less_mult_imp_div_less mult.commute)
  then show "bit (from_le_bytes (to_le_bytes n w) :: 'a word) i = bit w i"
    using \<open>i < LENGTH('a)\<close> by (simp add: bit_from_le_bytes nth_to_le_bytes bit_simps)
qed

section \<open>Powers of two and masks\<close>

lemma is_power_of_two_exp:
  "n < LENGTH('a) \<Longrightarrow> is_power_of_two (2 ^ n :: 'a::len word)"
  unfolding is_power_of_two_def
  by (auto simp: mask_eq_exp_minus_1 [symmetric] bit_simps intro!: bit_word_eqI)

lemma bit_top_nat: "2 ^ n \<le> x \<Longrightarrow> x < 2 ^ Suc n \<Longrightarrow> bit (x::nat) n"
proof -
  assume "2 ^ n \<le> x" "x < 2 ^ Suc n"
  then have "x div 2 ^ n = 1"
    by (intro div_nat_eqI) auto
  then show "bit x n" by (simp add: bit_iff_odd)
qed

lemma is_power_of_two_iff:
  "is_power_of_two (a :: 'a::len word) \<longleftrightarrow> (\<exists>n < LENGTH('a). a = 2 ^ n)"
proof
  assume a: "is_power_of_two a"
  then have "1 \<le> unat a"
    by (simp add: is_power_of_two_def Suc_le_eq unat_gt_0)
  then obtain n where n: "2 ^ n \<le> unat a" "unat a < 2 ^ Suc n"
    using ex_power_ivl1 [of 2 "unat a"] by auto
  have "2 ^ n < (2::nat) ^ LENGTH('a)"
    using n(1) unsigned_less [of a] by (rule le_less_trans)
  then have len: "n < LENGTH('a)" by simp
  have "unat a = 2 ^ n"
  proof (rule ccontr)
    assume "unat a \<noteq> 2 ^ n"
    with n have "2 ^ n \<le> unat (a - 1)" "unat (a - 1) < 2 ^ Suc n"
      using a by (auto simp: is_power_of_two_def unat_minus_one)
    with n have "bit (unat a) n" "bit (unat (a - 1)) n"
      by (auto intro: bit_top_nat)
    then have "bit (a AND (a - 1)) n"
      using len by (simp add: bit_simps)
    with a show False by (simp add: is_power_of_two_def)
  qed
  then have "of_nat (unat a) = (2 ^ n :: 'a word)"
    by simp
  then have "a = 2 ^ n" by simp
  with len show "\<exists>n < LENGTH('a). a = 2 ^ n" by blast
qed (auto simp: is_power_of_two_exp)

lemma unat_exp: "n < LENGTH('a) \<Longrightarrow> unat (2 ^ n :: 'a::len word) = 2 ^ n"
  by transfer (simp add: take_bit_of_exp nat_power_eq)

lemma unat_mask_eq: "n < LENGTH('a) \<Longrightarrow> unat (mask n :: 'a::len word) = 2 ^ n - 1"
  by (simp add: mask_eq_exp_minus_1 unat_minus_one unat_exp)

lemma unat_and_mask: "unat ((a :: 'a::len word) AND mask n) = unat a mod 2 ^ n"
proof -
  have "unat (a AND mask n) = take_bit n (unat a)"
    by (simp only: take_bit_eq_mask [symmetric] unsigned_take_bit_eq)
  then show ?thesis by (simp add: take_bit_eq_mod)
qed

lemma unat_and_not_mask: "unat ((a :: 'a::len word) AND NOT (mask n)) = unat a div 2 ^ n * 2 ^ n"
proof -
  have "unat (a AND NOT (mask n)) = push_bit n (drop_bit n (unat a))"
    by (rule bit_eqI) (auto simp: bit_simps dest: bit_imp_le_length)
  then show ?thesis by (simp add: push_bit_eq_mult drop_bit_eq_div)
qed

section \<open>Iterators\<close>

text \<open>\<open>Iterator::min_by_key\<close>: the first element whose key is least.\<close>

fun min_by_key :: "('a \<Rightarrow> nat) \<Rightarrow> 'a list \<Rightarrow> 'a option" where
  "min_by_key f [] = None"
| "min_by_key f (x # xs) = Some (foldl (\<lambda>m y. if f y < f m then y else m) x xs)"

lemma foldl_min_key:
  "let m = foldl (\<lambda>m y. if f y < f m then y else m) x xs
   in m \<in> set (x # xs) \<and> (\<forall>y \<in> set (x # xs). f m \<le> (f y :: nat))"
proof (induction xs arbitrary: x)
  case Nil
  then show ?case by simp
next
  case (Cons y ys)
  show ?case
    using Cons.IH [of x] Cons.IH [of y] by (auto simp: Let_def)
qed

lemma min_by_key_Some:
  assumes "min_by_key f xs = Some m"
  shows "m \<in> set xs" "\<And>y. y \<in> set xs \<Longrightarrow> f m \<le> f y"
  using assms foldl_min_key [of f] by (cases xs; fastforce simp: Let_def)+

lemma min_by_key_None [simp]: "min_by_key f xs = None \<longleftrightarrow> xs = []"
  by (cases xs) auto

section \<open>Counting zero bits and searching\<close>

text \<open>\<open>trailing_zeros\<close> and \<open>leading_zeros\<close> of the Rust integer types.\<close>

definition trailing_zeros :: "'a::len word \<Rightarrow> nat" where
  "trailing_zeros w = length (takeWhile (\<lambda>i. \<not> bit w i) [0..<LENGTH('a)])"

definition leading_zeros :: "'a::len word \<Rightarrow> nat" where
  "leading_zeros w = length (takeWhile (\<lambda>i. \<not> bit w i) (rev [0..<LENGTH('a)]))"

lemma and_exp_word: "(w :: 'a::len word) AND 2 ^ n = (if bit w n then 2 ^ n else 0)"
  by (rule bit_word_eqI) (auto simp: bit_simps)

lemma word_nonzero_bit: "(w :: 'a::len word) \<noteq> 0 \<Longrightarrow> \<exists>i < LENGTH('a). bit w i"
  by (rule ccontr) (auto intro: bit_word_eqI)

lemma takeWhile_first:
  assumes "\<exists>i < length xs. P (xs ! i)" and "n = length (takeWhile (\<lambda>x. \<not> P x) xs)"
  shows "n < length xs" "P (xs ! n)" "i < n \<Longrightarrow> \<not> P (xs ! i)"
proof -
  show n: "n < length xs"
  proof (rule ccontr)
    assume "\<not> n < length xs"
    then have "takeWhile (\<lambda>x. \<not> P x) xs = xs"
      using assms(2) by (metis length_takeWhile_le linorder_not_less nat_less_le takeWhile_eq_take take_all)
    then show False using assms(1) by (metis nth_mem takeWhile_eq_all_conv)
  qed
  show "P (xs ! n)" using nth_length_takeWhile [of "\<lambda>x. \<not> P x" xs] n assms(2) by simp
  show "\<not> P (xs ! i)" if "i < n"
    using that assms(2) by (metis nth_mem set_takeWhileD takeWhile_nth)
qed

lemma trailing_zeros_first:
  fixes w :: "'a::len word"
  assumes "w \<noteq> 0"
  shows "trailing_zeros w < LENGTH('a)" "bit w (trailing_zeros w)" "i < trailing_zeros w \<Longrightarrow> \<not> bit w i"
proof -
  have "\<exists>i < length [0..<LENGTH('a)]. bit w ([0..<LENGTH('a)] ! i)"
    using word_nonzero_bit [OF assms] by auto
  note first = takeWhile_first [OF this trailing_zeros_def [of w]]
  show "trailing_zeros w < LENGTH('a)" "bit w (trailing_zeros w)" "i < trailing_zeros w \<Longrightarrow> \<not> bit w i"
    using first(1) first(2) first(3) [of i] by auto
qed

lemma leading_zeros_last:
  fixes w :: "'a::len word"
  assumes "w \<noteq> 0"
  shows "leading_zeros w < LENGTH('a)" "bit w (LENGTH('a) - 1 - leading_zeros w)"
    and "LENGTH('a) - 1 - leading_zeros w < i \<Longrightarrow> \<not> bit w i"
proof -
  let ?xs = "rev [0..<LENGTH('a)]"
  have nth: "?xs ! i = LENGTH('a) - 1 - i" if "i < LENGTH('a)" for i
    using that by (simp add: rev_nth)
  obtain j where "j < LENGTH('a)" "bit w j" using word_nonzero_bit [OF assms] by blast
  then have "\<exists>i < length ?xs. bit w (?xs ! i)"
    by (intro exI [of _ "LENGTH('a) - 1 - j"]) (simp add: nth)
  note first = takeWhile_first [OF this leading_zeros_def [of w]]
  show lt: "leading_zeros w < LENGTH('a)" using first(1) by simp
  show "bit w (LENGTH('a) - 1 - leading_zeros w)" using first(2) lt by (simp add: nth)
  show "\<not> bit w i" if "LENGTH('a) - 1 - leading_zeros w < i"
  proof (cases "i < LENGTH('a)")
    case True
    then have "LENGTH('a) - 1 - i < leading_zeros w" using that by simp
    from first(3) [OF this] show ?thesis using True by (simp add: nth)
  qed (use bit_imp_le_length in force)
qed

text \<open>The result of a search for the first index of an interval with a property.\<close>

definition is_first :: "(nat \<Rightarrow> bool) \<Rightarrow> nat \<Rightarrow> nat \<Rightarrow> nat option \<Rightarrow> bool" where
  "is_first P lo hi r = (case r of
     Some i \<Rightarrow> lo \<le> i \<and> i < hi \<and> P i \<and> (\<forall>j. lo \<le> j \<and> j < i \<longrightarrow> \<not> P j)
   | None \<Rightarrow> \<forall>j. lo \<le> j \<and> j < hi \<longrightarrow> \<not> P j)"

lemma is_first_find: "is_first P lo hi (find P [lo..<hi])"
  by (auto simp: is_first_def find_None_iff find_Some_iff split: option.split)
    (metis add_leD1 le_add_diff_inverse nat_add_left_cancel_less nth_upt order_less_trans)

lemma is_first_unique: "\<lbrakk>is_first P lo hi r; is_first P lo hi r'\<rbrakk> \<Longrightarrow> r = r'"
  by (cases r; cases r') (auto simp: is_first_def, metis linorder_neqE_nat)

lemma is_first_cong:
  "(\<And>i. lo \<le> i \<Longrightarrow> i < hi \<Longrightarrow> P i \<longleftrightarrow> Q i) \<Longrightarrow> is_first P lo hi r \<longleftrightarrow> is_first Q lo hi r"
  by (cases r) (auto simp: is_first_def)

lemma is_first_skip:
  "\<lbrakk>is_first P mid hi r; lo \<le> mid; \<And>j. lo \<le> j \<Longrightarrow> j < mid \<Longrightarrow> \<not> P j\<rbrakk> \<Longrightarrow> is_first P lo hi r"
  by (cases r) (auto simp: is_first_def, (metis linorder_not_less)+)

end
