(* ===== verification/KErrno.thy ===== *)
theory KErrno
  imports Prelude
begin

text \<open>
  The kernel's error carrier (\<open>src/util/kerrno/src/lib.rs\<close>) and the Linux errno type it converts
  to (\<open>src/api/linux_sysno/src/errno\<close>). An error is a signed 32-bit code: a positive code is an
  error kind of the kernel, a negative one a negated Linux errno. An \<open>i32\<close> is an \<open>int\<close> here; the
  only arithmetic on it is negation, whose overflow at the least value is written out. A
  panic of the source is \<open>None\<close>. Every other component reports its failures with these
  kinds, as the left summand of a sum.
\<close>

section \<open>Linux errno codes\<close>

text \<open>The named codes of the errno table that the conversions mention.\<close>

abbreviation (input) EPERM :: int where "EPERM \<equiv> 1"
abbreviation (input) ENOENT :: int where "ENOENT \<equiv> 2"
abbreviation (input) ESRCH :: int where "ESRCH \<equiv> 3"
abbreviation (input) EINTR :: int where "EINTR \<equiv> 4"
abbreviation (input) EIO :: int where "EIO \<equiv> 5"
abbreviation (input) E2BIG :: int where "E2BIG \<equiv> 7"
abbreviation (input) ENOEXEC :: int where "ENOEXEC \<equiv> 8"
abbreviation (input) EBADF :: int where "EBADF \<equiv> 9"
abbreviation (input) EAGAIN :: int where "EAGAIN \<equiv> 11"
abbreviation (input) ENOMEM :: int where "ENOMEM \<equiv> 12"
abbreviation (input) EACCES :: int where "EACCES \<equiv> 13"
abbreviation (input) EFAULT :: int where "EFAULT \<equiv> 14"
abbreviation (input) EBUSY :: int where "EBUSY \<equiv> 16"
abbreviation (input) EEXIST :: int where "EEXIST \<equiv> 17"
abbreviation (input) EXDEV :: int where "EXDEV \<equiv> 18"
abbreviation (input) ENODEV :: int where "ENODEV \<equiv> 19"
abbreviation (input) ENOTDIR :: int where "ENOTDIR \<equiv> 20"
abbreviation (input) EISDIR :: int where "EISDIR \<equiv> 21"
abbreviation (input) EINVAL :: int where "EINVAL \<equiv> 22"
abbreviation (input) EMFILE :: int where "EMFILE \<equiv> 24"
abbreviation (input) ENOTTY :: int where "ENOTTY \<equiv> 25"
abbreviation (input) EFBIG :: int where "EFBIG \<equiv> 27"
abbreviation (input) ENOSPC :: int where "ENOSPC \<equiv> 28"
abbreviation (input) EROFS :: int where "EROFS \<equiv> 30"
abbreviation (input) EPIPE :: int where "EPIPE \<equiv> 32"
abbreviation (input) ERANGE :: int where "ERANGE \<equiv> 34"
abbreviation (input) ENAMETOOLONG :: int where "ENAMETOOLONG \<equiv> 36"
abbreviation (input) ENOSYS :: int where "ENOSYS \<equiv> 38"
abbreviation (input) ENOTEMPTY :: int where "ENOTEMPTY \<equiv> 39"
abbreviation (input) ELOOP :: int where "ELOOP \<equiv> 40"
abbreviation (input) EILSEQ :: int where "EILSEQ \<equiv> 84"
abbreviation (input) ENOTSOCK :: int where "ENOTSOCK \<equiv> 88"
abbreviation (input) EOPNOTSUPP :: int where "EOPNOTSUPP \<equiv> 95"
abbreviation (input) EADDRINUSE :: int where "EADDRINUSE \<equiv> 98"
abbreviation (input) ECONNABORTED :: int where "ECONNABORTED \<equiv> 103"
abbreviation (input) ECONNRESET :: int where "ECONNRESET \<equiv> 104"
abbreviation (input) EISCONN :: int where "EISCONN \<equiv> 106"
abbreviation (input) ENOTCONN :: int where "ENOTCONN \<equiv> 107"
abbreviation (input) ETIMEDOUT :: int where "ETIMEDOUT \<equiv> 110"
abbreviation (input) ECONNREFUSED :: int where "ECONNREFUSED \<equiv> 111"
abbreviation (input) EINPROGRESS :: int where "EINPROGRESS \<equiv> 115"

text \<open>Every code that has a name in the table (\<open>Errno::name\<close>).\<close>

definition errno_table :: "int list" where
  "errno_table =
     [1, 2, 3, 4, 5, 6, 7, 8, 9, 10, 11, 12, 13, 14, 15, 16, 17, 18, 19, 20, 21, 22, 23, 24,
      25, 26, 27, 28, 29, 30, 31, 32, 33, 34, 35, 36, 37, 38, 39, 40, 42, 43, 44, 45, 46,
      47, 48, 49, 50, 51, 52, 53, 54, 55, 56, 57, 59, 60, 61, 62, 63, 64, 65, 66, 67, 68,
      69, 70, 71, 72, 73, 74, 75, 76, 77, 78, 79, 80, 81, 82, 83, 84, 85, 86, 87, 88, 89,
      90, 91, 92, 93, 94, 95, 96, 97, 98, 99, 100, 101, 102, 103, 104, 105, 106, 107, 108,
      109, 110, 111, 112, 113, 114, 115, 116, 117, 118, 119, 120, 121, 122, 123, 124, 125,
      126, 127, 128, 129, 130, 131, 132, 133, 512, 513, 514, 515, 516, 517, 518, 519, 521,
      522, 523, 524, 525, 526, 527, 528, 529, 530, 531]"

definition errno_has_name :: "int \<Rightarrow> bool" where
  "errno_has_name e \<longleftrightarrow> List.member errno_table e"

text \<open>\<open>Errno::from_ret\<close>: a return register holding a negated errno, or a result.\<close>

definition errno_from_ret :: "usize \<Rightarrow> int + usize" where
  "errno_from_ret v =
     (if v > - 4096 then Inl (- sint (ucast v :: 32 word)) else Inr v)"

section \<open>Error kinds\<close>

datatype (plugins only: code) kerror_kind =
    AddrInUse
  | AlreadyConnected
  | AlreadyExists
  | ArgumentListTooLong
  | BadAddress
  | BadFileDescriptor
  | BadState
  | BrokenPipe
  | ConnectionRefused
  | ConnectionReset
  | CrossesDevices
  | DirectoryNotEmpty
  | FilesystemLoop
  | IllegalBytes
  | InProgress
  | Interrupted
  | InvalidData
  | InvalidExecutable
  | InvalidInput
  | Io
  | IsADirectory
  | NameTooLong
  | NoMemory
  | NoSuchDevice
  | NoSuchProcess
  | NotADirectory
  | NotASocket
  | NotATty
  | NotConnected
  | NotFound
  | OperationNotPermitted
  | OperationNotSupported
  | OutOfRange
  | PermissionDenied
  | ReadOnlyFilesystem
  | ResourceBusy
  | StorageFull
  | TimedOut
  | TooManyOpenFiles
  | UnexpectedEof
  | Unsupported
  | WouldBlock
  | WriteZero
  | ConnectionAborted
  | FileTooLarge
  | IoWaitInterrupted

fun kind_code :: "kerror_kind \<Rightarrow> int" where
  "kind_code AddrInUse = 1"
| "kind_code AlreadyConnected = 2"
| "kind_code AlreadyExists = 3"
| "kind_code ArgumentListTooLong = 4"
| "kind_code BadAddress = 5"
| "kind_code BadFileDescriptor = 6"
| "kind_code BadState = 7"
| "kind_code BrokenPipe = 8"
| "kind_code ConnectionRefused = 9"
| "kind_code ConnectionReset = 10"
| "kind_code CrossesDevices = 11"
| "kind_code DirectoryNotEmpty = 12"
| "kind_code FilesystemLoop = 13"
| "kind_code IllegalBytes = 14"
| "kind_code InProgress = 15"
| "kind_code Interrupted = 16"
| "kind_code InvalidData = 17"
| "kind_code InvalidExecutable = 18"
| "kind_code InvalidInput = 19"
| "kind_code Io = 20"
| "kind_code IsADirectory = 21"
| "kind_code NameTooLong = 22"
| "kind_code NoMemory = 23"
| "kind_code NoSuchDevice = 24"
| "kind_code NoSuchProcess = 25"
| "kind_code NotADirectory = 26"
| "kind_code NotASocket = 27"
| "kind_code NotATty = 28"
| "kind_code NotConnected = 29"
| "kind_code NotFound = 30"
| "kind_code OperationNotPermitted = 31"
| "kind_code OperationNotSupported = 32"
| "kind_code OutOfRange = 33"
| "kind_code PermissionDenied = 34"
| "kind_code ReadOnlyFilesystem = 35"
| "kind_code ResourceBusy = 36"
| "kind_code StorageFull = 37"
| "kind_code TimedOut = 38"
| "kind_code TooManyOpenFiles = 39"
| "kind_code UnexpectedEof = 40"
| "kind_code Unsupported = 41"
| "kind_code WouldBlock = 42"
| "kind_code WriteZero = 43"
| "kind_code ConnectionAborted = 44"
| "kind_code FileTooLarge = 45"
| "kind_code IoWaitInterrupted = 46"

definition kind_from_code :: "int \<Rightarrow> kerror_kind option" where
  "kind_from_code c =
     (if c = 1 then Some AddrInUse
      else if c = 2 then Some AlreadyConnected
      else if c = 3 then Some AlreadyExists
      else if c = 4 then Some ArgumentListTooLong
      else if c = 5 then Some BadAddress
      else if c = 6 then Some BadFileDescriptor
      else if c = 7 then Some BadState
      else if c = 8 then Some BrokenPipe
      else if c = 9 then Some ConnectionRefused
      else if c = 10 then Some ConnectionReset
      else if c = 11 then Some CrossesDevices
      else if c = 12 then Some DirectoryNotEmpty
      else if c = 13 then Some FilesystemLoop
      else if c = 14 then Some IllegalBytes
      else if c = 15 then Some InProgress
      else if c = 16 then Some Interrupted
      else if c = 17 then Some InvalidData
      else if c = 18 then Some InvalidExecutable
      else if c = 19 then Some InvalidInput
      else if c = 20 then Some Io
      else if c = 21 then Some IsADirectory
      else if c = 22 then Some NameTooLong
      else if c = 23 then Some NoMemory
      else if c = 24 then Some NoSuchDevice
      else if c = 25 then Some NoSuchProcess
      else if c = 26 then Some NotADirectory
      else if c = 27 then Some NotASocket
      else if c = 28 then Some NotATty
      else if c = 29 then Some NotConnected
      else if c = 30 then Some NotFound
      else if c = 31 then Some OperationNotPermitted
      else if c = 32 then Some OperationNotSupported
      else if c = 33 then Some OutOfRange
      else if c = 34 then Some PermissionDenied
      else if c = 35 then Some ReadOnlyFilesystem
      else if c = 36 then Some ResourceBusy
      else if c = 37 then Some StorageFull
      else if c = 38 then Some TimedOut
      else if c = 39 then Some TooManyOpenFiles
      else if c = 40 then Some UnexpectedEof
      else if c = 41 then Some Unsupported
      else if c = 42 then Some WouldBlock
      else if c = 43 then Some WriteZero
      else if c = 44 then Some ConnectionAborted
      else if c = 45 then Some FileTooLarge
      else if c = 46 then Some IoWaitInterrupted
      else None)"

fun linux_from_kind :: "kerror_kind \<Rightarrow> int" where
  "linux_from_kind AddrInUse = EADDRINUSE"
| "linux_from_kind AlreadyConnected = EISCONN"
| "linux_from_kind AlreadyExists = EEXIST"
| "linux_from_kind ArgumentListTooLong = E2BIG"
| "linux_from_kind BadAddress = EFAULT"
| "linux_from_kind BadFileDescriptor = EBADF"
| "linux_from_kind BadState = EFAULT"
| "linux_from_kind BrokenPipe = EPIPE"
| "linux_from_kind ConnectionRefused = ECONNREFUSED"
| "linux_from_kind ConnectionReset = ECONNRESET"
| "linux_from_kind CrossesDevices = EXDEV"
| "linux_from_kind DirectoryNotEmpty = ENOTEMPTY"
| "linux_from_kind FilesystemLoop = ELOOP"
| "linux_from_kind IllegalBytes = EILSEQ"
| "linux_from_kind InProgress = EINPROGRESS"
| "linux_from_kind Interrupted = EINTR"
| "linux_from_kind InvalidData = EINVAL"
| "linux_from_kind InvalidExecutable = ENOEXEC"
| "linux_from_kind InvalidInput = EINVAL"
| "linux_from_kind Io = EIO"
| "linux_from_kind IsADirectory = EISDIR"
| "linux_from_kind NameTooLong = ENAMETOOLONG"
| "linux_from_kind NoMemory = ENOMEM"
| "linux_from_kind NoSuchDevice = ENODEV"
| "linux_from_kind NoSuchProcess = ESRCH"
| "linux_from_kind NotADirectory = ENOTDIR"
| "linux_from_kind NotASocket = ENOTSOCK"
| "linux_from_kind NotATty = ENOTTY"
| "linux_from_kind NotConnected = ENOTCONN"
| "linux_from_kind NotFound = ENOENT"
| "linux_from_kind OperationNotPermitted = EPERM"
| "linux_from_kind OperationNotSupported = EOPNOTSUPP"
| "linux_from_kind OutOfRange = ERANGE"
| "linux_from_kind PermissionDenied = EACCES"
| "linux_from_kind ReadOnlyFilesystem = EROFS"
| "linux_from_kind ResourceBusy = EBUSY"
| "linux_from_kind StorageFull = ENOSPC"
| "linux_from_kind TimedOut = ETIMEDOUT"
| "linux_from_kind TooManyOpenFiles = EMFILE"
| "linux_from_kind UnexpectedEof = EIO"
| "linux_from_kind Unsupported = ENOSYS"
| "linux_from_kind WouldBlock = EAGAIN"
| "linux_from_kind WriteZero = EIO"
| "linux_from_kind ConnectionAborted = ECONNABORTED"
| "linux_from_kind FileTooLarge = EFBIG"
| "linux_from_kind IoWaitInterrupted = EINTR"

text \<open>The inverse direction is partial: an errno with no kind is returned as it is.\<close>

definition kind_try_from_linux :: "int \<Rightarrow> int + kerror_kind" where
  "kind_try_from_linux e =
     (if e = EADDRINUSE then Inr AddrInUse
      else if e = EISCONN then Inr AlreadyConnected
      else if e = EEXIST then Inr AlreadyExists
      else if e = E2BIG then Inr ArgumentListTooLong
      else if e = EFAULT then Inr BadAddress
      else if e = EBADF then Inr BadFileDescriptor
      else if e = EPIPE then Inr BrokenPipe
      else if e = ECONNABORTED then Inr ConnectionAborted
      else if e = ECONNREFUSED then Inr ConnectionRefused
      else if e = ECONNRESET then Inr ConnectionReset
      else if e = EXDEV then Inr CrossesDevices
      else if e = ENOTEMPTY then Inr DirectoryNotEmpty
      else if e = EFBIG then Inr FileTooLarge
      else if e = ELOOP then Inr FilesystemLoop
      else if e = EILSEQ then Inr IllegalBytes
      else if e = EINPROGRESS then Inr InProgress
      else if e = EINTR then Inr Interrupted
      else if e = ENOEXEC then Inr InvalidExecutable
      else if e = EINVAL then Inr InvalidInput
      else if e = EIO then Inr Io
      else if e = EISDIR then Inr IsADirectory
      else if e = ENAMETOOLONG then Inr NameTooLong
      else if e = ENOMEM then Inr NoMemory
      else if e = ENODEV then Inr NoSuchDevice
      else if e = ESRCH then Inr NoSuchProcess
      else if e = ENOTDIR then Inr NotADirectory
      else if e = ENOTSOCK then Inr NotASocket
      else if e = ENOTTY then Inr NotATty
      else if e = ENOTCONN then Inr NotConnected
      else if e = ENOENT then Inr NotFound
      else if e = EPERM then Inr OperationNotPermitted
      else if e = EOPNOTSUPP then Inr OperationNotSupported
      else if e = ERANGE then Inr OutOfRange
      else if e = EACCES then Inr PermissionDenied
      else if e = EROFS then Inr ReadOnlyFilesystem
      else if e = EBUSY then Inr ResourceBusy
      else if e = ENOSPC then Inr StorageFull
      else if e = ETIMEDOUT then Inr TimedOut
      else if e = EMFILE then Inr TooManyOpenFiles
      else if e = ENOSYS then Inr Unsupported
      else if e = EAGAIN then Inr WouldBlock
      else Inl e)"
section \<open>The signed carrier\<close>

datatype kerror = KError (kerror_raw: int)

datatype kerror_data = Ky kerror_kind | LinuxE int

definition kerror_new_ax :: "kerror_kind \<Rightarrow> kerror" where
  "kerror_new_ax k = KError (kind_code k)"

definition kerror_new_linux :: "int \<Rightarrow> kerror" where
  "kerror_new_linux e = KError (- e)"

definition kerror_data :: "kerror \<Rightarrow> kerror_data option" where
  "kerror_data e =
     (if kerror_raw e < 0 then Some (LinuxE (- kerror_raw e))
      else map_option Ky (kind_from_code (kerror_raw e)))"

definition linux_from_kerror :: "kerror \<Rightarrow> int option" where
  "linux_from_kerror e =
     (case kerror_data e of
        None \<Rightarrow> None
      | Some (Ky k) \<Rightarrow> Some (linux_from_kind k)
      | Some (LinuxE n) \<Rightarrow> Some n)"

definition kind_try_from_kerror :: "kerror \<Rightarrow> (int + kerror_kind) option" where
  "kind_try_from_kerror e =
     (case kerror_data e of
        None \<Rightarrow> None
      | Some (Ky k) \<Rightarrow> Some (Inr k)
      | Some (LinuxE n) \<Rightarrow> Some (kind_try_from_linux n))"

definition canonicalize :: "kerror \<Rightarrow> kerror option" where
  "canonicalize e =
     (case kind_try_from_kerror e of
        None \<Rightarrow> None
      | Some (Inl n) \<Rightarrow> Some (kerror_new_linux n)
      | Some (Inr k) \<Rightarrow> Some (kerror_new_ax k))"

definition is_interrupted :: "kerror \<Rightarrow> bool option" where
  "is_interrupted e =
     map_option (\<lambda>c. c = kerror_new_ax Interrupted \<or> c = kerror_new_ax IoWaitInterrupted)
       (canonicalize e)"

definition into_syscall_return :: "kerror \<Rightarrow> int option" where
  "into_syscall_return e = map_option (\<lambda>n. - n) (linux_from_kerror e)"

definition kerror_try_from_i32 :: "int \<Rightarrow> int + kerror" where
  "kerror_try_from_i32 v =
     (if kind_from_code v \<noteq> None then Inr (KError v)
      else if v < 0 then
        (if v = - (2 ^ 31) then Inl v
         else if errno_has_name (- v) then Inr (KError v)
         else Inl v)
      else Inl v)"


section \<open>Round trips and conversions\<close>

lemma kind_from_code_code [simp]: "kind_from_code (kind_code k) = Some k"
  by (cases k) (simp_all add: kind_from_code_def)

lemma kind_from_code_Some: "kind_from_code c = Some k \<Longrightarrow> kind_code k = c"
  unfolding kind_from_code_def by (simp split: if_splits)

lemma kind_code_inj: "kind_code a = kind_code b \<Longrightarrow> a = b"
  by (metis kind_from_code_code option.inject)

lemma kind_code_range: "1 \<le> kind_code k \<and> kind_code k \<le> 46"
  by (cases k) simp_all

lemma linux_from_kind_range: "1 \<le> linux_from_kind k \<and> linux_from_kind k \<le> 133"
  by (cases k) simp_all



instantiation kerror_kind :: linorder
begin

definition less_eq_kerror_kind :: "kerror_kind \<Rightarrow> kerror_kind \<Rightarrow> bool" where
  "less_eq_kerror_kind a b \<longleftrightarrow> kind_code a \<le> kind_code b"

definition less_kerror_kind :: "kerror_kind \<Rightarrow> kerror_kind \<Rightarrow> bool" where
  "less_kerror_kind a b \<longleftrightarrow> kind_code a < kind_code b"

instance
  by standard (auto simp: less_eq_kerror_kind_def less_kerror_kind_def intro: kind_code_inj)

end

lemma kerror_data_new_ax [simp]: "kerror_data (kerror_new_ax k) = Some (Ky k)"
  using kind_code_range [of k] by (simp add: kerror_data_def kerror_new_ax_def)

lemma kerror_data_new_linux [simp]: "0 < n \<Longrightarrow> kerror_data (kerror_new_linux n) = Some (LinuxE n)"
  by (simp add: kerror_data_def kerror_new_linux_def)






lemma errno_table_range: "errno_has_name e \<Longrightarrow> 1 \<le> e \<and> e \<le> 531"
  by (auto simp: errno_has_name_def errno_table_def)

lemma errno_from_ret_window:
  assumes "k < 0" "- 4096 < k"
  shows "errno_from_ret (word_of_int k) = Inl (- k)"
proof -
  have "uint (word_of_int k :: usize) = 2 ^ 64 + k"
    using assms by (simp add: uint_word_of_int int_mod_pos_eq [of k _ "- 1"])
  then have "(- 4096 :: usize) < word_of_int k"
    using assms by (simp add: word_less_def)
  moreover have "ucast (word_of_int k :: usize) = (word_of_int k :: 32 word)"
    by (rule bit_word_eqI) (simp add: bit_simps)
  moreover have "sint (word_of_int k :: 32 word) = k"
    using assms by (simp add: sint_sbintrunc' signed_take_bit_int_eq_self)
  ultimately show ?thesis
    by (simp add: errno_from_ret_def)
qed

text \<open>
  C40. Whatever the checked decoder accepts has a Linux errno of the table or of a kind; its
  syscall return is the negated errno, and the user-space return decoder recovers that errno.
\<close>

theorem try_from_i32_syscall_return:
  assumes "kerror_try_from_i32 v = Inr e"
  shows "\<exists>n. linux_from_kerror e = Some n \<and> 1 \<le> n \<and> n \<le> 531
    \<and> into_syscall_return e = Some (- n) \<and> errno_from_ret (word_of_int (- n)) = Inl n"
proof -
  have "\<exists>n. linux_from_kerror e = Some n \<and> 1 \<le> n \<and> n \<le> 531"
  proof (cases "kind_from_code v")
    case (Some k)
    with assms have "e = kerror_new_ax k"
      by (simp add: kerror_try_from_i32_def kerror_new_ax_def kind_from_code_Some)
    with linux_from_kind_range [of k] show ?thesis
      by (simp add: linux_from_kerror_def)
  next
    case None
    with assms have "v < 0" "errno_has_name (- v)" "e = KError v"
      by (auto simp: kerror_try_from_i32_def split: if_splits)
    with errno_table_range show ?thesis
      by (simp add: linux_from_kerror_def kerror_data_def)
  qed
  then show ?thesis
    by (fastforce simp: into_syscall_return_def intro: errno_from_ret_window [of "- n" for n, simplified])
qed

theorem try_from_i32_syscall_return_witness:
  "\<exists>n. linux_from_kerror (KError 16) = Some n \<and> 1 \<le> n \<and> n \<le> 531
    \<and> into_syscall_return (KError 16) = Some (- n) \<and> errno_from_ret (word_of_int (- n)) = Inl n"
  by (rule try_from_i32_syscall_return [of 16])
    (simp add: kerror_try_from_i32_def kind_from_code_def)

end
