(* ===== verification/Seccomp.thy ===== *)
theory Seccomp
  imports Prelude
begin

unbundle bit_operations_syntax

text \<open>
  The classic-BPF engine behind \<open>seccomp(2)\<close> (\<open>src/core/kseccomp/src\<close>): the instruction encoding
  (\<open>opcode.rs\<close>), the data snapshot (\<open>data.rs\<close>), the interpreter (\<open>bpf.rs\<close>), the install-time
  validation and the strict-mode program (\<open>filter.rs\<close>), and the decoding and precedence of
  filter results (\<open>decision.rs\<close>). The interpreter loop is a partial function: a run that never
  leaves the loop is \<open>None\<close>.
\<close>

section \<open>Instruction encoding\<close>

record sock_filter =
  sf_code :: u16
  sf_jt :: u8
  sf_jf :: u8
  sf_k :: u32

abbreviation (input) BPF_LD :: u16 where "BPF_LD \<equiv> 0x00"
abbreviation (input) BPF_LDX :: u16 where "BPF_LDX \<equiv> 0x01"
abbreviation (input) BPF_ST :: u16 where "BPF_ST \<equiv> 0x02"
abbreviation (input) BPF_STX :: u16 where "BPF_STX \<equiv> 0x03"
abbreviation (input) BPF_ALU :: u16 where "BPF_ALU \<equiv> 0x04"
abbreviation (input) BPF_JMP :: u16 where "BPF_JMP \<equiv> 0x05"
abbreviation (input) BPF_RET :: u16 where "BPF_RET \<equiv> 0x06"
abbreviation (input) BPF_MISC :: u16 where "BPF_MISC \<equiv> 0x07"
abbreviation (input) BPF_W :: u16 where "BPF_W \<equiv> 0x00"
abbreviation (input) BPF_H :: u16 where "BPF_H \<equiv> 0x08"
abbreviation (input) BPF_B :: u16 where "BPF_B \<equiv> 0x10"
abbreviation (input) SIZE_A :: u16 where "SIZE_A \<equiv> 0x10"
abbreviation (input) BPF_IMM :: u16 where "BPF_IMM \<equiv> 0x00"
abbreviation (input) BPF_ABS :: u16 where "BPF_ABS \<equiv> 0x20"
abbreviation (input) BPF_IND :: u16 where "BPF_IND \<equiv> 0x40"
abbreviation (input) BPF_MEM :: u16 where "BPF_MEM \<equiv> 0x60"
abbreviation (input) BPF_LEN :: u16 where "BPF_LEN \<equiv> 0x80"
abbreviation (input) BPF_K :: u16 where "BPF_K \<equiv> 0x00"
abbreviation (input) BPF_X :: u16 where "BPF_X \<equiv> 0x08"
abbreviation (input) BPF_ADD :: u16 where "BPF_ADD \<equiv> 0x00"
abbreviation (input) BPF_SUB :: u16 where "BPF_SUB \<equiv> 0x10"
abbreviation (input) BPF_MUL :: u16 where "BPF_MUL \<equiv> 0x20"
abbreviation (input) BPF_DIV :: u16 where "BPF_DIV \<equiv> 0x30"
abbreviation (input) BPF_OR :: u16 where "BPF_OR \<equiv> 0x40"
abbreviation (input) BPF_AND :: u16 where "BPF_AND \<equiv> 0x50"
abbreviation (input) BPF_LSH :: u16 where "BPF_LSH \<equiv> 0x60"
abbreviation (input) BPF_RSH :: u16 where "BPF_RSH \<equiv> 0x70"
abbreviation (input) BPF_NEG :: u16 where "BPF_NEG \<equiv> 0x80"
abbreviation (input) BPF_MOD :: u16 where "BPF_MOD \<equiv> 0x90"
abbreviation (input) BPF_XOR :: u16 where "BPF_XOR \<equiv> 0xa0"
abbreviation (input) BPF_JA :: u16 where "BPF_JA \<equiv> 0x00"
abbreviation (input) BPF_JEQ :: u16 where "BPF_JEQ \<equiv> 0x10"
abbreviation (input) BPF_JGT :: u16 where "BPF_JGT \<equiv> 0x20"
abbreviation (input) BPF_JGE :: u16 where "BPF_JGE \<equiv> 0x30"
abbreviation (input) BPF_JSET :: u16 where "BPF_JSET \<equiv> 0x40"
abbreviation (input) BPF_TAX :: u16 where "BPF_TAX \<equiv> 0x00"
abbreviation (input) BPF_TXA :: u16 where "BPF_TXA \<equiv> 0x80"

definition class_of :: "u16 \<Rightarrow> u16" where "class_of code = code AND 0x07"

definition size_of :: "u16 \<Rightarrow> u16" where "size_of code = code AND 0x18"

definition mode_of :: "u16 \<Rightarrow> u16" where "mode_of code = code AND 0xe0"

definition op_of :: "u16 \<Rightarrow> u16" where "op_of code = code AND 0xf0"

definition src_of :: "u16 \<Rightarrow> u16" where "src_of code = code AND 0x08"

lemmas opcode_fields = class_of_def size_of_def mode_of_def op_of_def src_of_def

section \<open>The data snapshot\<close>

abbreviation (input) SECCOMP_DATA_SIZE :: nat where "SECCOMP_DATA_SIZE \<equiv> 64"
abbreviation (input) BPF_MAXINSNS :: nat where "BPF_MAXINSNS \<equiv> 4096"
abbreviation (input) NR_OFFSET :: nat where "NR_OFFSET \<equiv> 0"
abbreviation (input) ARCH_OFFSET :: nat where "ARCH_OFFSET \<equiv> 4"
abbreviation (input) IP_OFFSET :: nat where "IP_OFFSET \<equiv> 8"
abbreviation (input) ARGS_OFFSET :: nat where "ARGS_OFFSET \<equiv> 16"

text \<open>\<open>words[off..off + n].copy_from_slice(bytes)\<close>, for a slice inside the array.\<close>

definition copy_slice :: "'a list \<Rightarrow> nat \<Rightarrow> 'a list \<Rightarrow> 'a list" where
  "copy_slice ws off bs = take off ws @ bs @ drop (off + length bs) ws"

fun copy_args :: "u8 list \<Rightarrow> nat \<Rightarrow> u64 list \<Rightarrow> u8 list" where
  "copy_args ws i [] = ws"
| "copy_args ws i (arg # args) =
     copy_args (copy_slice ws (ARGS_OFFSET + i * 8) (to_le_bytes 8 arg)) (Suc i) args"

definition seccomp_data_new :: "u32 \<Rightarrow> u32 \<Rightarrow> u64 \<Rightarrow> u64 list \<Rightarrow> u8 list" where
  "seccomp_data_new nr arch instruction_pointer args =
     (let words = replicate SECCOMP_DATA_SIZE 0;
          words = copy_slice words NR_OFFSET (to_le_bytes 4 nr);
          words = copy_slice words ARCH_OFFSET (to_le_bytes 4 arch);
          words = copy_slice words IP_OFFSET (to_le_bytes 8 instruction_pointer)
      in copy_args words 0 args)"

section \<open>Return values and decisions\<close>

abbreviation (input) SECCOMP_RET_KILL_PROCESS :: u32 where "SECCOMP_RET_KILL_PROCESS \<equiv> 0x80000000"
abbreviation (input) SECCOMP_RET_KILL_THREAD :: u32 where "SECCOMP_RET_KILL_THREAD \<equiv> 0x00000000"
abbreviation (input) SECCOMP_RET_TRAP :: u32 where "SECCOMP_RET_TRAP \<equiv> 0x00030000"
abbreviation (input) SECCOMP_RET_ERRNO :: u32 where "SECCOMP_RET_ERRNO \<equiv> 0x00050000"
abbreviation (input) SECCOMP_RET_USER_NOTIF :: u32 where "SECCOMP_RET_USER_NOTIF \<equiv> 0x7fc00000"
abbreviation (input) SECCOMP_RET_TRACE :: u32 where "SECCOMP_RET_TRACE \<equiv> 0x7ff00000"
abbreviation (input) SECCOMP_RET_LOG :: u32 where "SECCOMP_RET_LOG \<equiv> 0x7ffc0000"
abbreviation (input) SECCOMP_RET_ALLOW :: u32 where "SECCOMP_RET_ALLOW \<equiv> 0x7fff0000"
abbreviation (input) SECCOMP_RET_ACTION_FULL :: u32 where "SECCOMP_RET_ACTION_FULL \<equiv> 0xffff0000"
abbreviation (input) SECCOMP_RET_DATA :: u32 where "SECCOMP_RET_DATA \<equiv> 0x0000ffff"

datatype action =
    ActAllow | ActErrno u32 | ActKillProcess | ActKillThread
  | ActUserNotif | ActTrace | ActLog | ActUnknown

datatype decision =
    DecAllow | DecErrno u32 | DecKillProcess | DecKillThread
  | DecUserNotif | DecTrace | DecUnsupported

definition action_from_ret :: "u32 \<Rightarrow> action" where
  "action_from_ret ret =
     (let act = ret AND SECCOMP_RET_ACTION_FULL in
      if act = SECCOMP_RET_KILL_PROCESS then ActKillProcess
      else if act = SECCOMP_RET_KILL_THREAD then ActKillThread
      else if act = SECCOMP_RET_TRAP then ActUnknown
      else if act = SECCOMP_RET_ERRNO then ActErrno (ret AND SECCOMP_RET_DATA)
      else if act = SECCOMP_RET_USER_NOTIF then ActUserNotif
      else if act = SECCOMP_RET_TRACE then ActTrace
      else if act = SECCOMP_RET_LOG then ActLog
      else if act = SECCOMP_RET_ALLOW then ActAllow
      else ActUnknown)"

fun precedence :: "action \<Rightarrow> nat" where
  "precedence ActUnknown = 0"
| "precedence ActKillProcess = 1"
| "precedence ActKillThread = 2"
| "precedence (ActErrno _) = 3"
| "precedence ActUserNotif = 4"
| "precedence ActTrace = 5"
| "precedence ActLog = 6"
| "precedence ActAllow = 7"

fun decision_from :: "action \<Rightarrow> decision" where
  "decision_from ActAllow = DecAllow"
| "decision_from (ActErrno e) = DecErrno e"
| "decision_from ActKillProcess = DecKillProcess"
| "decision_from ActKillThread = DecKillThread"
| "decision_from ActUserNotif = DecUserNotif"
| "decision_from ActTrace = DecTrace"
| "decision_from ActLog = DecAllow"
| "decision_from ActUnknown = DecUnsupported"

definition highest_priority :: "action list \<Rightarrow> decision" where
  "highest_priority results =
     (case min_by_key precedence results of None \<Rightarrow> DecAllow | Some a \<Rightarrow> decision_from a)"

section \<open>The interpreter\<close>

definition load_word :: "u8 list \<Rightarrow> nat \<Rightarrow> u32" where
  "load_word data offset =
     (if offset + 4 \<le> length data then from_le_bytes (take 4 (drop offset data)) else 0)"

definition load_half :: "u8 list \<Rightarrow> nat \<Rightarrow> u32" where
  "load_half data offset =
     (if offset + 2 \<le> length data
      then ucast (from_le_bytes (take 2 (drop offset data)) :: u16) else 0)"

definition load_byte :: "u8 list \<Rightarrow> nat \<Rightarrow> u32" where
  "load_byte data offset = (if length data \<le> offset then 0 else ucast (data ! offset))"

definition load_sized :: "u8 list \<Rightarrow> u16 \<Rightarrow> nat \<Rightarrow> u32 option" where
  "load_sized data code offset =
     (if size_of code = BPF_H then Some (load_half data offset)
      else if size_of code = BPF_B then Some (load_byte data offset)
      else if size_of code = BPF_W then Some (load_word data offset)
      else None)"

definition load_operand :: "u8 list \<Rightarrow> u16 \<Rightarrow> u32 \<Rightarrow> u32 \<Rightarrow> u32 list \<Rightarrow> u32 option" where
  "load_operand data code k x mem =
     (if mode_of code = BPF_ABS then load_sized data code (unat k)
      else if mode_of code = BPF_IND then load_sized data code (unat (x + k))
      else if mode_of code = BPF_IMM then Some k
      else if mode_of code = BPF_MEM then Some (mem ! unat (k AND 0xf))
      else if mode_of code = BPF_LEN then Some (of_nat SECCOMP_DATA_SIZE)
      else None)"

definition alu_operand :: "u16 \<Rightarrow> u32 \<Rightarrow> u32 \<Rightarrow> u32 option" where
  "alu_operand op a rhs =
     (if op = BPF_ADD then Some (a + rhs)
      else if op = BPF_SUB then Some (a - rhs)
      else if op = BPF_MUL then Some (a * rhs)
      else if op = BPF_DIV then (if rhs = 0 then None else Some (a div rhs))
      else if op = BPF_OR then Some (a OR rhs)
      else if op = BPF_AND then Some (a AND rhs)
      else if op = BPF_LSH then Some (push_bit (unat (rhs AND 31)) a)
      else if op = BPF_RSH then Some (drop_bit (unat (rhs AND 31)) a)
      else if op = BPF_NEG then Some (- a)
      else if op = BPF_MOD then (if rhs = 0 then None else Some (a mod rhs))
      else if op = BPF_XOR then Some (a XOR rhs)
      else None)"

text \<open>The locals of \<open>run\<close>: accumulator, index register, scratch memory and program counter.\<close>

record bpf_machine =
  bm_a :: u32
  bm_x :: u32
  bm_mem :: "u32 list"
  bm_pc :: int

definition bpf_init :: bpf_machine where
  "bpf_init = \<lparr>bm_a = 0, bm_x = 0, bm_mem = replicate 16 0, bm_pc = 0\<rparr>"

abbreviation (input) DEFAULT_RETURN :: u32 where "DEFAULT_RETURN \<equiv> SECCOMP_RET_KILL_THREAD"

text \<open>The \<open>pc += 1\<close> at the end of the loop body.\<close>

definition bpf_next :: "bpf_machine \<Rightarrow> bpf_machine" where
  "bpf_next m = m\<lparr>bm_pc := bm_pc m + 1\<rparr>"

text \<open>One iteration of the loop body: \<open>Inl\<close> of the value returned, or the next state.\<close>

definition bpf_step :: "sock_filter \<Rightarrow> u8 list \<Rightarrow> bpf_machine \<Rightarrow> u32 + bpf_machine" where
  "bpf_step insn data m =
     (let code = sf_code insn; cls = class_of code; k = sf_k insn;
          rhs = (if src_of code = BPF_X then bm_x m else k) in
      if cls = BPF_LD \<or> cls = BPF_LDX then
        (case load_operand data code k (bm_x m) (bm_mem m) of
           None \<Rightarrow> Inl DEFAULT_RETURN
         | Some v \<Rightarrow> Inr (bpf_next (if cls = BPF_LD then m\<lparr>bm_a := v\<rparr> else m\<lparr>bm_x := v\<rparr>)))
      else if cls = BPF_ST then
        Inr (bpf_next (m\<lparr>bm_mem := (bm_mem m)[unat (k AND 0xf) := bm_a m]\<rparr>))
      else if cls = BPF_STX then
        Inr (bpf_next (m\<lparr>bm_mem := (bm_mem m)[unat (k AND 0xf) := bm_x m]\<rparr>))
      else if cls = BPF_ALU then
        (case alu_operand (op_of code) (bm_a m) rhs of
           None \<Rightarrow> Inl DEFAULT_RETURN
         | Some v \<Rightarrow> Inr (bpf_next (m\<lparr>bm_a := v\<rparr>)))
      else if cls = BPF_JMP then
        (let op = op_of code;
             branch = (\<lambda>taken. Inr (bpf_next (m\<lparr>bm_pc := bm_pc m +
                         (if taken then uint (sf_jt insn) else uint (sf_jf insn))\<rparr>))) in
         if op = BPF_JA then Inr (m\<lparr>bm_pc := bm_pc m + uint k\<rparr>)
         else if op = BPF_JEQ then branch (bm_a m = rhs)
         else if op = BPF_JGT then branch (bm_a m > rhs)
         else if op = BPF_JGE then branch (bm_a m \<ge> rhs)
         else if op = BPF_JSET then branch (bm_a m AND rhs \<noteq> 0)
         else Inl DEFAULT_RETURN)
      else if cls = BPF_RET then Inl (if size_of code = SIZE_A then bm_a m else k)
      else if cls = BPF_MISC then
        (let op = op_of code AND NOT BPF_K in
         if op = BPF_TAX then Inr (bpf_next (m\<lparr>bm_x := bm_a m\<rparr>))
         else if op = BPF_TXA then Inr (bpf_next (m\<lparr>bm_a := bm_x m\<rparr>))
         else Inl DEFAULT_RETURN)
      else Inl DEFAULT_RETURN)"

partial_function (option) bpf_loop ::
  "sock_filter list \<Rightarrow> u8 list \<Rightarrow> bpf_machine \<Rightarrow> u32 option" where
  "bpf_loop program data m =
     (if 0 \<le> bm_pc m \<and> bm_pc m < int (length program) then
        (case bpf_step (program ! nat (bm_pc m)) data m of
           Inl r \<Rightarrow> Some r
         | Inr m' \<Rightarrow> bpf_loop program data m')
      else Some DEFAULT_RETURN)"

definition bpf_run :: "sock_filter list \<Rightarrow> u8 list \<Rightarrow> u32 option" where
  "bpf_run program data =
     (if program = [] then Some DEFAULT_RETURN else bpf_loop program data bpf_init)"

section \<open>Validation and construction of filters\<close>

datatype filter_error = EmptyProgram | TooManyInstructions | InvalidInstruction

text \<open>The body of the loop of \<open>validate\<close>: whether instruction \<open>pc\<close> of \<open>len\<close> is accepted.\<close>

definition insn_ok :: "nat \<Rightarrow> nat \<Rightarrow> sock_filter \<Rightarrow> bool" where
  "insn_ok len pc insn =
     (let code = sf_code insn; cls = code AND 0x07; size = code AND 0x18;
          mode = code AND 0xe0; op = code AND 0xf0 in
      if cls = BPF_LD \<or> cls = BPF_LDX then
        (if mode = BPF_IMM \<or> mode = BPF_MEM \<or> mode = BPF_LEN then size = BPF_W
         else if mode = BPF_ABS \<or> mode = BPF_IND then size = BPF_W \<or> size = BPF_H \<or> size = BPF_B
         else False)
      else if cls = BPF_ST \<or> cls = BPF_STX then code = cls
      else if cls = BPF_ALU then
        (op = BPF_ADD \<or> op = BPF_SUB \<or> op = BPF_MUL \<or> op = BPF_DIV \<or> op = BPF_OR \<or> op = BPF_AND
         \<or> op = BPF_LSH \<or> op = BPF_RSH \<or> op = BPF_NEG \<or> op = BPF_MOD \<or> op = BPF_XOR)
        \<and> \<not> ((op = BPF_DIV \<or> op = BPF_MOD) \<and> code AND BPF_X = 0 \<and> sf_k insn = 0)
      else if cls = BPF_JMP then
        (if op = BPF_JA then pc + 1 + unat (sf_k insn) < len
         else (op = BPF_JEQ \<or> op = BPF_JGT \<or> op = BPF_JGE \<or> op = BPF_JSET)
           \<and> pc + 1 + unat (sf_jt insn) < len \<and> pc + 1 + unat (sf_jf insn) < len)
      else if cls = BPF_RET then code = BPF_RET OR BPF_K \<or> code = BPF_RET OR SIZE_A
      else if cls = BPF_MISC then
        op AND NOT BPF_X = BPF_TAX \<or> op AND NOT BPF_X = BPF_TXA
      else False)"

definition validate :: "sock_filter list \<Rightarrow> filter_error + unit" where
  "validate insns =
     (if list_all (\<lambda>(pc, insn). insn_ok (length insns) pc insn) (enumerate 0 insns)
      then Inr () else Inl InvalidInstruction)"

definition seccomp_filter_new :: "sock_filter list \<Rightarrow> filter_error + sock_filter list" where
  "seccomp_filter_new insns =
     (if insns = [] then Inl EmptyProgram
      else if length insns > BPF_MAXINSNS then Inl TooManyInstructions
      else (case validate insns of Inl e \<Rightarrow> Inl e | Inr _ \<Rightarrow> Inr insns))"

definition mk_insn :: "u16 \<Rightarrow> u8 \<Rightarrow> u8 \<Rightarrow> u32 \<Rightarrow> sock_filter" where
  "mk_insn code jt jf k = \<lparr>sf_code = code, sf_jt = jt, sf_jf = jf, sf_k = k\<rparr>"

definition strict_allowlist :: "u32 list \<Rightarrow> filter_error + sock_filter list" where
  "strict_allowlist nrs =
     (if length nrs > BPF_MAXINSNS \<or> length nrs > 255 then Inl TooManyInstructions
      else Inr ([mk_insn (BPF_LD OR BPF_W OR BPF_ABS) 0 0 (of_nat NR_OFFSET)]
        @ map (\<lambda>(i, nr). mk_insn (BPF_JMP OR BPF_JEQ OR BPF_K) (of_nat (length nrs - i)) 0 nr)
            (enumerate 0 nrs)
        @ [mk_insn (BPF_RET OR BPF_K) 0 0 SECCOMP_RET_KILL_THREAD,
           mk_insn (BPF_RET OR BPF_K) 0 0 SECCOMP_RET_ALLOW]))"

section \<open>Progress of the interpreter\<close>

text \<open>An unconditional jump with offset zero, on which the interpreter makes no progress.\<close>

definition ja_zero :: "sock_filter \<Rightarrow> bool" where
  "ja_zero insn \<longleftrightarrow>
     class_of (sf_code insn) = BPF_JMP \<and> op_of (sf_code insn) = BPF_JA \<and> sf_k insn = 0"

lemma bpf_next_pc [simp]: "bm_pc (bpf_next m) = bm_pc m + 1"
  by (simp add: bpf_next_def)

lemma bpf_init_simps [simp]:
  "bm_a bpf_init = 0" "bm_x bpf_init = 0" "bm_mem bpf_init = replicate 16 0" "bm_pc bpf_init = 0"
  by (simp_all add: bpf_init_def)

lemma bpf_step_progress:
  assumes "bpf_step insn data m = Inr m'" "\<not> ja_zero insn"
  shows "bm_pc m < bm_pc m'"
proof -
  have "sf_k insn = 0 \<or> 0 < uint (sf_k insn)"
    by (metis linorder_neqE_linordered_idom uint_0_iff uint_lt_0)
  then show ?thesis
    using assms
    by (auto simp: bpf_step_def Let_def ja_zero_def add_strict_increasing2
        split: if_splits option.splits)
qed


lemma bpf_loop_terminates:
  assumes "list_all (\<lambda>insn. \<not> ja_zero insn) program"
  shows "\<exists>r. bpf_loop program data m = Some r"
proof (induction "nat (int (length program) - bm_pc m)" arbitrary: m rule: less_induct)
  case less
  show ?case
  proof (cases "0 \<le> bm_pc m \<and> bm_pc m < int (length program)")
    case False
    then show ?thesis by (auto simp: bpf_loop.simps)
  next
    case True
    then have "\<not> ja_zero (program ! nat (bm_pc m))"
      using assms by (auto simp: list_all_length)
    then have "\<exists>r. bpf_loop program data m' = Some r"
      if "bpf_step (program ! nat (bm_pc m)) data m = Inr m'" for m'
      using less [of m'] bpf_step_progress [OF that] True by auto
    with True show ?thesis
      by (auto simp: bpf_loop.simps [of program data m] split: sum.splits)
  qed
qed


lemma enumerate_all:
  "list_all (\<lambda>(i, x). P i x) (enumerate n xs) \<longleftrightarrow> (\<forall>i < length xs. P (n + i) (xs ! i))"
  by (auto simp: list_all_length nth_enumerate_eq)

lemma seccomp_filter_new_Inr:
  "seccomp_filter_new insns = Inr f \<longleftrightarrow>
     f = insns \<and> insns \<noteq> [] \<and> length insns \<le> BPF_MAXINSNS
     \<and> (\<forall>i < length insns. insn_ok (length insns) i (insns ! i))"
  by (auto simp: seccomp_filter_new_def validate_def enumerate_all)

text \<open>
  C15. A filter without a zero-offset unconditional jump always runs to a result, on every
  data snapshot, so evaluating it at syscall entry terminates.
\<close>

theorem bpf_run_terminates:
  assumes "list_all (\<lambda>insn. \<not> ja_zero insn) program"
  shows "\<exists>r. bpf_run program data = Some r"
  using bpf_loop_terminates [OF assms] by (simp add: bpf_run_def)

theorem bpf_run_terminates_witness:
  "\<exists>r. bpf_run [mk_insn (BPF_JMP OR BPF_JEQ) 1 0 7, mk_insn BPF_RET 0 0 0, mk_insn BPF_RET 0 0 1]
     (replicate 64 0) = Some r"
  by (rule bpf_run_terminates) (simp add: ja_zero_def mk_insn_def opcode_fields)


section \<open>The data snapshot is read back field by field\<close>

lemma length_copy_slice [simp]:
  "off + length bs \<le> length ws \<Longrightarrow> length (copy_slice ws off bs) = length ws"
  by (simp add: copy_slice_def)

lemma slice_copy_slice:
  assumes "off + length bs \<le> length ws"
  shows "take (length bs) (drop off (copy_slice ws off bs)) = bs"
  using assms by (simp add: copy_slice_def)

lemma slice_copy_slice_before:
  assumes "o' + n \<le> off" "off \<le> length ws"
  shows "take n (drop o' (copy_slice ws off bs)) = take n (drop o' ws)"
  using assms by (auto simp: copy_slice_def drop_take min_def)

lemma length_copy_args [simp]:
  "16 + (i + length args) * 8 \<le> length ws \<Longrightarrow> length (copy_args ws i args) = length ws"
  by (induction args arbitrary: ws i) (auto simp: algebra_simps)

lemma slice_copy_args_before:
  "o' + n \<le> 16 + i * 8 \<Longrightarrow> 16 + (i + length args) * 8 \<le> length ws \<Longrightarrow>
     take n (drop o' (copy_args ws i args)) = take n (drop o' ws)"
  by (induction args arbitrary: ws i) (auto simp: slice_copy_slice_before algebra_simps)

lemma length_seccomp_data_new [simp]:
  "length args = 6 \<Longrightarrow> length (seccomp_data_new nr arch ip args) = 64"
  by (simp add: seccomp_data_new_def)

lemma seccomp_data_nr:
  assumes "length args = 6"
  shows "load_word (seccomp_data_new nr arch ip args) NR_OFFSET = nr"
proof -
  have "take 4 (drop 0 (seccomp_data_new nr arch ip args)) = to_le_bytes 4 nr"
    using assms slice_copy_slice [of 0 "to_le_bytes 4 nr" "replicate 64 0"]
    by (simp add: seccomp_data_new_def slice_copy_args_before [of 0, simplified]
        slice_copy_slice_before [of 0, simplified])
  then show ?thesis
    using assms by (simp add: load_word_def from_to_le_bytes)
qed

lemma seccomp_data_arch:
  assumes "length args = 6"
  shows "load_word (seccomp_data_new nr arch ip args) ARCH_OFFSET = arch"
proof -
  have "take 4 (drop 4 (seccomp_data_new nr arch ip args)) = to_le_bytes 4 arch"
    using assms
      slice_copy_slice [of 4 "to_le_bytes 4 arch" "copy_slice (replicate 64 0) 0 (to_le_bytes 4 nr)"]
    by (simp add: seccomp_data_new_def slice_copy_args_before slice_copy_slice_before)
  then show ?thesis
    using assms by (simp add: load_word_def from_to_le_bytes)
qed

section \<open>Strict mode\<close>

abbreviation strict_program :: "u32 list \<Rightarrow> sock_filter list" where
  "strict_program nrs \<equiv> projr (strict_allowlist nrs)"

lemma strict_program_nth:
  assumes "length nrs \<le> 255"
  shows "length (strict_program nrs) = length nrs + 3"
    and "strict_program nrs ! 0 = mk_insn 0x20 0 0 0"
    and "i < length nrs \<Longrightarrow>
      strict_program nrs ! (Suc i) = mk_insn 0x15 (of_nat (length nrs - i)) 0 (nrs ! i)"
    and "strict_program nrs ! Suc (length nrs) = mk_insn 0x06 0 0 SECCOMP_RET_KILL_THREAD"
    and "strict_program nrs ! Suc (Suc (length nrs)) = mk_insn 0x06 0 0 SECCOMP_RET_ALLOW"
  using assms by (auto simp: strict_allowlist_def nth_append nth_enumerate_eq)

lemma bpf_step_jeq:
  "bpf_step (mk_insn 0x15 jt jf k) data m =
     Inr (m\<lparr>bm_pc := bm_pc m + (if bm_a m = k then uint jt else uint jf) + 1\<rparr>)"
  by (simp add: bpf_step_def mk_insn_def opcode_fields bpf_next_def)

lemma bpf_step_ret: "bpf_step (mk_insn 0x06 jt jf k) data m = Inl k"
  by (simp add: bpf_step_def mk_insn_def opcode_fields)

lemma bpf_step_ld_nr:
  "bpf_step (mk_insn 0x20 0 0 0) data m = Inr (bpf_next (m\<lparr>bm_a := load_word data 0\<rparr>))"
  by (simp add: bpf_step_def mk_insn_def opcode_fields load_operand_def load_sized_def)

lemma bpf_loop_ret:
  assumes "program ! nat (bm_pc m) = mk_insn 0x06 jt jf k" "0 \<le> bm_pc m"
    "bm_pc m < int (length program)"
  shows "bpf_loop program data m = Some k"
  using assms by (simp add: bpf_loop.simps [of program data m] bpf_step_ret)

lemma strict_loop:
  assumes "length nrs \<le> 255" "i \<le> length nrs" "bm_pc m = int (Suc i)"
  shows "bpf_loop (strict_program nrs) data m =
    Some (if bm_a m \<in> set (drop i nrs) then SECCOMP_RET_ALLOW else SECCOMP_RET_KILL_THREAD)"
  using assms(2,3)
proof (induction "length nrs - i" arbitrary: i m)
  case 0
  then show ?case
    using strict_program_nth [OF assms(1)] by (simp add: bpf_loop_ret nat_add_distrib)
next
  case (Suc d)
  then have i: "i < length nrs" by simp
  let ?m = "\<lambda>off. m\<lparr>bm_pc := bm_pc m + off + 1\<rparr>"
  have jump: "uint (of_nat (length nrs - i) :: u8) = int (length nrs - i)"
    using assms(1) by (simp add: unsigned_of_nat take_bit_nat_eq_self del: of_nat_diff)
  have step: "bpf_loop (strict_program nrs) data m =
      bpf_loop (strict_program nrs) data (?m (if bm_a m = nrs ! i then int (length nrs - i) else 0))"
    using i Suc.prems strict_program_nth [OF assms(1)] jump
    by (simp add: bpf_loop.simps [of _ _ m] bpf_step_jeq nat_add_distrib del: of_nat_diff)
  show ?case
  proof (cases "bm_a m = nrs ! i")
    case True
    have "bpf_loop (strict_program nrs) data (?m (int (length nrs - i))) = Some SECCOMP_RET_ALLOW"
      using i Suc.prems strict_program_nth [OF assms(1)]
      by (intro bpf_loop_ret) (auto simp: nat_add_distrib of_nat_diff)
    with True i step show ?thesis by (simp add: Cons_nth_drop_Suc [symmetric])
  next
    case False
    have "bpf_loop (strict_program nrs) data (?m 0) =
        Some (if bm_a (?m 0) \<in> set (drop (Suc i) nrs) then SECCOMP_RET_ALLOW
              else SECCOMP_RET_KILL_THREAD)"
      using Suc.hyps i Suc.prems by (intro Suc.hyps(1)) auto
    with False i step show ?thesis by (simp add: Cons_nth_drop_Suc [symmetric])
  qed
qed

lemma strict_run:
  assumes "strict_allowlist nrs = Inr f"
  shows "bpf_run f data =
    Some (if load_word data NR_OFFSET \<in> set nrs then SECCOMP_RET_ALLOW
          else SECCOMP_RET_KILL_THREAD)"
proof -
  from assms have n: "length nrs \<le> 255" and f: "f = strict_program nrs"
    by (auto simp: strict_allowlist_def split: if_splits)
  note nth = strict_program_nth [OF n]
  have "f \<noteq> []" using nth(1) f by auto
  then have "bpf_run f data = bpf_loop f data bpf_init"
    by (simp add: bpf_run_def)
  also have "\<dots> = bpf_loop f data (bpf_next (bpf_init\<lparr>bm_a := load_word data 0\<rparr>))"
    using nth f by (simp add: bpf_loop.simps [of _ _ bpf_init] bpf_step_ld_nr)
  also have "\<dots> = Some (if load_word data 0 \<in> set nrs then SECCOMP_RET_ALLOW
          else SECCOMP_RET_KILL_THREAD)"
    unfolding f by (subst strict_loop [OF n, of 0]) (auto simp: bpf_next_def)
  finally show ?thesis .
qed

text \<open>
  C23. The program built for strict mode decides every snapshot: it returns allow exactly
  when the system call number of the snapshot is one of the listed numbers and kills the thread
  otherwise, and it would itself pass the install-time validation.
\<close>

theorem strict_allowlist_correct:
  assumes "strict_allowlist nrs = Inr f" and "length args = 6"
  shows "bpf_run f (seccomp_data_new nr arch ip args) =
      Some (if nr \<in> set nrs then SECCOMP_RET_ALLOW else SECCOMP_RET_KILL_THREAD)
    \<and> seccomp_filter_new f = Inr f"
proof -
  from assms(1) have n: "length nrs \<le> 255" and f: "f = strict_program nrs"
    by (auto simp: strict_allowlist_def split: if_splits)
  note nth = strict_program_nth [OF n]
  have "insn_ok (length f) i (f ! i)" if lt: "i < length f" for i
  proof -
    consider "i = 0" | j where "i = Suc j" "j < length nrs"
      | "i = Suc (length nrs)" | "i = Suc (Suc (length nrs))"
      using lt nth(1) f by (cases i) (auto simp: less_Suc_eq)
    then show ?thesis
    proof cases
      case 2
      then have "unat (of_nat (length nrs - j) :: u8) = length nrs - j"
        using n by (simp add: unsigned_of_nat take_bit_nat_eq_self del: of_nat_diff)
      with 2 nth f show ?thesis
        by (simp add: insn_ok_def mk_insn_def del: of_nat_diff)
    qed (use nth f in \<open>auto simp: insn_ok_def mk_insn_def\<close>)
  qed
  then have "seccomp_filter_new f = Inr f"
    using nth(1) n f by (auto simp: seccomp_filter_new_Inr)
  moreover have "bpf_run f (seccomp_data_new nr arch ip args) =
      Some (if nr \<in> set nrs then SECCOMP_RET_ALLOW else SECCOMP_RET_KILL_THREAD)"
    using strict_run [OF assms(1)] seccomp_data_nr [OF assms(2)] by simp
  ultimately show ?thesis by simp
qed

theorem strict_allowlist_correct_witness:
  "bpf_run (projr (strict_allowlist [0, 1, 60, 15])) (seccomp_data_new 59 0xc000003e 0 (replicate 6 0)) =
      Some (if (59::u32) \<in> set [0, 1, 60, 15] then SECCOMP_RET_ALLOW else SECCOMP_RET_KILL_THREAD)
    \<and> seccomp_filter_new (projr (strict_allowlist [0, 1, 60, 15]))
        = Inr (projr (strict_allowlist [0, 1, 60, 15]))"
  by (rule strict_allowlist_correct) (simp_all add: strict_allowlist_def)

section \<open>What validation guarantees\<close>

lemma src_bit_cases: "(code :: u16) AND 8 = 0 \<or> code AND 8 = 8"
  using and_exp_word [of code 3] by (simp split: if_splits)

lemma insn_ok_load:
  assumes "insn_ok len pc insn" "class_of (sf_code insn) = BPF_LD \<or> class_of (sf_code insn) = BPF_LDX"
  shows "\<exists>v. load_operand data (sf_code insn) k x mem = Some v"
  using assms unfolding insn_ok_def load_operand_def load_sized_def opcode_fields Let_def
  by (auto split: if_splits)

lemma insn_ok_alu:
  assumes "insn_ok len pc insn" "class_of (sf_code insn) = BPF_ALU"
    "alu_operand (op_of (sf_code insn)) a (if src_of (sf_code insn) = BPF_X then x else sf_k insn) = None"
  shows "(op_of (sf_code insn) = BPF_DIV \<or> op_of (sf_code insn) = BPF_MOD)
    \<and> src_of (sf_code insn) = BPF_X \<and> x = 0"
  using assms src_bit_cases [of "sf_code insn"]
  unfolding insn_ok_def alu_operand_def opcode_fields Let_def
  by (auto split: if_splits)

lemma insn_ok_jump_targets:
  assumes "insn_ok len pc insn" "class_of (sf_code insn) = BPF_JMP"
  shows "op_of (sf_code insn) = BPF_JA \<and> pc + 1 + unat (sf_k insn) < len
    \<or> (op_of (sf_code insn) = BPF_JEQ \<or> op_of (sf_code insn) = BPF_JGT
        \<or> op_of (sf_code insn) = BPF_JGE \<or> op_of (sf_code insn) = BPF_JSET)
      \<and> pc + 1 + unat (sf_jt insn) < len \<and> pc + 1 + unat (sf_jf insn) < len"
  using assms by (simp add: insn_ok_def class_of_def op_of_def Let_def split: if_splits)

lemma bpf_step_jump:
  assumes "class_of (sf_code insn) = BPF_JMP"
    and "op_of (sf_code insn) = BPF_JEQ \<or> op_of (sf_code insn) = BPF_JGT
      \<or> op_of (sf_code insn) = BPF_JGE \<or> op_of (sf_code insn) = BPF_JSET"
  shows "\<exists>taken. bpf_step insn data m = Inr (bpf_next (m\<lparr>bm_pc := bm_pc m +
    (if taken then uint (sf_jt insn) else uint (sf_jf insn))\<rparr>))"
proof -
  define rhs where "rhs = (if src_of (sf_code insn) = BPF_X then bm_x m else sf_k insn)"
  note step = bpf_step_def Let_def rhs_def [symmetric] assms(1)
  from assms(2) show ?thesis
  proof (elim disjE, goal_cases)
    case 1
    then show ?thesis by (intro exI [of _ "bm_a m = rhs"]) (simp add: step)
  next
    case 2
    then show ?thesis by (intro exI [of _ "bm_a m > rhs"]) (simp add: step)
  next
    case 3
    then show ?thesis by (intro exI [of _ "bm_a m \<ge> rhs"]) (simp add: step)
  next
    case 4
    then show ?thesis by (intro exI [of _ "bm_a m AND rhs \<noteq> 0"]) (simp add: step)
  qed
qed

lemma pc_target_less:
  "\<lbrakk>0 \<le> pc; nat pc + 1 + unat w < len\<rbrakk> \<Longrightarrow> 0 \<le> pc + uint w \<and> pc + uint w + 1 < int len"
  using of_nat_unat [of w, where ?'a = int] by linarith

lemma insn_ok_jump:
  assumes "insn_ok len (nat (bm_pc m)) insn" "class_of (sf_code insn) = BPF_JMP" "0 \<le> bm_pc m"
  shows "\<exists>m'. bpf_step insn data m = Inr m' \<and> 0 \<le> bm_pc m' \<and> bm_pc m' < int len"
proof (cases "op_of (sf_code insn) = BPF_JA")
  case True
  then have "nat (bm_pc m) + 1 + unat (sf_k insn) < len"
    using insn_ok_jump_targets [OF assms(1,2)] by simp
  moreover have "bpf_step insn data m = Inr (m\<lparr>bm_pc := bm_pc m + uint (sf_k insn)\<rparr>)"
    using True by (simp add: bpf_step_def Let_def assms(2))
  ultimately show ?thesis using pc_target_less [OF assms(3)] by fastforce
next
  case False
  then have targets: "nat (bm_pc m) + 1 + unat (sf_jt insn) < len"
      "nat (bm_pc m) + 1 + unat (sf_jf insn) < len"
    using insn_ok_jump_targets [OF assms(1,2)] by blast+
  obtain taken where "bpf_step insn data m = Inr (bpf_next (m\<lparr>bm_pc := bm_pc m +
      (if taken then uint (sf_jt insn) else uint (sf_jf insn))\<rparr>))"
    using bpf_step_jump [OF assms(2)] insn_ok_jump_targets [OF assms(1,2)] False by blast
  then show ?thesis
    using pc_target_less [OF assms(3) targets(1)] pc_target_less [OF assms(3) targets(2)]
    by (cases taken) (simp_all add: algebra_simps)
qed

lemma bpf_step_class:
  "class_of (sf_code insn) = BPF_LD \<Longrightarrow> bpf_step insn data m =
     (case load_operand data (sf_code insn) (sf_k insn) (bm_x m) (bm_mem m) of
        None \<Rightarrow> Inl DEFAULT_RETURN | Some v \<Rightarrow> Inr (bpf_next (m\<lparr>bm_a := v\<rparr>)))"
  "class_of (sf_code insn) = BPF_LDX \<Longrightarrow> bpf_step insn data m =
     (case load_operand data (sf_code insn) (sf_k insn) (bm_x m) (bm_mem m) of
        None \<Rightarrow> Inl DEFAULT_RETURN | Some v \<Rightarrow> Inr (bpf_next (m\<lparr>bm_x := v\<rparr>)))"
  "class_of (sf_code insn) = BPF_ST \<Longrightarrow> bpf_step insn data m =
     Inr (bpf_next (m\<lparr>bm_mem := (bm_mem m)[unat (sf_k insn AND 0xf) := bm_a m]\<rparr>))"
  "class_of (sf_code insn) = BPF_STX \<Longrightarrow> bpf_step insn data m =
     Inr (bpf_next (m\<lparr>bm_mem := (bm_mem m)[unat (sf_k insn AND 0xf) := bm_x m]\<rparr>))"
  "class_of (sf_code insn) = BPF_ALU \<Longrightarrow> bpf_step insn data m =
     (case alu_operand (op_of (sf_code insn)) (bm_a m)
         (if src_of (sf_code insn) = BPF_X then bm_x m else sf_k insn) of
        None \<Rightarrow> Inl DEFAULT_RETURN | Some v \<Rightarrow> Inr (bpf_next (m\<lparr>bm_a := v\<rparr>)))"
  "class_of (sf_code insn) = BPF_RET \<Longrightarrow> bpf_step insn data m =
     Inl (if size_of (sf_code insn) = SIZE_A then bm_a m else sf_k insn)"
  "class_of (sf_code insn) = BPF_MISC \<Longrightarrow> bpf_step insn data m =
     (if op_of (sf_code insn) = BPF_TAX then Inr (bpf_next (m\<lparr>bm_x := bm_a m\<rparr>))
      else if op_of (sf_code insn) = BPF_TXA then Inr (bpf_next (m\<lparr>bm_a := bm_x m\<rparr>))
      else Inl DEFAULT_RETURN)"
  by (simp_all add: bpf_step_def Let_def cong: option.case_cong)

lemma insn_ok_class:
  assumes "insn_ok len pc insn"
  obtains "class_of (sf_code insn) = BPF_LD" | "class_of (sf_code insn) = BPF_LDX"
    | "class_of (sf_code insn) = BPF_ST" | "class_of (sf_code insn) = BPF_STX"
    | "class_of (sf_code insn) = BPF_ALU" | "class_of (sf_code insn) = BPF_JMP"
    | "class_of (sf_code insn) = BPF_RET" | "class_of (sf_code insn) = BPF_MISC"
  using assms unfolding insn_ok_def class_of_def Let_def by argo

lemma insn_ok_misc:
  assumes "insn_ok len pc insn" "class_of (sf_code insn) = BPF_MISC"
  shows "op_of (sf_code insn) = BPF_TAX \<or> op_of (sf_code insn) = BPF_TXA"
proof -
  have "(sf_code insn AND 0xf0) AND - 9 = sf_code insn AND 0xf0"
    by (simp add: and.assoc)
  then show ?thesis
    using assms by (simp add: insn_ok_def class_of_def op_of_def Let_def)
qed

text \<open>
  In a filter that passed validation the interpreter gives up only on a division or modulo
  whose divisor register is zero: any other instruction that ends the run is a return, and
  a jump always lands inside the program.
\<close>

theorem validated_step:
  assumes "seccomp_filter_new f = Inr f" and "0 \<le> bm_pc m" and "bm_pc m < int (length f)"
    and "insn = f ! nat (bm_pc m)" and "code = sf_code insn"
  shows "case bpf_step insn data m of
      Inl r \<Rightarrow> class_of code = BPF_RET
        \<or> (class_of code = BPF_ALU \<and> (op_of code = BPF_DIV \<or> op_of code = BPF_MOD)
            \<and> src_of code = BPF_X \<and> bm_x m = 0 \<and> r = SECCOMP_RET_KILL_THREAD)
    | Inr m' \<Rightarrow> class_of code = BPF_JMP \<longrightarrow> 0 \<le> bm_pc m' \<and> bm_pc m' < int (length f)"
proof -
  have ok: "insn_ok (length f) (nat (bm_pc m)) insn"
    using assms(1,2,3) unfolding assms(4) seccomp_filter_new_Inr by simp
  note [simp] = assms(5)
  from ok show ?thesis
  proof (cases rule: insn_ok_class)
    case 1
    then obtain v where "load_operand data (sf_code insn) (sf_k insn) (bm_x m) (bm_mem m) = Some v"
      using insn_ok_load [OF ok] by blast
    then show ?thesis by (simp add: bpf_step_class(1) [OF 1] 1)
  next
    case 2
    then obtain v where "load_operand data (sf_code insn) (sf_k insn) (bm_x m) (bm_mem m) = Some v"
      using insn_ok_load [OF ok] by blast
    then show ?thesis by (simp add: bpf_step_class(2) [OF 2] 2)
  next
    case 5
    then show ?thesis
    proof (cases "alu_operand (op_of (sf_code insn)) (bm_a m)
        (if src_of (sf_code insn) = BPF_X then bm_x m else sf_k insn)")
      case None
      then show ?thesis
        using insn_ok_alu [OF ok 5 None] unfolding bpf_step_class(5) [OF 5] None by (simp add: 5)
    next
      case (Some v)
      then show ?thesis unfolding bpf_step_class(5) [OF 5] Some by (simp add: 5)
    qed
  next
    case 6
    obtain m' where "bpf_step insn data m = Inr m'" "0 \<le> bm_pc m'" "bm_pc m' < int (length f)"
      using insn_ok_jump [OF ok 6 assms(2)] by blast
    then show ?thesis by simp
  next
    case 8
    then show ?thesis using insn_ok_misc [OF ok 8] by (auto simp: bpf_step_class(7) [OF 8])
  qed (simp_all add: bpf_step_class(3,4,6))
qed

theorem validated_step_witness:
  "case bpf_step (mk_insn (BPF_JMP OR BPF_JEQ) 1 0 7) (replicate 64 0) bpf_init of
      Inl r \<Rightarrow> class_of 0x15 = BPF_RET
        \<or> (class_of 0x15 = BPF_ALU \<and> (op_of 0x15 = BPF_DIV \<or> op_of 0x15 = BPF_MOD)
            \<and> src_of 0x15 = BPF_X \<and> bm_x bpf_init = 0 \<and> r = SECCOMP_RET_KILL_THREAD)
    | Inr m' \<Rightarrow> class_of 0x15 = BPF_JMP \<longrightarrow> 0 \<le> bm_pc m' \<and> bm_pc m' < int (length
        [mk_insn 0x15 1 0 7, mk_insn BPF_RET 0 0 0, mk_insn BPF_RET 0 0 1])"
  by (rule validated_step)
    (simp_all add: seccomp_filter_new_def validate_def insn_ok_def mk_insn_def)

section \<open>Precedence of decisions\<close>

text \<open>How much a decision permits: the precedence of the actions that lead to it.\<close>

fun decision_rank :: "decision \<Rightarrow> nat" where
  "decision_rank DecUnsupported = 0"
| "decision_rank DecKillProcess = 1"
| "decision_rank DecKillThread = 2"
| "decision_rank (DecErrno _) = 3"
| "decision_rank DecUserNotif = 4"
| "decision_rank DecTrace = 5"
| "decision_rank DecAllow = 6"

lemma decision_rank_from: "decision_rank (decision_from a) = min 6 (precedence a)"
  by (cases a) auto

lemma decision_rank_le: "decision_rank d \<le> 6"
  by (cases d) auto

lemma highest_priority_rank:
  "decision_rank (highest_priority acts) = Min (insert 6 (precedence ` set acts))"
proof (cases "min_by_key precedence acts")
  case None
  then show ?thesis by (simp add: highest_priority_def)
next
  case (Some a)
  then have "precedence a = Min (precedence ` set acts)"
    using min_by_key_Some [OF Some] by (intro Min_eqI [symmetric]) auto
  moreover have "acts \<noteq> []" using Some by auto
  ultimately show ?thesis
    using Some by (simp add: highest_priority_def decision_rank_from)
qed

lemma highest_priority_antimono:
  "set xs \<subseteq> set ys \<Longrightarrow> decision_rank (highest_priority ys) \<le> decision_rank (highest_priority xs)"
  unfolding highest_priority_rank by (intro Min_antimono) auto

lemma decision_rank_6: "decision_rank d = 6 \<longleftrightarrow> d = DecAllow"
  by (cases d) auto

lemma precedence_allow: "6 \<le> precedence a \<longleftrightarrow> a = ActAllow \<or> a = ActLog"
  by (cases a) auto

lemma highest_priority_all_allow:
  "highest_priority acts = DecAllow \<longleftrightarrow> (\<forall>a \<in> set acts. a = ActAllow \<or> a = ActLog)"
proof -
  have "highest_priority acts = DecAllow \<longleftrightarrow> decision_rank (highest_priority acts) = 6"
    by (simp only: decision_rank_6)
  also have "\<dots> \<longleftrightarrow> 6 \<le> decision_rank (highest_priority acts)"
    using decision_rank_le [of "highest_priority acts"] by linarith
  also have "\<dots> \<longleftrightarrow> (\<forall>a \<in> set acts. 6 \<le> precedence a)"
    unfolding highest_priority_rank by (subst Min_ge_iff) auto
  finally show ?thesis by (simp only: precedence_allow)
qed

end
