(* ===== verification/SeccompThread.thy ===== *)
theory SeccompThread
  imports Seccomp KErrno
begin

text \<open>
  The per-thread seccomp state of \<open>src/process/kprocess/src/thread/seccomp.rs\<close>, the
  \<open>seccomp(2)\<close> entry point of \<open>src/core/ksyscall/src/task/seccomp.rs\<close> and the decision taken at
  system call entry in \<open>src/core/ksyscall/src/dispatch.rs\<close>.

  An \<open>Arc<SeccompFilter>\<close> is a pair of an identity and the program it points to, so that
  \<open>Arc::ptr_eq\<close> compares identities; a thread group carries the next fresh identity. The model
  is sequential: one call runs to its end under the locks the code takes. Reading user memory
  (\<open>read_vm_bytes\<close>) is the parameter \<open>rd\<close>; the system call numbers of the four strict-mode calls
  are the parameter \<open>nrs\<close>, since they depend on the target. The operation and flag numbers of
  \<open>linux_raw_sys\<close> are those of the Linux ABI.
\<close>

unbundle bit_operations_syntax

section \<open>The state of one thread\<close>

datatype seccomp_mode = ModeDisabled | ModeStrict | ModeFilter

type_synonym filter_arc = "nat \<times> sock_filter list"

abbreviation (input) arc_id :: "filter_arc \<Rightarrow> nat" where "arc_id \<equiv> fst"
abbreviation (input) arc_insns :: "filter_arc \<Rightarrow> sock_filter list" where "arc_insns \<equiv> snd"

record seccomp_state =
  ss_mode :: seccomp_mode
  ss_filters :: "filter_arc list"

abbreviation (input) MAX_INSNS_PER_PATH :: nat where "MAX_INSNS_PER_PATH \<equiv> 32768"

definition seccomp_context_new :: seccomp_state where
  "seccomp_context_new = \<lparr>ss_mode = ModeDisabled, ss_filters = []\<rparr>"

fun linux_mode :: "seccomp_state \<Rightarrow> nat" where
  "linux_mode st = (case ss_mode st of ModeDisabled \<Rightarrow> 0 | ModeStrict \<Rightarrow> 1 | ModeFilter \<Rightarrow> 2)"


definition ctx_set_strict :: "u32 list \<Rightarrow> nat \<Rightarrow> seccomp_state \<Rightarrow> kerror + seccomp_state" where
  "ctx_set_strict nrs fresh st =
     (case ss_mode st of
        ModeStrict \<Rightarrow> Inr st
      | ModeFilter \<Rightarrow> Inl (kerror_new_ax InvalidInput)
      | ModeDisabled \<Rightarrow>
          (case strict_allowlist nrs of
             Inl _ \<Rightarrow> Inl (kerror_new_ax InvalidInput)
           | Inr prog \<Rightarrow> Inr \<lparr>ss_mode = ModeStrict, ss_filters = [(fresh, prog)]\<rparr>))"

definition chain_cost :: "filter_arc list \<Rightarrow> nat" where
  "chain_cost fs = sum_list (map (\<lambda>f. length (arc_insns f) + 4) fs)"

definition append_filter :: "filter_arc \<Rightarrow> seccomp_state \<Rightarrow> kerror + seccomp_state" where
  "append_filter f st =
     (if ss_mode st = ModeStrict then Inl (kerror_new_ax InvalidInput)
      else if chain_cost (ss_filters st) + length (arc_insns f) + 4 > MAX_INSNS_PER_PATH
      then Inl (kerror_new_ax NoMemory)
      else Inr \<lparr>ss_mode = ModeFilter, ss_filters = ss_filters st @ [f]\<rparr>)"

definition inherit_from :: "seccomp_state \<Rightarrow> seccomp_state \<Rightarrow> seccomp_state" where
  "inherit_from st parent = st\<lparr>ss_mode := ss_mode parent, ss_filters := ss_filters parent\<rparr>"

definition arc_is_prefix :: "filter_arc list \<Rightarrow> filter_arc list \<Rightarrow> bool" where
  "arc_is_prefix mine theirs \<longleftrightarrow> length mine \<le> length theirs
     \<and> list_all (\<lambda>(m, t). arc_id m = arc_id t) (zip mine theirs)"

definition can_adopt :: "seccomp_state \<Rightarrow> filter_arc list \<Rightarrow> bool" where
  "can_adopt st caller_chain =
     (case ss_mode st of
        ModeDisabled \<Rightarrow> True
      | ModeFilter \<Rightarrow> arc_is_prefix (ss_filters st) caller_chain
      | ModeStrict \<Rightarrow> False)"

definition is_syncable_with :: "seccomp_state \<Rightarrow> seccomp_state \<Rightarrow> bool" where
  "is_syncable_with st caller = can_adopt st (ss_filters caller)"

definition sync_from :: "seccomp_state \<Rightarrow> seccomp_state \<Rightarrow> seccomp_state \<times> bool" where
  "sync_from st caller =
     (if \<not> can_adopt st (ss_filters caller) then (st, False)
      else (\<lparr>ss_mode = (if ss_mode st = ModeDisabled then ModeFilter else ss_mode st),
             ss_filters = ss_filters caller\<rparr>, True))"

text \<open>
  Evaluating a chain: every filter runs, and the decision is that of the action with the
  highest precedence. \<open>None\<close> is a filter that never returns.
\<close>

definition chain_decision :: "('f \<Rightarrow> 'd \<Rightarrow> u32 option) \<Rightarrow> 'f list \<Rightarrow> 'd \<Rightarrow> decision option" where
  "chain_decision run fs d =
     map_option highest_priority (those (map (\<lambda>f. map_option action_from_ret (run f d)) fs))"

definition evaluate :: "seccomp_state \<Rightarrow> u8 list \<Rightarrow> decision option" where
  "evaluate st data = chain_decision (\<lambda>f. bpf_run (arc_insns f)) (ss_filters st) data"

section \<open>The decision at system call entry\<close>





section \<open>The seccomp system call on a thread group\<close>

record thread =
  th_tid :: u32
  th_no_new_privs :: bool
  th_privileged :: bool
  th_seccomp :: seccomp_state

record thread_group =
  tg_threads :: "thread list"
  tg_next_arc :: nat

abbreviation (input) SECCOMP_SET_MODE_STRICT :: u32 where "SECCOMP_SET_MODE_STRICT \<equiv> 0"
abbreviation (input) SECCOMP_SET_MODE_FILTER :: u32 where "SECCOMP_SET_MODE_FILTER \<equiv> 1"
abbreviation (input) SECCOMP_GET_ACTION_AVAIL :: u32 where "SECCOMP_GET_ACTION_AVAIL \<equiv> 2"
abbreviation (input) SECCOMP_GET_NOTIF_SIZES :: u32 where "SECCOMP_GET_NOTIF_SIZES \<equiv> 3"
abbreviation (input) FLAG_TSYNC :: u32 where "FLAG_TSYNC \<equiv> 0x1"
abbreviation (input) FLAG_LOG :: u32 where "FLAG_LOG \<equiv> 0x2"
abbreviation (input) FLAG_SPEC_ALLOW :: u32 where "FLAG_SPEC_ALLOW \<equiv> 0x4"
abbreviation (input) FLAG_TSYNC_ESRCH :: u32 where "FLAG_TSYNC_ESRCH \<equiv> 0x10"
abbreviation (input) SECCOMP_ALLOWED_FLAGS :: u32 where
  "SECCOMP_ALLOWED_FLAGS \<equiv> FLAG_TSYNC OR FLAG_TSYNC_ESRCH OR FLAG_LOG OR FLAG_SPEC_ALLOW"
abbreviation (input) SOCK_FPROG_SIZE :: nat where "SOCK_FPROG_SIZE \<equiv> 16"
abbreviation (input) SOCK_FILTER_SIZE :: nat where "SOCK_FILTER_SIZE \<equiv> 8"

type_synonym user_read = "usize \<Rightarrow> nat \<Rightarrow> kerror + u8 list"

definition read_sock_fprog :: "user_read \<Rightarrow> usize \<Rightarrow> kerror + (nat \<times> usize)" where
  "read_sock_fprog rd args =
     (case rd args SOCK_FPROG_SIZE of
        Inl e \<Rightarrow> Inl e
      | Inr bytes \<Rightarrow> Inr (unat (from_le_bytes (take 2 bytes) :: u16),
                         from_le_bytes (drop 8 bytes)))"

definition decode_insn :: "u8 list \<Rightarrow> sock_filter" where
  "decode_insn bytes = \<lparr>sf_code = from_le_bytes (take 2 bytes), sf_jt = bytes ! 2, sf_jf = bytes ! 3,
     sf_k = from_le_bytes (take 4 (drop 4 bytes))\<rparr>"

text \<open>The loop of \<open>read_instructions\<close>, from \<open>index\<close> for \<open>n\<close> more instructions.\<close>

fun read_instructions :: "user_read \<Rightarrow> usize \<Rightarrow> nat \<Rightarrow> nat \<Rightarrow> kerror + sock_filter list" where
  "read_instructions rd base index 0 = Inr []"
| "read_instructions rd base index (Suc n) =
     (if index * SOCK_FILTER_SIZE \<ge> 2 ^ 64 then Inl (kerror_new_ax InvalidInput)
      else case checked_add base (of_nat (index * SOCK_FILTER_SIZE)) of
        None \<Rightarrow> Inl (kerror_new_ax InvalidInput)
      | Some offset \<Rightarrow>
          (case rd offset SOCK_FILTER_SIZE of
             Inl e \<Rightarrow> Inl e
           | Inr bytes \<Rightarrow>
               (case read_instructions rd base (Suc index) n of
                  Inl e \<Rightarrow> Inl e
                | Inr insns \<Rightarrow> Inr (decode_insn bytes # insns))))"

definition require_install_privilege :: "thread \<Rightarrow> kerror + unit" where
  "require_install_privilege t =
     (if th_no_new_privs t \<or> th_privileged t then Inr () else Inl (kerror_new_linux EACCES))"

definition first_unsyncable_sibling :: "thread \<Rightarrow> thread list \<Rightarrow> u32 option" where
  "first_unsyncable_sibling caller tasks =
     map_option th_tid
       (find (\<lambda>t. th_tid t \<noteq> th_tid caller
          \<and> \<not> is_syncable_with (th_seccomp t) (th_seccomp caller)) tasks)"

definition sync_sibling :: "thread \<Rightarrow> thread \<Rightarrow> thread" where
  "sync_sibling caller t =
     (if th_tid t = th_tid caller then t
      else t\<lparr>th_seccomp := fst (sync_from (th_seccomp t) (th_seccomp caller)),
             th_no_new_privs := (th_no_new_privs t \<or> th_no_new_privs caller)\<rparr>)"

definition sync_to_thread_group :: "thread \<Rightarrow> thread list \<Rightarrow> thread list" where
  "sync_to_thread_group caller tasks = map (sync_sibling caller) tasks"

definition sys_set_strict ::
  "u32 list \<Rightarrow> nat \<Rightarrow> u32 \<Rightarrow> thread_group \<Rightarrow> thread_group \<times> (kerror + int)" where
  "sys_set_strict nrs i flags g =
     (let t = tg_threads g ! i in
      if flags \<noteq> 0 then (g, Inl (kerror_new_ax InvalidInput))
      else case ctx_set_strict nrs (tg_next_arc g) (th_seccomp t) of
        Inl e \<Rightarrow> (g, Inl e)
      | Inr st \<Rightarrow> (\<lparr>tg_threads = (tg_threads g)[i := t\<lparr>th_seccomp := st\<rparr>],
                    tg_next_arc = Suc (tg_next_arc g)\<rparr>, Inr 0))"

text \<open>The part of \<open>set_filter\<close> after the program has been read and validated.\<close>

definition install_filter ::
  "nat \<Rightarrow> u32 \<Rightarrow> sock_filter list \<Rightarrow> thread_group \<Rightarrow> thread_group \<times> (kerror + int)" where
  "install_filter i flags prog g =
     (let t = tg_threads g ! i in
      case (if flags AND FLAG_TSYNC \<noteq> 0 then first_unsyncable_sibling t (tg_threads g) else None) of
        Some blocking_tid \<Rightarrow>
          (g, if flags AND FLAG_TSYNC_ESRCH \<noteq> 0 then Inl (kerror_new_linux ESRCH)
              else Inr (uint blocking_tid))
      | None \<Rightarrow>
          (case append_filter (tg_next_arc g, prog) (th_seccomp t) of
             Inl e \<Rightarrow> (g, Inl e)
           | Inr st \<Rightarrow>
               (let t' = t\<lparr>th_seccomp := st\<rparr>; tasks = (tg_threads g)[i := t'] in
                (\<lparr>tg_threads = (if flags AND FLAG_TSYNC \<noteq> 0 then sync_to_thread_group t' tasks else tasks),
                  tg_next_arc = Suc (tg_next_arc g)\<rparr>, Inr 0))))"

definition sys_set_filter ::
  "user_read \<Rightarrow> nat \<Rightarrow> u32 \<Rightarrow> usize \<Rightarrow> thread_group \<Rightarrow> thread_group \<times> (kerror + int)" where
  "sys_set_filter rd i flags args g =
     (if flags AND NOT SECCOMP_ALLOWED_FLAGS \<noteq> 0 then (g, Inl (kerror_new_ax InvalidInput))
      else case require_install_privilege (tg_threads g ! i) of
        Inl e \<Rightarrow> (g, Inl e)
      | Inr _ \<Rightarrow>
        (if args = 0 then (g, Inl (kerror_new_ax InvalidInput))
         else case read_sock_fprog rd args of
           Inl e \<Rightarrow> (g, Inl e)
         | Inr (len, filter_ptr) \<Rightarrow>
           (if len > BPF_MAXINSNS then (g, Inl (kerror_new_ax InvalidInput))
            else case read_instructions rd filter_ptr 0 len of
              Inl e \<Rightarrow> (g, Inl e)
            | Inr insns \<Rightarrow>
              (case seccomp_filter_new insns of
                 Inl _ \<Rightarrow> (g, Inl (kerror_new_ax InvalidInput))
               | Inr prog \<Rightarrow> install_filter i flags prog g))))"

definition get_action_avail :: "user_read \<Rightarrow> u32 \<Rightarrow> usize \<Rightarrow> kerror + int" where
  "get_action_avail rd flags args =
     (if flags \<noteq> 0 \<or> args = 0 then Inl (kerror_new_ax InvalidInput)
      else case rd args 4 of
        Inl e \<Rightarrow> Inl e
      | Inr bytes \<Rightarrow>
        (let act = (from_le_bytes bytes :: u32) in
         if act = SECCOMP_RET_ALLOW \<or> act = SECCOMP_RET_KILL_THREAD \<or> act = SECCOMP_RET_KILL_PROCESS
           \<or> act = SECCOMP_RET_TRAP \<or> act = SECCOMP_RET_ERRNO \<or> act = SECCOMP_RET_LOG then Inr 0
         else if act = SECCOMP_RET_TRACE \<or> act = SECCOMP_RET_USER_NOTIF
         then Inl (kerror_new_linux ENOSYS)
         else Inl (kerror_new_ax InvalidInput)))"

definition sys_seccomp ::
  "user_read \<Rightarrow> u32 list \<Rightarrow> nat \<Rightarrow> u32 \<Rightarrow> u32 \<Rightarrow> usize \<Rightarrow> thread_group
     \<Rightarrow> thread_group \<times> (kerror + int)" where
  "sys_seccomp rd nrs i sysop flags args g =
     (if sysop = SECCOMP_SET_MODE_STRICT then sys_set_strict nrs i flags g
      else if sysop = SECCOMP_SET_MODE_FILTER then sys_set_filter rd i flags args g
      else if sysop = SECCOMP_GET_ACTION_AVAIL then (g, get_action_avail rd flags args)
      else if sysop = SECCOMP_GET_NOTIF_SIZES then (g, Inl (kerror_new_linux ENOSYS))
      else (g, Inl (kerror_new_ax InvalidInput)))"

text \<open>
  The seccomp part of \<open>prepare_thread_clone_with_files\<close>: the sibling gets the caller's
  no-new-privileges bit and credentials, and inherits its seccomp state.
\<close>

definition clone_thread :: "u32 \<Rightarrow> nat \<Rightarrow> thread_group \<Rightarrow> thread_group" where
  "clone_thread tid i g =
     (let t = tg_threads g ! i in
      g\<lparr>tg_threads := tg_threads g @
          [\<lparr>th_tid = tid, th_no_new_privs = th_no_new_privs t, th_privileged = th_privileged t,
            th_seccomp = inherit_from seccomp_context_new (th_seccomp t)\<rparr>]\<rparr>)"

section \<open>Chains of filters over an interpreter\<close>

text \<open>
  What chain evaluation needs of the interpreter: programs it accepts run to a result.
\<close>

locale filter_engine =
  fixes run :: "'f \<Rightarrow> 'd \<Rightarrow> u32 option"
    and accepts :: "'f \<Rightarrow> bool"
  assumes run_total: "accepts f \<Longrightarrow> \<exists>r. run f d = Some r"
begin

lemma chain_total:
  assumes "list_all accepts fs"
  shows "\<exists>dec. chain_decision run fs d = Some dec"
proof -
  have "\<exists>acts. those (map (\<lambda>f. map_option action_from_ret (run f d)) fs) = Some acts"
    using assms
  proof (induction fs)
    case (Cons f fs)
    then show ?case using run_total [of f d] by auto
  qed simp
  then show ?thesis by (auto simp: chain_decision_def)
qed

lemma chain_Some:
  "chain_decision run fs d = Some dec \<longleftrightarrow>
     (\<exists>rets. map (\<lambda>f. run f d) fs = map Some rets \<and> dec = highest_priority (map action_from_ret rets))"
proof -
  have "those (map (\<lambda>f. map_option action_from_ret (run f d)) fs) = Some acts \<longleftrightarrow>
      (\<exists>rets. map (\<lambda>f. run f d) fs = map Some rets \<and> acts = map action_from_ret rets)" for acts
  proof (induction fs arbitrary: acts)
    case (Cons f fs)
    show ?case
      by (cases acts; cases "run f d") (auto simp: Cons map_eq_Cons_conv Cons_eq_map_conv split: option.splits)
  qed auto
  then show ?thesis by (auto simp: chain_decision_def)
qed

lemma chain_append_restricts:
  assumes "chain_decision run (fs @ gs) d = Some dec'"
  shows "\<exists>dec. chain_decision run fs d = Some dec \<and> decision_rank dec' \<le> decision_rank dec"
proof -
  from assms obtain rets where rets: "map (\<lambda>f. run f d) (fs @ gs) = map Some rets"
      "dec' = highest_priority (map action_from_ret rets)"
    unfolding chain_Some by blast
  then obtain rs qs where "rets = rs @ qs" "map (\<lambda>f. run f d) fs = map Some rs"
    by (auto simp: append_eq_map_conv)
  then show ?thesis
    using rets highest_priority_antimono [of "map action_from_ret rs" "map action_from_ret rets"]
    unfolding chain_Some by auto
qed

lemma chain_allow:
  "chain_decision run fs d = Some DecAllow \<longleftrightarrow>
     (\<forall>f \<in> set fs. \<exists>r. run f d = Some r \<and> (action_from_ret r = ActAllow \<or> action_from_ret r = ActLog))"
  (is "_ \<longleftrightarrow> ?all")
proof
  assume "chain_decision run fs d = Some DecAllow"
  then obtain rets where rets: "map (\<lambda>f. run f d) fs = map Some rets"
      "highest_priority (map action_from_ret rets) = DecAllow"
    unfolding chain_Some by metis
  have "run f d \<in> set (map Some rets)" if "f \<in> set fs" for f
    using that rets(1) [symmetric] by simp
  then show ?all using rets(2) by (fastforce simp: highest_priority_all_allow)
next
  assume ?all
  then have "map (\<lambda>f. run f d) fs = map Some (map (\<lambda>f. the (run f d)) fs)"
    and "highest_priority (map action_from_ret (map (\<lambda>f. the (run f d)) fs)) = DecAllow"
    by (auto simp: highest_priority_all_allow)
  then show "chain_decision run fs d = Some DecAllow"
    unfolding chain_Some by metis
qed

end

text \<open>The interpreter of \<open>kseccomp\<close> is such an engine on programs without a zero-offset jump.\<close>

abbreviation (input) run_arc :: "filter_arc \<Rightarrow> u8 list \<Rightarrow> u32 option" where
  "run_arc \<equiv> (\<lambda>f. bpf_run (arc_insns f))"

abbreviation (input) no_ja_zero :: "filter_arc \<Rightarrow> bool" where
  "no_ja_zero \<equiv> (\<lambda>f. list_all (\<lambda>insn. \<not> ja_zero insn) (arc_insns f))"

interpretation cbpf: filter_engine run_arc no_ja_zero
  by unfold_locales (auto simp: bpf_run_def intro: bpf_loop_terminates)

section \<open>Invariant of a thread group\<close>

abbreviation (input) arcs_of :: "seccomp_state list \<Rightarrow> filter_arc set" where
  "arcs_of sts \<equiv> (\<Union>st \<in> set sts. set (ss_filters st))"

text \<open>
  Mode and chain agree, the chain stays within the instruction budget, and every program in it
  passed validation.
\<close>

definition state_ok :: "seccomp_state \<Rightarrow> bool" where
  "state_ok st \<longleftrightarrow> (ss_mode st = ModeDisabled \<longleftrightarrow> ss_filters st = [])
     \<and> chain_cost (ss_filters st) \<le> MAX_INSNS_PER_PATH
     \<and> (\<forall>f \<in> set (ss_filters st). seccomp_filter_new (arc_insns f) = Inr (arc_insns f))"

text \<open>Identities name programs: equal identities in the group are one program.\<close>

definition states_ok :: "seccomp_state list \<Rightarrow> nat \<Rightarrow> bool" where
  "states_ok sts n \<longleftrightarrow> list_all state_ok sts \<and> (\<forall>f \<in> arcs_of sts. arc_id f < n)
     \<and> inj_on arc_id (arcs_of sts)"

definition group_ok :: "thread_group \<Rightarrow> bool" where
  "group_ok g \<longleftrightarrow> states_ok (map th_seccomp (tg_threads g)) (tg_next_arc g)"

inductive group_step :: "user_read \<Rightarrow> u32 list \<Rightarrow> thread_group \<Rightarrow> thread_group \<Rightarrow> bool"
  for rd nrs where
  call: "i < length (tg_threads g) \<Longrightarrow>
    group_step rd nrs g (fst (sys_seccomp rd nrs i sysop flags args g))"
| clone: "i < length (tg_threads g) \<Longrightarrow> group_step rd nrs g (clone_thread tid i g)"
| other: "map th_seccomp ts = map th_seccomp (tg_threads g) \<Longrightarrow>
    group_step rd nrs g (g\<lparr>tg_threads := ts\<rparr>)"
| exit: "set ts \<subseteq> set (tg_threads g) \<Longrightarrow> group_step rd nrs g (g\<lparr>tg_threads := ts\<rparr>)"

lemma arc_prefix_same:
  assumes "arc_is_prefix mine theirs" "inj_on arc_id A" "set mine \<subseteq> A" "set theirs \<subseteq> A"
  shows "\<exists>more. theirs = mine @ more"
proof -
  have "mine ! i = theirs ! i" if "i < length mine" for i
    using assms that unfolding arc_is_prefix_def list_all_length
    by (auto dest!: spec [of _ i] intro!: inj_onD [OF assms(2)])
  moreover have "length mine \<le> length theirs" using assms(1) by (simp add: arc_is_prefix_def)
  ultimately have "take (length mine) theirs = mine" by (simp add: list_eq_iff_nth_eq)
  then show ?thesis by (metis append_take_drop_id)
qed

text \<open>One chain extends another.\<close>

abbreviation (input) extends :: "seccomp_state \<Rightarrow> seccomp_state \<Rightarrow> bool" where
  "extends st' st \<equiv> (\<exists>more. ss_filters st' = ss_filters st @ more)"

lemma can_adopt_extends:
  assumes "can_adopt st chain" "inj_on arc_id A" "set (ss_filters st) \<subseteq> A" "set chain \<subseteq> A"
    and "state_ok st"
  shows "\<exists>more. chain = ss_filters st @ more"
  using assms arc_prefix_same [of "ss_filters st" chain A]
  by (cases "ss_mode st") (auto simp: can_adopt_def state_ok_def)


lemma strict_allowlist_valid:
  assumes "strict_allowlist nrs = Inr prog"
  shows "seccomp_filter_new prog = Inr prog" "length prog = length nrs + 3" "length nrs \<le> 255"
proof -
  show le: "length nrs \<le> 255" using assms by (auto simp: strict_allowlist_def split: if_splits)
  have prog: "prog = projr (strict_allowlist nrs)" using assms by simp
  note nth = strict_program_nth [OF le, folded prog]
  show len: "length prog = length nrs + 3" by (rule nth(1))
  have "insn_ok (length prog) i (prog ! i)" if lt: "i < length prog" for i
  proof -
    have "i < Suc (Suc (Suc (length nrs)))" using lt len by simp
    then consider "i = 0" | j where "i = Suc j" "j < length nrs" | "i = Suc (length nrs)"
      | "i = Suc (Suc (length nrs))"
      by (cases i) (auto simp: less_Suc_eq)
    then show ?thesis
    proof cases
      case 2
      then have "unat (of_nat (length nrs - j) :: u8) = length nrs - j"
        using le by (simp add: unsigned_of_nat take_bit_nat_eq_self del: of_nat_diff)
      with 2 nth(3) [of j] show ?thesis
        by (simp add: insn_ok_def mk_insn_def len del: of_nat_diff)
    qed (use nth(2,4,5) in \<open>simp_all add: insn_ok_def mk_insn_def\<close>)
  qed
  then show "seccomp_filter_new prog = Inr prog"
    using len le by (auto simp: seccomp_filter_new_Inr)
qed

lemma states_ok_subset:
  assumes "states_ok sts n" "list_all state_ok sts'" "arcs_of sts' \<subseteq> arcs_of sts" "n \<le> n'"
  shows "states_ok sts' n'"
  using assms inj_on_subset [of arc_id "arcs_of sts" "arcs_of sts'"]
  unfolding states_ok_def by fastforce

lemma states_ok_fresh:
  assumes "states_ok sts n" "list_all state_ok sts'" "arcs_of sts' \<subseteq> insert (n, p) (arcs_of sts)"
  shows "states_ok sts' (Suc n)"
proof -
  have "inj_on arc_id (insert (n, p) (arcs_of sts))" "\<forall>f \<in> insert (n, p) (arcs_of sts). arc_id f < Suc n"
    using assms(1) by (fastforce simp: states_ok_def inj_on_def)+
  then show ?thesis
    using assms(2,3) unfolding states_ok_def by (meson inj_on_subset subsetD)
qed

lemma state_ok_strict:
  assumes "ctx_set_strict nrs n st = Inr st'" "state_ok st"
  shows "state_ok st'" "extends st' st" "set (ss_filters st') \<subseteq> insert (n, projr (strict_allowlist nrs)) (set (ss_filters st))"
  using assms strict_allowlist_valid [of nrs]
  by (auto simp: ctx_set_strict_def state_ok_def chain_cost_def
      split: seccomp_mode.splits sum.splits)

lemma state_ok_append:
  assumes "append_filter f st = Inr st'" "state_ok st" "seccomp_filter_new (arc_insns f) = Inr (arc_insns f)"
  shows "state_ok st'" "ss_filters st' = ss_filters st @ [f]"
  using assms by (auto simp: append_filter_def state_ok_def chain_cost_def split: if_splits)

lemma seccomp_filter_new_valid:
  "seccomp_filter_new insns = Inr prog \<Longrightarrow> seccomp_filter_new prog = Inr prog"
  by (simp add: seccomp_filter_new_Inr)

lemma sync_from_ok:
  assumes "states_ok sts n" "st \<in> set sts" "caller \<in> set sts"
    and "ss_filters caller' = ss_filters caller @ added" "state_ok caller'" "added \<noteq> []"
    and "inj_on arc_id (set added \<union> arcs_of sts)"
  shows "state_ok (fst (sync_from st caller'))"
    and "extends (fst (sync_from st caller')) st"
    and "set (ss_filters (fst (sync_from st caller'))) \<subseteq> set added \<union> arcs_of sts"
proof -
  have st: "state_ok st" using assms(1,2) by (auto simp: states_ok_def list_all_iff)
  show "state_ok (fst (sync_from st caller'))"
    using st assms(4,5,6)
    by (cases "ss_mode st") (auto simp: sync_from_def can_adopt_def state_ok_def arc_is_prefix_def)
  show "extends (fst (sync_from st caller')) st"
    using can_adopt_extends [OF _ assms(7) _ _ st, of "ss_filters caller'"] assms(2,3,4)
    by (auto simp: sync_from_def)
  show "set (ss_filters (fst (sync_from st caller'))) \<subseteq> set added \<union> arcs_of sts"
    using assms(2,3,4) by (auto simp: sync_from_def)
qed

text \<open>The group stays well formed and no thread loses a filter.\<close>

abbreviation (input) seccomps :: "thread_group \<Rightarrow> seccomp_state list" where
  "seccomps g \<equiv> map th_seccomp (tg_threads g)"

definition group_tightens :: "thread_group \<Rightarrow> thread_group \<Rightarrow> bool" where
  "group_tightens g g' \<longleftrightarrow> group_ok g' \<and> list_all2 (\<lambda>st st'. extends st' st) (seccomps g) (seccomps g')"

lemma group_tightens_refl: "group_ok g \<Longrightarrow> group_tightens g g"
  by (auto simp: group_tightens_def intro: list_all2_refl)


lemma extends_update:
  "\<lbrakk>i < length sts; extends st (sts ! i)\<rbrakk> \<Longrightarrow> list_all2 (\<lambda>st st'. extends st' st) sts (sts[i := st])"
  by (auto simp: list_all2_conv_all_nth nth_list_update)

lemma state_ok_update:
  "\<lbrakk>list_all state_ok sts; state_ok st\<rbrakk> \<Longrightarrow> list_all state_ok (sts[i := st])"
  using set_update_subset_insert [of sts i st] by (auto simp: list_all_iff)

lemma arcs_update:
  "\<lbrakk>i < length sts; set (ss_filters st) \<subseteq> insert f (set (ss_filters (sts ! i)))\<rbrakk>
    \<Longrightarrow> arcs_of (sts[i := st]) \<subseteq> insert f (arcs_of sts)"
  using set_update_subset_insert [of sts i st] by fastforce

lemma states_ok_update:
  assumes "states_ok sts n" "i < length sts" "state_ok st"
    and "set (ss_filters st) \<subseteq> insert (n, p) (set (ss_filters (sts ! i)))"
  shows "states_ok (sts[i := st]) (Suc n)"
  using states_ok_fresh [OF assms(1) state_ok_update [OF _ assms(3)] arcs_update [OF assms(2,4)]] assms(1)
  by (simp add: states_ok_def)

lemma group_ok_nth: "\<lbrakk>group_ok g; i < length (tg_threads g)\<rbrakk> \<Longrightarrow> state_ok (th_seccomp (tg_threads g ! i))"
  by (auto simp: group_ok_def states_ok_def list_all_length)

lemma sys_set_strict_tightens:
  assumes "group_ok g" "i < length (tg_threads g)"
  shows "group_tightens g (fst (sys_set_strict nrs i flags g))"
proof (cases "ctx_set_strict nrs (tg_next_arc g) (th_seccomp (tg_threads g ! i))")
  case (Inl e)
  then show ?thesis using group_tightens_refl [OF assms(1)] by (simp add: sys_set_strict_def Let_def)
next
  case (Inr st)
  note new = state_ok_strict [OF Inr group_ok_nth [OF assms]]
  have "states_ok ((seccomps g)[i := st]) (Suc (tg_next_arc g))"
    using states_ok_update [OF assms(1) [unfolded group_ok_def], of i st] assms(2) new(1,3) by simp
  moreover have "list_all2 (\<lambda>st st'. extends st' st) (seccomps g) ((seccomps g)[i := st])"
    using assms(2) new(2) by (intro extends_update) auto
  ultimately show ?thesis using group_tightens_refl [OF assms(1)] Inr
    by (simp add: sys_set_strict_def Let_def group_tightens_def group_ok_def map_update)
qed

lemma sync_group_states:
  assumes "states_ok sts n" "caller \<in> set sts" "ss_filters caller' = ss_filters caller @ [(n, p)]"
    and "state_ok caller'" "list_all2 (\<lambda>st st'. st' = st \<or> st' = caller' \<and> extends caller' st
      \<or> st' = fst (sync_from st caller')) sts sts'"
  shows "states_ok sts' (Suc n)" "list_all2 (\<lambda>st st'. extends st' st) sts sts'"
proof -
  have inj: "inj_on arc_id (set [(n, p)] \<union> arcs_of sts)"
    using assms(1) by (fastforce simp: states_ok_def inj_on_def)
  have each: "state_ok st' \<and> extends st' st \<and> set (ss_filters st') \<subseteq> insert (n, p) (arcs_of sts)"
    if "st \<in> set sts" and step: "st' = st \<or> st' = caller' \<and> extends caller' st
      \<or> st' = fst (sync_from st caller')" for st st'
    using step
  proof (elim disjE conjE)
    assume "st' = st"
    then show ?thesis using that(1) assms(1) by (auto simp: states_ok_def list_all_iff)
  next
    assume "st' = caller'" "extends caller' st"
    then show ?thesis using assms(2,3,4) by auto
  next
    assume "st' = fst (sync_from st caller')"
    then show ?thesis
      using sync_from_ok [OF assms(1) that(1) assms(2,3,4) _ inj] by auto
  qed
  have all: "list_all2 (\<lambda>st st'. state_ok st' \<and> extends st' st
      \<and> set (ss_filters st') \<subseteq> insert (n, p) (arcs_of sts)) sts sts'"
    by (rule list.rel_mono_strong [OF assms(5)]) (rule each)
  then show "list_all2 (\<lambda>st st'. extends st' st) sts sts'"
    by (rule list_all2_mono) blast
  show "states_ok sts' (Suc n)"
  proof (rule states_ok_fresh [OF assms(1)])
    show "list_all state_ok sts'"
      using all by (simp add: list_all2_conv_all_nth list_all_length)
    have "list_all (\<lambda>st'. set (ss_filters st') \<subseteq> insert (n, p) (arcs_of sts)) sts'"
      using all unfolding list_all2_conv_all_nth list_all_length by metis
    then show "arcs_of sts' \<subseteq> insert (n, p) (arcs_of sts)"
      by (simp only: list_all_iff UN_subset_iff)
  qed
qed

abbreviation (input) tsync_blocked :: "u32 \<Rightarrow> nat \<Rightarrow> thread_group \<Rightarrow> u32 option" where
  "tsync_blocked flags i g \<equiv> (if flags AND FLAG_TSYNC \<noteq> 0
     then first_unsyncable_sibling (tg_threads g ! i) (tg_threads g) else None)"

lemma install_filter_blocked:
  "tsync_blocked flags i g = Some tid \<Longrightarrow> fst (install_filter i flags prog g) = g"
  unfolding install_filter_def Let_def by simp

lemma install_filter_refused:
  "append_filter (tg_next_arc g, prog) (th_seccomp (tg_threads g ! i)) = Inl e
    \<Longrightarrow> fst (install_filter i flags prog g) = g"
  unfolding install_filter_def Let_def by (simp split: option.split)

lemma install_filter_done:
  assumes "tsync_blocked flags i g = None"
    and "append_filter (tg_next_arc g, prog) (th_seccomp (tg_threads g ! i)) = Inr st"
    and "t' = (tg_threads g ! i)\<lparr>th_seccomp := st\<rparr>"
  shows "install_filter i flags prog g =
    (\<lparr>tg_threads = (if flags AND FLAG_TSYNC \<noteq> 0
        then map (sync_sibling t') ((tg_threads g)[i := t']) else (tg_threads g)[i := t']),
      tg_next_arc = Suc (tg_next_arc g)\<rparr>, Inr 0)"
  using assms(1) unfolding install_filter_def Let_def assms(2) sync_to_thread_group_def assms(3)
  by (simp only: option.case sum.case)

lemma install_filter_tightens:
  assumes "group_ok g" "i < length (tg_threads g)" "seccomp_filter_new prog = Inr prog"
  shows "group_tightens g (fst (install_filter i flags prog g))"
proof -
  let ?g = "fst (install_filter i flags prog g)" and ?t = "tg_threads g ! i"
  consider "?g = g" | st where "append_filter (tg_next_arc g, prog) (th_seccomp ?t) = Inr st"
    "tg_next_arc ?g = Suc (tg_next_arc g)"
    "tg_threads ?g = (tg_threads g)[i := ?t\<lparr>th_seccomp := st\<rparr>]
      \<or> tg_threads ?g = map (sync_sibling (?t\<lparr>th_seccomp := st\<rparr>)) ((tg_threads g)[i := ?t\<lparr>th_seccomp := st\<rparr>])"
  proof (cases "tsync_blocked flags i g")
    case None
    then show thesis
      using that install_filter_refused [of g prog i] install_filter_done [OF None _ refl]
      by (cases "append_filter (tg_next_arc g, prog) (th_seccomp ?t)") auto
  qed (use that install_filter_blocked in blast)
  then show ?thesis
  proof cases
    case 1
    then show ?thesis using group_tightens_refl [OF assms(1)] by simp
  next
    case 2
    have new: "state_ok st" "ss_filters st = ss_filters (th_seccomp ?t) @ [(tg_next_arc g, prog)]"
      using state_ok_append [OF 2(1) group_ok_nth [OF assms(1,2)]] assms(3) by simp_all
    have "list_all2 (\<lambda>s s'. s' = s \<or> s' = st \<and> extends st s \<or> s' = fst (sync_from s st))
        (seccomps g) (seccomps ?g)"
      using 2(3) assms(2) new(2) unfolding list_all2_conv_all_nth
      by (auto simp: nth_list_update sync_sibling_def split: if_splits)
    then show ?thesis
      using sync_group_states [of "seccomps g" "tg_next_arc g" "th_seccomp ?t" st prog "seccomps ?g"]
        assms(1,2) new 2(2) by (simp add: group_tightens_def group_ok_def)
  qed
qed

lemma sys_seccomp_tightens:
  assumes "group_ok g" "i < length (tg_threads g)"
  shows "group_tightens g (fst (sys_seccomp rd nrs i sysop flags args g))"
  using assms group_tightens_refl [OF assms(1)] sys_set_strict_tightens [OF assms]
    install_filter_tightens [OF assms]
  by (auto simp: sys_seccomp_def sys_set_filter_def
      split: sum.splits prod.splits dest: seccomp_filter_new_valid)

section \<open>Correctness of the seccomp call\<close>

text \<open>
  C22. Evaluating a thread's chain allows a system call exactly when every installed filter ran
  to a result that allows it or asks to log it.
\<close>

theorem evaluate_allow:
  "evaluate st data = Some DecAllow \<longleftrightarrow>
     (\<forall>f \<in> set (ss_filters st). \<exists>r. bpf_run (arc_insns f) data = Some r
        \<and> (action_from_ret r = ActAllow \<or> action_from_ret r = ActLog))"
  unfolding evaluate_def by (rule cbpf.chain_allow)

lemma bpf_run_ret: "bpf_run [mk_insn 0x06 0 0 k] data = Some k"
  by (simp add: bpf_run_def bpf_loop_ret)

theorem evaluate_allow_witness:
  "evaluate \<lparr>ss_mode = ModeFilter, ss_filters = [(0, [mk_insn 0x06 0 0 SECCOMP_RET_LOG])]\<rparr> [] = Some DecAllow"
  by (subst evaluate_allow) (simp add: bpf_run_ret action_from_ret_def)



abbreviation (input) one_thread :: thread_group where
  "one_thread \<equiv> \<lparr>tg_threads = [\<lparr>th_tid = 1, th_no_new_privs = False, th_privileged = False,
     th_seccomp = seccomp_context_new\<rparr>], tg_next_arc = 0\<rparr>"



text \<open>
  C10. From a process with one fresh thread, after any sequence of \<open>seccomp(2)\<close> calls by any of its
  threads, thread clones, thread exits and changes of other thread attributes: mode and chain of
  every thread agree, every chain is within the instruction budget of the path, every installed
  program passed validation, and filter identities are unique.
\<close>

theorem group_reachable_ok:
  assumes "(group_step rd nrs)\<^sup>*\<^sup>* \<lparr>tg_threads = [t], tg_next_arc = n\<rparr> g"
    and "th_seccomp t = seccomp_context_new"
  shows "group_ok g"
  using assms(1)
proof (induction rule: rtranclp_induct)
  case base
  show ?case
    using assms(2)
    by (simp add: group_ok_def states_ok_def state_ok_def seccomp_context_new_def chain_cost_def)
next
  case (step g h)
  from step(2) show ?case
  proof (cases rule: group_step.cases)
    case (call i sysop flags args)
    then show ?thesis using sys_seccomp_tightens [OF step(3)] by (auto simp: group_tightens_def)
  next
    case (clone i tid)
    then have i: "i < length (tg_threads g)" and h: "h = clone_thread tid i g" by simp_all
    have "list_all state_ok (seccomps h)" "arcs_of (seccomps h) \<subseteq> arcs_of (seccomps g)"
      using step(3) h group_ok_nth [OF step(3) i] nth_mem [OF i]
      by (auto simp: clone_thread_def Let_def inherit_from_def seccomp_context_new_def
          group_ok_def states_ok_def list_all_iff state_ok_def)
    then show ?thesis
      using step(3) states_ok_subset [of "seccomps g" "tg_next_arc g" "seccomps h"]
      by (simp add: group_ok_def h clone_thread_def Let_def)
  next
    case (other ts)
    then show ?thesis using step(3) by (simp add: group_ok_def)
  next
    case (exit ts)
    then have "list_all state_ok (seccomps h)" "arcs_of (seccomps h) \<subseteq> arcs_of (seccomps g)"
        "tg_next_arc h = tg_next_arc g"
      using step(3) by (auto simp: group_ok_def states_ok_def list_all_iff)
    then show ?thesis
      using step(3) states_ok_subset [of "seccomps g" "tg_next_arc g" "seccomps h"]
      by (simp add: group_ok_def)
  qed
qed

theorem group_reachable_ok_witness:
  "group_ok (clone_thread 2 0 one_thread)"
proof (rule group_reachable_ok)
  show "(group_step (\<lambda>_ _. Inr []) [])\<^sup>*\<^sup>* one_thread (clone_thread 2 0 one_thread)"
    by (rule r_into_rtranclp, rule group_step.clone) simp
qed simp





end
