(* ===== verification/Ebpf.thy ===== *)
theory Ebpf
  imports Prelude
begin

text \<open>
  The eBPF interpreter of \<open>src/core/kbpf/src\<close>: instruction slots (\<open>insn.rs\<close>), errors
  (\<open>error.rs\<close>), the return value of \<open>bpf_trace_printk\<close> (\<open>helpers.rs\<close>, its log output is left
  out) and the virtual machine (\<open>vm.rs\<close>). The address at which the VM's stack array lives is a
  field of the model, since the code takes it from the object itself; host helpers are functions
  on the five argument registers.
\<close>

unbundle bit_operations_syntax

section \<open>Instructions and errors\<close>

record insn =
  opc :: u8
  dst :: u8
  src :: u8
  off :: u16
  imm :: u32

datatype vm_error =
    UnalignedProgram
  | UnknownOpcode u8
  | InvalidRegister u8
  | JumpOutOfBounds
  | InstructionLimitExceeded
  | EndOfProgram
  | IncompleteWideImmediate
  | MemoryOutOfBounds
  | UnknownHelper u32
  | HelperTableFull

abbreviation (input) SLOT_SIZE :: nat where "SLOT_SIZE \<equiv> 8"
abbreviation (input) NUM_REGS :: nat where "NUM_REGS \<equiv> 11"
abbreviation (input) STACK_SIZE :: nat where "STACK_SIZE \<equiv> 512"
abbreviation (input) DEFAULT_INSTRUCTION_LIMIT :: nat where "DEFAULT_INSTRUCTION_LIMIT \<equiv> 1000000"
abbreviation (input) HELPER_TABLE_CAPACITY :: nat where "HELPER_TABLE_CAPACITY \<equiv> 32"
abbreviation (input) BPF_FUNC_TRACE_PRINTK :: u32 where "BPF_FUNC_TRACE_PRINTK \<equiv> 6"

abbreviation (input) OP_LD_DW_IMM :: u8 where "OP_LD_DW_IMM \<equiv> 0x18"
abbreviation (input) BPF_PSEUDO_MAP_VALUE :: u8 where "BPF_PSEUDO_MAP_VALUE \<equiv> 2"
abbreviation (input) OP_LDX_MEM_B :: u8 where "OP_LDX_MEM_B \<equiv> 0x71"
abbreviation (input) OP_LDX_MEM_H :: u8 where "OP_LDX_MEM_H \<equiv> 0x69"
abbreviation (input) OP_LDX_MEM_W :: u8 where "OP_LDX_MEM_W \<equiv> 0x61"
abbreviation (input) OP_LDX_MEM_DW :: u8 where "OP_LDX_MEM_DW \<equiv> 0x79"
abbreviation (input) OP_ST_MEM_B :: u8 where "OP_ST_MEM_B \<equiv> 0x72"
abbreviation (input) OP_ST_MEM_H :: u8 where "OP_ST_MEM_H \<equiv> 0x6a"
abbreviation (input) OP_ST_MEM_W :: u8 where "OP_ST_MEM_W \<equiv> 0x62"
abbreviation (input) OP_ST_MEM_DW :: u8 where "OP_ST_MEM_DW \<equiv> 0x7a"
abbreviation (input) OP_STX_MEM_B :: u8 where "OP_STX_MEM_B \<equiv> 0x73"
abbreviation (input) OP_STX_MEM_H :: u8 where "OP_STX_MEM_H \<equiv> 0x6b"
abbreviation (input) OP_STX_MEM_W :: u8 where "OP_STX_MEM_W \<equiv> 0x63"
abbreviation (input) OP_STX_MEM_DW :: u8 where "OP_STX_MEM_DW \<equiv> 0x7b"
abbreviation (input) OP_ADD64_IMM :: u8 where "OP_ADD64_IMM \<equiv> 0x07"
abbreviation (input) OP_ADD64_REG :: u8 where "OP_ADD64_REG \<equiv> 0x0f"
abbreviation (input) OP_MOV64_IMM :: u8 where "OP_MOV64_IMM \<equiv> 0xb7"
abbreviation (input) OP_MOV64_REG :: u8 where "OP_MOV64_REG \<equiv> 0xbf"
abbreviation (input) OP_JA :: u8 where "OP_JA \<equiv> 0x05"
abbreviation (input) OP_JEQ_IMM :: u8 where "OP_JEQ_IMM \<equiv> 0x15"
abbreviation (input) OP_CALL :: u8 where "OP_CALL \<equiv> 0x85"
abbreviation (input) OP_EXIT :: u8 where "OP_EXIT \<equiv> 0x95"

definition insn_from_bytes :: "u8 list \<Rightarrow> insn" where
  "insn_from_bytes bytes =
     (let regs = bytes ! 1 in
      \<lparr>opc = bytes ! 0, dst = regs AND 0x0F, src = drop_bit 4 regs AND 0x0F,
       off = from_le_bytes [bytes ! 2, bytes ! 3],
       imm = from_le_bytes [bytes ! 4, bytes ! 5, bytes ! 6, bytes ! 7]\<rparr>)"

definition read_insn :: "u8 list \<Rightarrow> nat \<Rightarrow> insn" where
  "read_insn prog slot_idx = insn_from_bytes (take SLOT_SIZE (drop (slot_idx * SLOT_SIZE) prog))"

section \<open>The virtual machine\<close>

type_synonym helper_fn = "u64 \<Rightarrow> u64 \<Rightarrow> u64 \<Rightarrow> u64 \<Rightarrow> u64 \<Rightarrow> u64"

record helper_entry =
  he_id :: u32
  he_func :: helper_fn

record read_only_memory =
  ro_id :: u32
  ro_base :: u64
  ro_bytes :: "u8 list"

record initial_regs =
  ir1 :: u64
  ir2 :: u64
  ir3 :: u64
  ir4 :: u64
  ir5 :: u64

record vm =
  vm_regs :: "u64 list"
  vm_stack :: "u8 list"
  vm_stack_base :: u64
  vm_limit :: nat
  vm_helpers :: "helper_entry option list"
  vm_read_only :: "read_only_memory list"

definition vm_new :: "u64 \<Rightarrow> vm" where
  "vm_new stack_addr =
     \<lparr>vm_regs = replicate NUM_REGS 0, vm_stack = replicate STACK_SIZE 0, vm_stack_base = stack_addr,
      vm_limit = DEFAULT_INSTRUCTION_LIMIT, vm_helpers = replicate HELPER_TABLE_CAPACITY None,
      vm_read_only = []\<rparr>"

definition with_instruction_limit :: "vm \<Rightarrow> nat \<Rightarrow> vm" where
  "with_instruction_limit v limit = v\<lparr>vm_limit := limit\<rparr>"

definition add_read_only_memory :: "read_only_memory \<Rightarrow> vm \<Rightarrow> vm" where
  "add_read_only_memory memory v = v\<lparr>vm_read_only := vm_read_only v @ [memory]\<rparr>"

text \<open>The two passes of \<open>register_helper\<close> over the slots.\<close>

fun replace_helper :: "u32 \<Rightarrow> helper_fn \<Rightarrow> helper_entry option list \<Rightarrow> helper_entry option list option" where
  "replace_helper k f [] = None"
| "replace_helper k f (slot # slots) =
     (case slot of
        Some entry \<Rightarrow>
          if he_id entry = k then Some (Some (entry\<lparr>he_func := f\<rparr>) # slots)
          else map_option ((#) slot) (replace_helper k f slots)
      | None \<Rightarrow> map_option ((#) slot) (replace_helper k f slots))"

fun fill_helper :: "u32 \<Rightarrow> helper_fn \<Rightarrow> helper_entry option list \<Rightarrow> helper_entry option list option" where
  "fill_helper k f [] = None"
| "fill_helper k f (slot # slots) =
     (if slot = None then Some (Some \<lparr>he_id = k, he_func = f\<rparr> # slots)
      else map_option ((#) slot) (fill_helper k f slots))"

definition register_helper :: "u32 \<Rightarrow> helper_fn \<Rightarrow> vm \<Rightarrow> vm_error + vm" where
  "register_helper k f v =
     (case replace_helper k f (vm_helpers v) of
        Some hs \<Rightarrow> Inr (v\<lparr>vm_helpers := hs\<rparr>)
      | None \<Rightarrow>
          (case fill_helper k f (vm_helpers v) of
             Some hs \<Rightarrow> Inr (v\<lparr>vm_helpers := hs\<rparr>)
           | None \<Rightarrow> Inl HelperTableFull))"

fun lookup_slots :: "u32 \<Rightarrow> helper_entry option list \<Rightarrow> helper_fn option" where
  "lookup_slots k [] = None"
| "lookup_slots k (slot # slots) =
     (case slot of
        Some entry \<Rightarrow> if he_id entry = k then Some (he_func entry) else lookup_slots k slots
      | None \<Rightarrow> lookup_slots k slots)"

definition lookup_helper :: "u32 \<Rightarrow> vm \<Rightarrow> vm_error + helper_fn" where
  "lookup_helper k v =
     (case lookup_slots k (vm_helpers v) of Some f \<Rightarrow> Inr f | None \<Rightarrow> Inl (UnknownHelper k))"

section \<open>Memory\<close>

definition addr_at_offset :: "read_only_memory \<Rightarrow> u32 \<Rightarrow> vm_error + u64" where
  "addr_at_offset memory offset =
     (if unat offset > length (ro_bytes memory) then Inl MemoryOutOfBounds
      else case checked_add (ro_base memory) (ucast offset) of
        None \<Rightarrow> Inl MemoryOutOfBounds
      | Some a \<Rightarrow> Inr a)"

definition ro_slice :: "read_only_memory \<Rightarrow> u64 \<Rightarrow> u64 \<Rightarrow> u8 list option" where
  "ro_slice memory addr len =
     (case checked_add addr len of
        None \<Rightarrow> None
      | Some end \<Rightarrow>
          (case checked_add (ro_base memory) (of_nat (length (ro_bytes memory))) of
             None \<Rightarrow> None
           | Some region_end \<Rightarrow>
               if addr < ro_base memory \<or> end > region_end then None
               else Some (take (unat len) (drop (unat (addr - ro_base memory)) (ro_bytes memory)))))"

definition stack_range :: "vm \<Rightarrow> u64 \<Rightarrow> u64 \<Rightarrow> vm_error + (nat \<times> nat)" where
  "stack_range v addr len =
     (let stack_start = vm_stack_base v; stack_end = stack_start + of_nat STACK_SIZE in
      case checked_add addr len of
        None \<Rightarrow> Inl MemoryOutOfBounds
      | Some end \<Rightarrow>
          if addr < stack_start \<or> end > stack_end then Inl MemoryOutOfBounds
          else Inr (unat (addr - stack_start), unat (end - stack_start)))"

definition stack_slice :: "vm \<Rightarrow> u64 \<Rightarrow> u64 \<Rightarrow> vm_error + u8 list" where
  "stack_slice v addr len =
     (case stack_range v addr len of
        Inl e \<Rightarrow> Inl e
      | Inr (s, e) \<Rightarrow> Inr (take (e - s) (drop s (vm_stack v))))"

fun find_ro_slice :: "read_only_memory list \<Rightarrow> u64 \<Rightarrow> u64 \<Rightarrow> u8 list option" where
  "find_ro_slice [] addr len = None"
| "find_ro_slice (memory # rest) addr len =
     (case ro_slice memory addr len of Some s \<Rightarrow> Some s | None \<Rightarrow> find_ro_slice rest addr len)"

definition read_memory :: "vm \<Rightarrow> u64 \<Rightarrow> u64 \<Rightarrow> vm_error + u8 list" where
  "read_memory v addr len =
     (case stack_slice v addr len of
        Inr s \<Rightarrow> Inr s
      | Inl _ \<Rightarrow>
          (case find_ro_slice (vm_read_only v) addr len of
             Some s \<Rightarrow> Inr s
           | None \<Rightarrow> Inl MemoryOutOfBounds))"

text \<open>The loop of \<open>load_memory_value\<close> from byte \<open>idx\<close> on, and that of \<open>store_memory_value\<close>.\<close>

fun load_from :: "nat \<Rightarrow> u8 list \<Rightarrow> u64 \<Rightarrow> u64" where
  "load_from idx [] value = value"
| "load_from idx (byte # bytes) value =
     load_from (Suc idx) bytes (value OR push_bit (idx * 8) (ucast byte))"

definition load_memory_value :: "u8 list \<Rightarrow> u64" where
  "load_memory_value bytes = load_from 0 bytes 0"

definition store_memory_value :: "nat \<Rightarrow> u64 \<Rightarrow> u8 list" where
  "store_memory_value width value = map (\<lambda>idx. ucast (drop_bit (idx * 8) value)) [0..<width]"

definition read_reg_value :: "vm \<Rightarrow> u64 \<Rightarrow> nat \<Rightarrow> vm_error + u64" where
  "read_reg_value v addr width =
     (case read_memory v addr (of_nat width) of Inl e \<Rightarrow> Inl e | Inr s \<Rightarrow> Inr (load_memory_value s))"

definition write_stack_value :: "vm \<Rightarrow> u64 \<Rightarrow> nat \<Rightarrow> u64 \<Rightarrow> vm_error + vm" where
  "write_stack_value v addr width value =
     (case stack_range v addr (of_nat width) of
        Inl e \<Rightarrow> Inl e
      | Inr (s, e) \<Rightarrow>
          Inr (v\<lparr>vm_stack := take s (vm_stack v) @ store_memory_value (e - s) value
                   @ drop e (vm_stack v)\<rparr>))"

fun read_only_memory_addr :: "read_only_memory list \<Rightarrow> u32 \<Rightarrow> u32 \<Rightarrow> vm_error + u64" where
  "read_only_memory_addr [] k offset = Inl MemoryOutOfBounds"
| "read_only_memory_addr (memory # rest) k offset =
     (if ro_id memory = k then addr_at_offset memory offset else read_only_memory_addr rest k offset)"

section \<open>Execution\<close>

definition reg_index :: "u8 \<Rightarrow> vm_error + nat" where
  "reg_index reg = (let idx = unat reg in if idx \<ge> NUM_REGS then Inl (InvalidRegister reg) else Inr idx)"

definition mem_width :: "u8 \<Rightarrow> vm_error + nat" where
  "mem_width code =
     (if code = OP_LDX_MEM_B \<or> code = OP_ST_MEM_B \<or> code = OP_STX_MEM_B then Inr 1
      else if code = OP_LDX_MEM_H \<or> code = OP_ST_MEM_H \<or> code = OP_STX_MEM_H then Inr 2
      else if code = OP_LDX_MEM_W \<or> code = OP_ST_MEM_W \<or> code = OP_STX_MEM_W then Inr 4
      else if code = OP_LDX_MEM_DW \<or> code = OP_ST_MEM_DW \<or> code = OP_STX_MEM_DW then Inr 8
      else Inl (UnknownOpcode code))"

definition jump_target :: "nat \<Rightarrow> u16 \<Rightarrow> nat \<Rightarrow> vm_error + nat" where
  "jump_target pc offset num_slots =
     (let target = int pc + sint offset in
      if target < 0 \<or> target \<ge> int num_slots then Inl JumpOutOfBounds else Inr (nat target))"

definition call_helper :: "vm \<Rightarrow> u32 \<Rightarrow> vm_error + u64" where
  "call_helper v k =
     (let r = (!) (vm_regs v) in
      case lookup_helper k v of
        Inr f \<Rightarrow> Inr (f (r 1) (r 2) (r 3) (r 4) (r 5))
      | Inl _ \<Rightarrow>
          if k = BPF_FUNC_TRACE_PRINTK then
            (case read_memory v (r 1) (r 2) of Inl e \<Rightarrow> Inl e | Inr fmt \<Rightarrow> Inr (of_nat (length fmt)))
          else Inl (UnknownHelper k))"

text \<open>
  What one instruction does: fail, end the program with a value, or continue at a slot. \<open>attempt\<close>
  is the \<open>?\<close> operator.
\<close>

datatype outcome = Failed vm_error | Exited u64 | Continue vm nat

fun attempt :: "vm_error + 'a \<Rightarrow> ('a \<Rightarrow> outcome) \<Rightarrow> outcome" where
  "attempt (Inl e) k = Failed e"
| "attempt (Inr x) k = k x"

definition set_reg :: "vm \<Rightarrow> nat \<Rightarrow> u64 \<Rightarrow> vm" where
  "set_reg v i x = v\<lparr>vm_regs := (vm_regs v)[i := x]\<rparr>"

definition exec_insn :: "u8 list \<Rightarrow> nat \<Rightarrow> vm \<Rightarrow> insn \<Rightarrow> nat \<Rightarrow> outcome" where
  "exec_insn prog num_slots v i pc =
     (let op = opc i; reg = (!) (vm_regs v); simm = scast (imm i) :: u64; soff = scast (off i) :: u64 in
      if op = OP_LD_DW_IMM then
        attempt (reg_index (dst i)) (\<lambda>d.
          if pc \<ge> num_slots then Failed IncompleteWideImmediate
          else let next = read_insn prog pc in
            if src i = BPF_PSEUDO_MAP_VALUE then
              attempt (read_only_memory_addr (vm_read_only v) (imm i) (imm next))
                (\<lambda>a. Continue (set_reg v d a) (pc + 1))
            else Continue (set_reg v d (push_bit 32 (ucast (imm next)) OR ucast (imm i))) (pc + 1))
      else if op = OP_LDX_MEM_B \<or> op = OP_LDX_MEM_H \<or> op = OP_LDX_MEM_W \<or> op = OP_LDX_MEM_DW then
        attempt (reg_index (dst i)) (\<lambda>d. attempt (reg_index (src i)) (\<lambda>s. attempt (mem_width op) (\<lambda>w.
          attempt (read_reg_value v (reg s + soff) w) (\<lambda>x. Continue (set_reg v d x) pc))))
      else if op = OP_ST_MEM_B \<or> op = OP_ST_MEM_H \<or> op = OP_ST_MEM_W \<or> op = OP_ST_MEM_DW then
        attempt (reg_index (dst i)) (\<lambda>d. attempt (mem_width op) (\<lambda>w.
          attempt (write_stack_value v (reg d + soff) w simm) (\<lambda>v'. Continue v' pc)))
      else if op = OP_STX_MEM_B \<or> op = OP_STX_MEM_H \<or> op = OP_STX_MEM_W \<or> op = OP_STX_MEM_DW then
        attempt (reg_index (dst i)) (\<lambda>d. attempt (reg_index (src i)) (\<lambda>s. attempt (mem_width op) (\<lambda>w.
          attempt (write_stack_value v (reg d + soff) w (reg s)) (\<lambda>v'. Continue v' pc))))
      else if op = OP_ADD64_IMM then
        attempt (reg_index (dst i)) (\<lambda>d. Continue (set_reg v d (reg d + simm)) pc)
      else if op = OP_ADD64_REG then
        attempt (reg_index (dst i)) (\<lambda>d. attempt (reg_index (src i)) (\<lambda>s.
          Continue (set_reg v d (reg d + reg s)) pc))
      else if op = OP_MOV64_IMM then
        attempt (reg_index (dst i)) (\<lambda>d. Continue (set_reg v d simm) pc)
      else if op = OP_MOV64_REG then
        attempt (reg_index (dst i)) (\<lambda>d. attempt (reg_index (src i)) (\<lambda>s.
          Continue (set_reg v d (reg s)) pc))
      else if op = OP_JA then
        attempt (jump_target pc (off i) num_slots) (\<lambda>t. Continue v t)
      else if op = OP_JEQ_IMM then
        attempt (reg_index (dst i)) (\<lambda>d.
          if reg d = simm then attempt (jump_target pc (off i) num_slots) (\<lambda>t. Continue v t)
          else Continue v pc)
      else if op = OP_CALL then
        attempt (call_helper v (imm i)) (\<lambda>x. Continue (set_reg v 0 x) pc)
      else if op = OP_EXIT then Exited (reg 0)
      else Failed (UnknownOpcode op))"

definition vm_step :: "u8 list \<Rightarrow> vm \<Rightarrow> nat \<Rightarrow> outcome" where
  "vm_step prog v pc = exec_insn prog (length prog div SLOT_SIZE) v (read_insn prog pc) (pc + 1)"

text \<open>The loop of \<open>run_with_initial_regs\<close>; the VM it leaves behind comes with the result.\<close>

function vm_loop :: "u8 list \<Rightarrow> nat \<Rightarrow> vm \<Rightarrow> nat \<Rightarrow> nat \<Rightarrow> vm \<times> (vm_error + u64)" where
  "vm_loop prog limit v pc steps =
     (if pc < length prog div SLOT_SIZE then
        if steps \<ge> limit then (v, Inl InstructionLimitExceeded)
        else (case vm_step prog v pc of
            Failed e \<Rightarrow> (v, Inl e)
          | Exited x \<Rightarrow> (v, Inr x)
          | Continue v' pc' \<Rightarrow> vm_loop prog limit v' pc' (steps + 1))
      else (v, Inl EndOfProgram))"
  by pat_completeness auto
termination
  by (relation "measure (\<lambda>(prog, limit, v, pc, steps). limit - steps)") auto

declare vm_loop.simps [simp del]

definition vm_reset :: "vm \<Rightarrow> initial_regs \<Rightarrow> vm" where
  "vm_reset v initial =
     v\<lparr>vm_regs := [0, ir1 initial, ir2 initial, ir3 initial, ir4 initial, ir5 initial, 0, 0, 0, 0,
         vm_stack_base v + of_nat STACK_SIZE],
       vm_stack := replicate STACK_SIZE 0\<rparr>"

definition run_with_initial_regs :: "vm \<Rightarrow> u8 list \<Rightarrow> initial_regs \<Rightarrow> vm \<times> (vm_error + u64)" where
  "run_with_initial_regs v prog initial =
     (if length prog mod SLOT_SIZE \<noteq> 0 then (v, Inl UnalignedProgram)
      else vm_loop prog (vm_limit v) (vm_reset v initial) 0 0)"

definition run_vm :: "vm \<Rightarrow> u8 list \<Rightarrow> vm \<times> (vm_error + u64)" where
  "run_vm v prog = run_with_initial_regs v prog \<lparr>ir1 = 0, ir2 = 0, ir3 = 0, ir4 = 0, ir5 = 0\<rparr>"

section \<open>The helper table as a registry\<close>

text \<open>
  A table of bounded size: binding a key gives that value back, leaves the other keys alone, and
  never fails for a key that is already bound.
\<close>

fun put_all :: "('k \<Rightarrow> 'v \<Rightarrow> 's \<Rightarrow> 's option) \<Rightarrow> ('k \<times> 'v) list \<Rightarrow> 's \<Rightarrow> 's option" where
  "put_all put [] s = Some s"
| "put_all put ((k, x) # kvs) s = (case put k x s of None \<Rightarrow> None | Some s' \<Rightarrow> put_all put kvs s')"

locale registry =
  fixes put :: "'k \<Rightarrow> 'v \<Rightarrow> 's \<Rightarrow> 's option"
    and get :: "'k \<Rightarrow> 's \<Rightarrow> 'v option"
  assumes get_put: "put k x s = Some s' \<Longrightarrow> get k' s' = (if k' = k then Some x else get k' s)"
    and put_bound: "get k s \<noteq> None \<Longrightarrow> put k x s \<noteq> None"
begin

lemma rebind: "put k x s = Some s' \<Longrightarrow> \<exists>s''. put k y s' = Some s'' \<and> get k s'' = Some y"
  using get_put [of k x s s' k] put_bound [of k s' y] get_put [of k y s' _ k] by auto

lemma get_put_all:
  "put_all put kvs s = Some s' \<Longrightarrow>
     get k s' = (case map_of (rev kvs) k of Some x \<Rightarrow> Some x | None \<Rightarrow> get k s)"
proof (induction kvs arbitrary: s)
  case (Cons kv kvs)
  obtain j x where kv: "kv = (j, x)" by force
  with Cons.prems obtain s1 where s1: "put j x s = Some s1" "put_all put kvs s1 = Some s'"
    by (auto split: option.splits)
  show ?case
    using Cons.IH [OF s1(2)] get_put [OF s1(1), of k] kv
    by (auto simp: map_add_def map_of_append split: option.splits)
qed simp

end

lemma replace_helper_None: "replace_helper k f hs = None \<longleftrightarrow> lookup_slots k hs = None"
  by (induction hs) (auto split: option.splits)

lemma lookup_replace:
  "replace_helper k f hs = Some hs' \<Longrightarrow> lookup_slots k' hs' = (if k' = k then Some f else lookup_slots k' hs)"
  by (induction hs arbitrary: hs') (auto split: option.splits if_splits)

lemma lookup_fill:
  "\<lbrakk>fill_helper k f hs = Some hs'; lookup_slots k hs = None\<rbrakk>
    \<Longrightarrow> lookup_slots k' hs' = (if k' = k then Some f else lookup_slots k' hs)"
  by (induction hs arbitrary: hs') (auto split: option.splits if_splits)

lemma fill_helper_None: "fill_helper k f hs = None \<longleftrightarrow> None \<notin> set hs"
  by (induction hs) auto

lemma length_replace_helper: "replace_helper k f hs = Some hs' \<Longrightarrow> length hs' = length hs"
  by (induction hs arbitrary: hs') (auto split: option.splits if_splits)

lemma length_fill_helper: "fill_helper k f hs = Some hs' \<Longrightarrow> length hs' = length hs"
  by (induction hs arbitrary: hs') (auto split: option.splits if_splits)

abbreviation (input) put_helper :: "u32 \<Rightarrow> helper_fn \<Rightarrow> vm \<Rightarrow> vm option" where
  "put_helper k f v \<equiv> (case register_helper k f v of Inr v' \<Rightarrow> Some v' | Inl _ \<Rightarrow> None)"

abbreviation (input) get_helper :: "u32 \<Rightarrow> vm \<Rightarrow> helper_fn option" where
  "get_helper k v \<equiv> (case lookup_helper k v of Inr f \<Rightarrow> Some f | Inl _ \<Rightarrow> None)"

lemma get_helper_slots: "get_helper k v = lookup_slots k (vm_helpers v)"
  by (simp add: lookup_helper_def split: option.split)

interpretation helper_registry: registry put_helper get_helper
proof unfold_locales
  fix k x s s' k'
  assume "put_helper k x s = Some s'"
  then show "get_helper k' s' = (if k' = k then Some x else get_helper k' s)"
    unfolding get_helper_slots
    by (auto simp: register_helper_def lookup_replace lookup_fill replace_helper_None
        split: option.splits)
next
  fix k s x
  assume "get_helper k s \<noteq> None"
  then show "put_helper k x s \<noteq> None"
    using replace_helper_None [of k x "vm_helpers s"] unfolding get_helper_slots
    by (auto simp: register_helper_def split: option.splits)
qed

text \<open>
  Registering a list of helpers one after the other makes each identifier resolve to the
  function bound to it last and leaves the others as they were; registering fails only for a new
  identifier on a table without a free slot.
\<close>

theorem register_helper_table:
  "(put_all put_helper kvs v = Some v' \<longrightarrow>
      get_helper k v' = (case map_of (rev kvs) k of Some f \<Rightarrow> Some f | None \<Rightarrow> get_helper k v))
   \<and> (register_helper k f v \<in> range Inl \<longleftrightarrow> get_helper k v = None \<and> None \<notin> set (vm_helpers v))"
proof
  show "put_all put_helper kvs v = Some v' \<longrightarrow>
      get_helper k v' = (case map_of (rev kvs) k of Some f \<Rightarrow> Some f | None \<Rightarrow> get_helper k v)"
    by (rule impI, rule helper_registry.get_put_all)
  show "register_helper k f v \<in> range Inl \<longleftrightarrow> get_helper k v = None \<and> None \<notin> set (vm_helpers v)"
    using replace_helper_None [of k f "vm_helpers v"] fill_helper_None [of k f "vm_helpers v"]
    unfolding get_helper_slots by (auto simp: register_helper_def split: option.splits)
qed

abbreviation (input) small_vm :: vm where
  "small_vm \<equiv> (vm_new 4096)\<lparr>vm_helpers := [None]\<rparr>"

theorem register_helper_table_witness:
  "get_helper 1 (the (put_all put_helper [(1, \<lambda>a b c d e. 7), (1, \<lambda>a b c d e. 8)] small_vm))
     = Some (\<lambda>a b c d e. 8)"
proof -
  let ?kvs = "[(1, \<lambda>a b c d e. 7), (1, \<lambda>a b c d e. 8)] :: (u32 \<times> helper_fn) list"
  have "put_all put_helper ?kvs small_vm = Some (the (put_all put_helper ?kvs small_vm))"
    by (simp add: register_helper_def)
  then show ?thesis
    using register_helper_table [of ?kvs small_vm "the (put_all put_helper ?kvs small_vm)" 1]
    by simp
qed

section \<open>Memory safety\<close>

text \<open>
  A well-formed machine: the register file, stack and helper table have their fixed sizes and the
  stack does not wrap around the address space.
\<close>

definition vm_ok :: "vm \<Rightarrow> bool" where
  "vm_ok v \<longleftrightarrow> length (vm_regs v) = NUM_REGS \<and> length (vm_stack v) = STACK_SIZE
     \<and> length (vm_helpers v) = HELPER_TABLE_CAPACITY \<and> unat (vm_stack_base v) + STACK_SIZE < 2 ^ 64"

lemma stack_range_Inr:
  assumes "vm_ok v"
  shows "stack_range v addr len = Inr (s, e) \<longleftrightarrow>
    unat (vm_stack_base v) \<le> unat addr \<and> unat addr + unat len \<le> unat (vm_stack_base v) + STACK_SIZE
    \<and> s = unat addr - unat (vm_stack_base v) \<and> e = s + unat len"
proof -
  have top: "unat (vm_stack_base v + 512) = unat (vm_stack_base v) + 512"
    using assms by (subst unat_add_no_wrap) (auto simp: vm_ok_def)
  show ?thesis
  proof (cases "unat addr + unat len < 2 ^ 64")
    case True
    then have sum: "unat (addr + len) = unat addr + unat len" "checked_add addr len = Some (addr + len)"
      using checked_add_Some [of addr len] by (auto simp: unat_add_no_wrap)
    have sub: "unat (x - vm_stack_base v) = unat x - unat (vm_stack_base v)"
      if "unat (vm_stack_base v) \<le> unat x" for x :: u64
      using that by (simp add: unat_sub word_le_nat_alt)
    show ?thesis
      unfolding stack_range_def Let_def sum(2)
      by (auto simp: word_less_nat_alt top sum(1) sub)
  next
    case False
    then have "checked_add addr len = None" using checked_add_None [of addr len] by auto
    with False assms show ?thesis by (auto simp: stack_range_def vm_ok_def)
  qed
qed

lemma stack_range_cases:
  assumes "vm_ok v"
  obtains "stack_range v addr len = Inl MemoryOutOfBounds"
  | s where "stack_range v addr len = Inr (s, s + unat len)" "s + unat len \<le> STACK_SIZE"
    "unat addr = unat (vm_stack_base v) + s"
proof (cases "stack_range v addr len")
  case (Inl e)
  then have "e = MemoryOutOfBounds" by (auto simp: stack_range_def Let_def split: option.splits if_splits)
  then show ?thesis using Inl that(1) by simp
next
  case (Inr se)
  obtain s e where se: "se = (s, e)" by (cases se)
  then have "unat (vm_stack_base v) \<le> unat addr"
      "unat addr + unat len \<le> unat (vm_stack_base v) + STACK_SIZE"
      "s = unat addr - unat (vm_stack_base v)" "e = s + unat len"
    using Inr by (simp_all only: stack_range_Inr [OF assms])
  then show ?thesis by (intro that(2) [of s]) (simp_all add: Inr se)
qed

lemma length_store_memory_value [simp]: "length (store_memory_value w x) = w"
  by (simp add: store_memory_value_def)

lemma load_from_or: "load_from idx bs x = x OR push_bit (idx * 8) (from_le_bytes bs)"
proof (induction bs arbitrary: idx x)
  case (Cons b bs)
  then show ?case by (simp add: push_bit_or or.assoc add.commute)
qed simp

lemma load_from_le_bytes: "load_memory_value bs = from_le_bytes bs"
  by (simp add: load_memory_value_def load_from_or)

lemma store_to_le_bytes: "store_memory_value w x = to_le_bytes w x"
  by (rule nth_equalityI) (simp_all add: store_memory_value_def nth_to_le_bytes mult.commute)

lemma load_store:
  assumes "w \<le> 8"
  shows "load_memory_value (store_memory_value w x) = take_bit (8 * w) x"
proof (rule bit_word_eqI)
  fix n assume n: "n < LENGTH(64)"
  have "n div 8 < w \<longleftrightarrow> n < 8 * w" by linarith
  then show "bit (load_memory_value (store_memory_value w x)) n = bit (take_bit (8 * w) x) n"
    using n by (auto simp: load_from_le_bytes store_to_le_bytes bit_from_le_bytes nth_to_le_bytes bit_simps)
qed

lemma write_read_same:
  assumes "vm_ok v" "w \<le> 8" "write_stack_value v addr w x = Inr v'"
  shows "read_reg_value v' addr w = Inr (take_bit (8 * w) x)"
proof -
  have w: "unat (of_nat w :: u64) = w" using assms(2) by (simp add: unsigned_of_nat take_bit_nat_eq_self)
  from assms(1) show ?thesis
  proof (cases rule: stack_range_cases [of v addr "of_nat w"])
    case 1
    then show ?thesis using assms(3) by (simp add: write_stack_value_def)
  next
    case (2 s)
    then have v': "v' = v\<lparr>vm_stack := take s (vm_stack v) @ store_memory_value w x @ drop (s + w) (vm_stack v)\<rparr>"
      using assms(3) w by (simp add: write_stack_value_def)
    have "stack_range v' addr (of_nat w) = Inr (s, s + w)"
      using 2(1) w by (simp add: v' stack_range_def)
    moreover have "take w (drop s (vm_stack v')) = store_memory_value w x"
      using 2(2) w assms(1) by (simp add: v' vm_ok_def)
    ultimately show ?thesis
      by (simp add: read_reg_value_def read_memory_def stack_slice_def load_store [OF assms(2)])
  qed
qed

lemma write_frame:
  assumes "vm_ok v" "write_stack_value v addr w x = Inr v'" "w \<le> 8"
  shows "vm_ok v'" "v' = v\<lparr>vm_stack := vm_stack v'\<rparr>"
    and "\<lbrakk>i < STACK_SIZE; i + unat (vm_stack_base v) < unat addr \<or> unat addr + w \<le> i + unat (vm_stack_base v)\<rbrakk>
      \<Longrightarrow> vm_stack v' ! i = vm_stack v ! i"
    and "unat (vm_stack_base v) \<le> unat addr \<and> unat addr + w \<le> unat (vm_stack_base v) + STACK_SIZE"
proof -
  have w: "unat (of_nat w :: u64) = w" using assms(3) by (simp add: unsigned_of_nat take_bit_nat_eq_self)
  obtain s where s: "stack_range v addr (of_nat w) = Inr (s, s + w)" "s + w \<le> STACK_SIZE"
      "unat addr = unat (vm_stack_base v) + s"
    using assms(2) w by (cases rule: stack_range_cases [OF assms(1), of addr "of_nat w"])
      (auto simp: write_stack_value_def)
  have v': "v' = v\<lparr>vm_stack := take s (vm_stack v) @ store_memory_value w x @ drop (s + w) (vm_stack v)\<rparr>"
    using assms(2) s(1) by (simp add: write_stack_value_def)
  show "vm_ok v'" "v' = v\<lparr>vm_stack := vm_stack v'\<rparr>"
    using assms(1) s(2) by (simp_all add: v' vm_ok_def)
  show "unat (vm_stack_base v) \<le> unat addr \<and> unat addr + w \<le> unat (vm_stack_base v) + STACK_SIZE"
    using s by simp
  show "vm_stack v' ! i = vm_stack v ! i"
    if "i < STACK_SIZE" "i + unat (vm_stack_base v) < unat addr \<or> unat addr + w \<le> i + unat (vm_stack_base v)"
    using that s(2,3) assms(1) by (auto simp: v' vm_ok_def nth_append)
qed

text \<open>
  C27. A store that succeeds can be read back: the same address and width give the value truncated
  to the width. The access lies inside the stack, and all other stack bytes and the rest of the
  machine are as before.
\<close>

theorem store_load:
  assumes "vm_ok v" and "mem_width code = Inr w" and "write_stack_value v addr w x = Inr v'"
  shows "read_reg_value v' addr w = Inr (take_bit (8 * w) x)
    \<and> unat (vm_stack_base v) \<le> unat addr \<and> unat addr + w \<le> unat (vm_stack_base v) + STACK_SIZE
    \<and> v' = v\<lparr>vm_stack := vm_stack v'\<rparr> \<and> length (vm_stack v') = STACK_SIZE
    \<and> (\<forall>i < STACK_SIZE. i + unat (vm_stack_base v) < unat addr
        \<or> unat addr + w \<le> i + unat (vm_stack_base v) \<longrightarrow> vm_stack v' ! i = vm_stack v ! i)"
proof -
  have w: "w \<le> 8" using assms(2) by (auto simp: mem_width_def split: if_splits)
  show ?thesis
    using write_read_same [OF assms(1) w assms(3)] write_frame [OF assms(1,3) w]
    by (auto simp: vm_ok_def)
qed

lemma vm_ok_new: "unat stack_addr + STACK_SIZE < 2 ^ 64 \<Longrightarrow> vm_ok (vm_new stack_addr)"
  by (simp add: vm_ok_def vm_new_def)

theorem store_load_witness:
  "read_reg_value (projr (write_stack_value (vm_new 0) 8 4 0x123456789)) 8 4 = Inr 0x23456789"
proof -
  have "write_stack_value (vm_new 0) 8 4 0x123456789
      = Inr (projr (write_stack_value (vm_new 0) 8 4 0x123456789))"
    by (simp add: write_stack_value_def stack_range_def checked_add_def vm_new_def)
  then show ?thesis
    using store_load [OF vm_ok_new [of 0], of OP_ST_MEM_W 4 8 "0x123456789"]
    by (simp add: mem_width_def)
qed

section \<open>Steps and runs\<close>

lemma attempt_simps:
  "attempt r k = Continue v pc \<longleftrightarrow> (\<exists>x. r = Inr x \<and> k x = Continue v pc)"
  "attempt r k = Exited y \<longleftrightarrow> (\<exists>x. r = Inr x \<and> k x = Exited y)"
  "attempt r k = Failed e \<longleftrightarrow> r = Inl e \<or> (\<exists>x. r = Inr x \<and> k x = Failed e)"
  by (cases r; simp)+

definition vm_frame :: "vm \<Rightarrow> vm \<Rightarrow> bool" where
  "vm_frame v v' \<longleftrightarrow> vm_ok v' \<and> v' = v\<lparr>vm_regs := vm_regs v', vm_stack := vm_stack v'\<rparr>"

lemma vm_frame_refl: "vm_ok v \<Longrightarrow> vm_frame v v"
  by (simp add: vm_frame_def)

lemma vm_frame_trans: "\<lbrakk>vm_frame u v; vm_frame v w\<rbrakk> \<Longrightarrow> vm_frame u w"
  by (cases u; cases v; cases w) (auto simp: vm_frame_def)

lemma vm_frame_set_reg: "vm_ok v \<Longrightarrow> vm_frame v (set_reg v d x)"
  by (simp add: vm_frame_def vm_ok_def set_reg_def)

lemma vm_frame_write:
  assumes "vm_ok v" "mem_width code = Inr w" "write_stack_value v addr w x = Inr v'"
  shows "vm_frame v v'"
proof -
  have w: "w \<le> 8" using assms(2) by (auto simp: mem_width_def split: if_splits)
  show ?thesis using write_frame(1,2) [OF assms(1,3) w] by (cases v; cases v') (simp add: vm_frame_def)
qed

lemma jump_target_less: "jump_target pc offset n = Inr t \<Longrightarrow> t < n"
  by (auto simp: jump_target_def Let_def split: if_splits)

lemma exec_insn_frame:
  assumes "vm_ok v" "exec_insn prog n v i pc = Continue v' pc'" "pc \<le> n"
  shows "vm_frame v v' \<and> pc' \<le> n"
  using assms unfolding exec_insn_def Let_def
  by (auto simp: attempt_simps vm_frame_refl vm_frame_set_reg
      dest: vm_frame_write [OF assms(1)] jump_target_less split: if_splits)

text \<open>No instruction reports the budget or end-of-program errors, which belong to the loop.\<close>

lemma memory_errors:
  "stack_range v a l = Inl e \<Longrightarrow> e = MemoryOutOfBounds"
  "read_memory v a l = Inl e \<Longrightarrow> e = MemoryOutOfBounds"
  "read_only_memory_addr ms k ofs = Inl e \<Longrightarrow> e = MemoryOutOfBounds"
  "read_reg_value v a w = Inl e \<Longrightarrow> e = MemoryOutOfBounds"
  "write_stack_value v a w x = Inl e \<Longrightarrow> e = MemoryOutOfBounds"
proof -
  show sr: "stack_range v a l = Inl e \<Longrightarrow> e = MemoryOutOfBounds" for a l e
    by (auto simp: stack_range_def Let_def split: option.splits if_splits)
  show rm: "read_memory v a l = Inl e \<Longrightarrow> e = MemoryOutOfBounds" for a l e
    by (auto simp: read_memory_def split: sum.splits option.splits)
  show "read_only_memory_addr ms k ofs = Inl e \<Longrightarrow> e = MemoryOutOfBounds"
    by (induction ms) (auto simp: addr_at_offset_def split: if_splits option.splits)
  show "read_reg_value v a w = Inl e \<Longrightarrow> e = MemoryOutOfBounds"
    by (auto simp: read_reg_value_def dest: rm split: sum.splits)
  show "write_stack_value v a w x = Inl e \<Longrightarrow> e = MemoryOutOfBounds"
    by (auto simp: write_stack_value_def dest: sr split: sum.splits)
qed

lemma call_helper_error: "call_helper v k = Inl e \<Longrightarrow> e = UnknownHelper k \<or> e = MemoryOutOfBounds"
  by (auto simp: call_helper_def Let_def lookup_helper_def dest: memory_errors
      split: option.splits if_splits sum.splits)

abbreviation (input) insn_error :: "vm_error \<Rightarrow> bool" where
  "insn_error e \<equiv> e \<noteq> InstructionLimitExceeded \<and> e \<noteq> EndOfProgram \<and> e \<noteq> UnalignedProgram
     \<and> e \<noteq> HelperTableFull"

lemma operand_errors:
  "reg_index r = Inl e \<Longrightarrow> insn_error e" "mem_width c = Inl e \<Longrightarrow> insn_error e"
  "jump_target pc ofs n = Inl e \<Longrightarrow> insn_error e" "call_helper v k = Inl e \<Longrightarrow> insn_error e"
  "read_reg_value v a w = Inl e \<Longrightarrow> insn_error e" "write_stack_value v a w x = Inl e \<Longrightarrow> insn_error e"
  "read_only_memory_addr ms k' ro_ofs = Inl e \<Longrightarrow> insn_error e"
  by (auto simp: reg_index_def mem_width_def jump_target_def Let_def
      dest: memory_errors call_helper_error split: if_splits)

lemma exec_insn_error:
  assumes "exec_insn prog n v i pc = Failed e"
  shows "insn_error e"
  using assms unfolding exec_insn_def Let_def
  by (auto simp: attempt_simps dest: operand_errors split: if_splits)

text \<open>
  The small-step semantics: \<open>vm_steps prog n c d\<close> when \<open>n\<close> instructions lead from \<open>c\<close> to \<open>d\<close>, all of
  them inside the program.
\<close>

inductive vm_steps :: "u8 list \<Rightarrow> nat \<Rightarrow> vm \<times> nat \<Rightarrow> vm \<times> nat \<Rightarrow> bool" for prog where
  none: "vm_steps prog 0 c c"
| more: "\<lbrakk>pc < length prog div SLOT_SIZE; vm_step prog v pc = Continue v' pc'; vm_steps prog n (v', pc') d\<rbrakk>
    \<Longrightarrow> vm_steps prog (Suc n) (v, pc) d"

inductive_simps vm_steps_0: "vm_steps prog 0 c d"
inductive_simps vm_steps_Suc: "vm_steps prog (Suc n) (v, pc) d"

definition slots :: "u8 list \<Rightarrow> nat" where
  "slots prog = length prog div SLOT_SIZE"

lemma vm_steps_frame:
  "\<lbrakk>vm_steps prog n c d; vm_ok (fst c); snd c \<le> slots prog\<rbrakk> \<Longrightarrow> vm_frame (fst c) (fst d) \<and> snd d \<le> slots prog"
proof (induction rule: vm_steps.induct)
  case (more pc v v' pc' n d)
  then have frame: "vm_frame v v'" "pc' \<le> slots prog"
    using exec_insn_frame [of v prog "slots prog" "read_insn prog pc" "pc + 1" v' pc']
    by (simp_all add: vm_step_def slots_def)
  then have "vm_frame v' (fst d) \<and> snd d \<le> slots prog"
    using more.IH by (simp add: vm_frame_def [of v v'])
  with frame(1) show ?case by (auto intro: vm_frame_trans)
qed (simp add: vm_frame_refl)

text \<open>Steps are deterministic, and no step leads on from a machine that stops.\<close>

lemma vm_steps_det: "\<lbrakk>vm_steps prog n c d; vm_steps prog n c d'\<rbrakk> \<Longrightarrow> d = d'"
  by (induction arbitrary: d' rule: vm_steps.induct) (auto simp: vm_steps_0 vm_steps_Suc)

abbreviation (input) stops :: "u8 list \<Rightarrow> vm \<times> nat \<Rightarrow> bool" where
  "stops prog c \<equiv> snd c \<ge> slots prog \<or> (\<forall>v' pc'. vm_step prog (fst c) (snd c) \<noteq> Continue v' pc')"

lemma vm_steps_stop: "\<lbrakk>vm_steps prog n c d; stops prog d; vm_steps prog m c d'\<rbrakk> \<Longrightarrow> m \<le> n"
proof (induction arbitrary: m d' rule: vm_steps.induct)
  case (none c)
  then show ?case by (cases m; cases c) (auto simp: vm_steps_Suc slots_def)
next
  case (more pc v v' pc' n d)
  then show ?case by (cases m) (auto simp: vm_steps_Suc)
qed

lemma vm_loop_run:
  obtains (limit) v' pc' where "steps \<le> limit \<Longrightarrow> vm_steps prog (limit - steps) (v, pc) (v', pc')"
      "pc' < slots prog" "vm_loop prog limit v pc steps = (v', Inl InstructionLimitExceeded)"
  | (exit) n v' pc' x where "steps + n < limit" "vm_steps prog n (v, pc) (v', pc')" "pc' < slots prog"
      "vm_step prog v' pc' = Exited x" "vm_loop prog limit v pc steps = (v', Inr x)"
  | (fail) n v' pc' e where "steps + n < limit" "vm_steps prog n (v, pc) (v', pc')" "pc' < slots prog"
      "vm_step prog v' pc' = Failed e" "insn_error e" "vm_loop prog limit v pc steps = (v', Inl e)"
  | (ended) n v' pc' where "steps \<le> limit \<Longrightarrow> steps + n \<le> limit" "vm_steps prog n (v, pc) (v', pc')"
      "slots prog \<le> pc'" "vm_loop prog limit v pc steps = (v', Inl EndOfProgram)"
proof (induction "limit - steps" arbitrary: v pc steps thesis rule: less_induct)
  case less
  note loop = vm_loop.simps [of prog limit v pc steps, folded slots_def]
  consider "\<not> pc < slots prog" | "pc < slots prog" "steps \<ge> limit" | "pc < slots prog" "steps < limit"
    by linarith
  then show thesis
  proof cases
    case 1
    then show thesis using less.prems(4) [of 0 v pc] loop by (simp add: vm_steps_0)
  next
    case 2
    then show thesis using less.prems(1) [of v pc] loop by (simp add: vm_steps_0)
  next
    case 3
    show thesis
    proof (cases "vm_step prog v pc")
      case (Failed e)
      then have "insn_error e" using exec_insn_error by (simp add: vm_step_def)
      then show thesis using less.prems(3) [of 0 v pc e] loop 3 Failed by (simp add: vm_steps_0)
    next
      case (Exited x)
      then show thesis using less.prems(2) [of 0 v pc x] loop 3 by (simp add: vm_steps_0)
    next
      case (Continue v1 pc1)
      then have loop1: "vm_loop prog limit v pc steps = vm_loop prog limit v1 pc1 (steps + 1)"
        using loop 3 by simp
      have step: "vm_steps prog (Suc n) (v, pc) d \<longleftrightarrow> vm_steps prog n (v1, pc1) d" for n d
        using 3(1) Continue by (auto simp: vm_steps_Suc slots_def)
      have lt: "limit - (steps + 1) < limit - steps" using 3(2) by simp
      show thesis
      proof (cases rule: less.hyps [OF lt, of v1 pc1, case_names limit exit fail ended])
        case (limit v' pc')
        moreover have "limit - steps = Suc (limit - (steps + 1))" using 3(2) by simp
        ultimately show thesis using less.prems(1) [of v' pc'] 3(2) by (simp add: loop1 step)
      next
        case (exit n v' pc' x)
        then show thesis using less.prems(2) [of "Suc n" v' pc' x] by (simp add: loop1 step)
      next
        case (fail n v' pc' e)
        then show thesis using less.prems(3) [of "Suc n" v' pc' e] by (simp add: loop1 step)
      next
        case (ended n v' pc')
        then show thesis using less.prems(4) [of "Suc n" v' pc'] 3(2) by (simp add: loop1 step)
      qed
    qed
  qed
qed

lemma vm_ends_unique:
  assumes "vm_steps prog n c d" "stops prog d" "vm_steps prog m c d'" "stops prog d'"
  shows "n = m \<and> d = d'"
proof -
  have "n = m"
    using vm_steps_stop [OF assms(1,2,3)] vm_steps_stop [OF assms(3,4,1)] by simp
  then show ?thesis using vm_steps_det [OF assms(1)] assms(3) by simp
qed

lemma vm_loop_exit_iff:
  "snd (vm_loop prog limit v pc 0) = Inr x \<longleftrightarrow>
     (\<exists>n v' pc'. n < limit \<and> vm_steps prog n (v, pc) (v', pc') \<and> pc' < slots prog \<and> vm_step prog v' pc' = Exited x)"
  (is "?run \<longleftrightarrow> ?ends")
proof
  show ?ends if ?run
    using that by (cases rule: vm_loop_run [of 0 limit prog v pc]) auto
  assume ?ends
  then obtain n v' pc' where ends: "n < limit" "vm_steps prog n (v, pc) (v', pc')" "pc' < slots prog"
      "vm_step prog v' pc' = Exited x" by blast
  then have stop: "stops prog (v', pc')" by simp
  show ?run
  proof (cases rule: vm_loop_run [of 0 limit prog v pc])
    case (limit v1 pc1)
    then show ?thesis using vm_steps_stop [OF ends(2) stop] ends(1) by fastforce
  next
    case (exit m v1 pc1 y)
    then show ?thesis using vm_ends_unique [OF ends(2) stop exit(2)] ends(4) by simp
  next
    case (fail m v1 pc1 e)
    then show ?thesis using vm_ends_unique [OF ends(2) stop fail(2)] ends(4) by simp
  next
    case (ended m v1 pc1)
    then show ?thesis using vm_ends_unique [OF ends(2) stop ended(2)] ends(3) by simp
  qed
qed

lemma vm_loop_limit_iff:
  "snd (vm_loop prog limit v pc 0) = Inl InstructionLimitExceeded \<longleftrightarrow>
     (\<exists>v' pc'. vm_steps prog limit (v, pc) (v', pc') \<and> pc' < slots prog)" (is "?run \<longleftrightarrow> ?going")
proof
  show ?going if ?run
    using that by (cases rule: vm_loop_run [of 0 limit prog v pc]) auto
  assume ?going
  then obtain v' pc' where going: "vm_steps prog limit (v, pc) (v', pc')" "pc' < slots prog" by blast
  show ?run
  proof (cases rule: vm_loop_run [of 0 limit prog v pc])
    case (exit m v1 pc1 y)
    then show ?thesis using vm_steps_stop [OF exit(2) _ going(1)] by simp
  next
    case (fail m v1 pc1 e)
    then show ?thesis using vm_steps_stop [OF fail(2) _ going(1)] by simp
  next
    case (ended m v1 pc1)
    then have "m = limit" using vm_steps_stop [OF ended(2) _ going(1)] by simp
    then show ?thesis using vm_steps_det [OF going(1)] ended(2,3) going(2) by fastforce
  qed simp
qed

text \<open>
  C5. Running a program of whole slots always returns. It returns a value exactly when fewer
  instructions than the budget lead from the reset machine to an exit with that value; it reports
  the budget exactly when as many instructions as the budget leave the program still running.
\<close>

theorem run_with_initial_regs_spec:
  assumes "length prog mod SLOT_SIZE = 0"
  shows "(snd (run_with_initial_regs v prog initial) = Inr x \<longleftrightarrow>
      (\<exists>n v' pc'. n < vm_limit v \<and> vm_steps prog n (vm_reset v initial, 0) (v', pc')
        \<and> pc' < slots prog \<and> vm_step prog v' pc' = Exited x))
    \<and> (snd (run_with_initial_regs v prog initial) = Inl InstructionLimitExceeded \<longleftrightarrow>
      (\<exists>v' pc'. vm_steps prog (vm_limit v) (vm_reset v initial, 0) (v', pc') \<and> pc' < slots prog))"
  using assms by (simp add: run_with_initial_regs_def vm_loop_exit_iff vm_loop_limit_iff)

abbreviation (input) no_args :: initial_regs where
  "no_args \<equiv> \<lparr>ir1 = 0, ir2 = 0, ir3 = 0, ir4 = 0, ir5 = 0\<rparr>"

text \<open>A program that jumps to itself.\<close>

abbreviation (input) self_loop :: "u8 list" where
  "self_loop \<equiv> [OP_JA, 0, 0xff, 0xff, 0, 0, 0, 0]"

lemma self_loop_step: "vm_step self_loop v 0 = Continue v 0"
  by (simp add: vm_step_def read_insn_def insn_from_bytes_def exec_insn_def jump_target_def)

lemma self_loop_steps: "vm_steps self_loop n (v, 0) (v, 0)"
  by (induction n) (auto simp: vm_steps_0 vm_steps_Suc self_loop_step)

theorem run_with_initial_regs_spec_witness:
  "snd (run_with_initial_regs (vm_new 4096) self_loop no_args) = Inl InstructionLimitExceeded"
proof -
  have "\<exists>v' pc'. vm_steps self_loop (vm_limit (vm_new 4096)) (vm_reset (vm_new 4096) no_args, 0) (v', pc')
      \<and> pc' < slots self_loop"
    using self_loop_steps by (fastforce simp: slots_def)
  then show ?thesis
    using run_with_initial_regs_spec [of self_loop "vm_new 4096" no_args] by simp
qed

text \<open>
  C26. A run on a well-formed machine leaves it well formed and changes nothing of it but registers
  and the stack: the read-only memories, the helper table and the instruction budget are as before.
\<close>

theorem run_with_initial_regs_frame:
  assumes "vm_ok v" and "run_with_initial_regs v prog initial = (v', res)"
  shows "vm_ok v' \<and> v' = v\<lparr>vm_regs := vm_regs v', vm_stack := vm_stack v'\<rparr>"
proof (cases "length prog mod SLOT_SIZE = 0")
  case False
  then show ?thesis using assms by (simp add: run_with_initial_regs_def)
next
  case True
  have reset: "vm_frame v (vm_reset v initial)"
    using assms(1) by (simp add: vm_frame_def vm_reset_def vm_ok_def)
  have loop: "vm_loop prog (vm_limit v) (vm_reset v initial) 0 0 = (v', res)"
    using True assms(2) by (simp add: run_with_initial_regs_def)
  obtain n pc' where "vm_steps prog n (vm_reset v initial, 0) (v', pc')"
    using loop by (cases rule: vm_loop_run [of 0 "vm_limit v" prog "vm_reset v initial" 0]) auto
  then have "vm_frame (vm_reset v initial) v'"
    using vm_steps_frame [of prog n "(vm_reset v initial, 0)" "(v', pc')"] reset
    by (simp add: vm_frame_def)
  then have "vm_frame v v'" by (rule vm_frame_trans [OF reset])
  then show ?thesis by (simp only: vm_frame_def)
qed

theorem run_with_initial_regs_frame_witness:
  "vm_ok (fst (run_with_initial_regs (vm_new 4096) self_loop no_args))"
  using run_with_initial_regs_frame [OF vm_ok_new [of 4096] prod.collapse [symmetric]] by simp

end
