(* ===== verification/FdSlots.thy ===== *)
theory FdSlots
  imports Prelude
begin

text \<open>
  The numbered slot storage under the descriptor table, \<open>src/process/kfd/src/fd_slots.rs\<close>: an
  array of possibly uninitialised values, an occupancy bitmap of sixteen words, a lower bound on
  the free slots and a count. An uninitialised slot is \<open>None\<close>; removing a value leaves the array
  as it is and only clears the bit, as the code does. Dropping values has no effect here.
\<close>

unbundle bit_operations_syntax

section \<open>Bitmap searches\<close>

abbreviation (input) CAPACITY :: nat where "CAPACITY \<equiv> 1024"
abbreviation (input) WORD_BITS :: nat where "WORD_BITS \<equiv> 64"
abbreviation (input) WORDS :: nat where "WORDS \<equiv> 16"

definition low_bits :: "nat \<Rightarrow> u64" where
  "low_bits count = push_bit count 1 - 1"

text \<open>The loops of the searches, from the word index and the bits still to look at.\<close>

function scan_up :: "u64 list \<Rightarrow> nat \<Rightarrow> u64 \<Rightarrow> nat option" where
  "scan_up occupied word bits =
     (if bits \<noteq> 0 then Some (word * WORD_BITS + trailing_zeros bits)
      else if word + 1 \<ge> WORDS then None
      else scan_up occupied (word + 1) (occupied ! (word + 1)))"
  by pat_completeness auto
termination by (relation "measure (\<lambda>(occupied, word, bits). WORDS - word)") auto

fun scan_down :: "u64 list \<Rightarrow> nat \<Rightarrow> u64 \<Rightarrow> nat option" where
  "scan_down occupied 0 bits =
     (if bits \<noteq> 0 then Some (WORD_BITS - 1 - leading_zeros bits) else None)"
| "scan_down occupied (Suc word) bits =
     (if bits \<noteq> 0 then Some (Suc word * WORD_BITS + (WORD_BITS - 1 - leading_zeros bits))
      else scan_down occupied word (occupied ! word))"

function scan_free :: "u64 list \<Rightarrow> nat \<Rightarrow> nat \<Rightarrow> u64 \<Rightarrow> nat option" where
  "scan_free occupied limit word bits =
     (if bits \<noteq> - 1 then Some (word * WORD_BITS + trailing_zeros (NOT bits))
      else if (word + 1) * WORD_BITS \<ge> limit then None
      else scan_free occupied limit (word + 1) (occupied ! (word + 1)))"
  by pat_completeness auto
termination
  by (relation "measure (\<lambda>(occupied, limit, word, bits). limit - word * WORD_BITS)") auto

declare scan_up.simps [simp del] scan_free.simps [simp del]

definition assigned_at_or_after :: "u64 list \<Rightarrow> nat \<Rightarrow> nat option" where
  "assigned_at_or_after occupied from =
     (let word = from div WORD_BITS in
      if word \<ge> WORDS then None
      else scan_up occupied word (occupied ! word AND NOT (low_bits (from mod WORD_BITS))))"

definition assigned_at_or_before :: "u64 list \<Rightarrow> nat \<Rightarrow> nat option" where
  "assigned_at_or_before occupied from0 =
     (let from = min from0 (CAPACITY - 1); word = from div WORD_BITS in
      scan_down occupied word
        (occupied ! word AND drop_bit (WORD_BITS - 1 - from mod WORD_BITS) (- 1)))"

section \<open>The storage\<close>

record 'a file_slots =
  fs_slots :: "'a option list"
  fs_occupied :: "u64 list"
  fs_next_free :: nat
  fs_count :: nat

definition slots_new :: "'a file_slots" where
  "slots_new = \<lparr>fs_slots = replicate CAPACITY None, fs_occupied = replicate WORDS 0,
     fs_next_free = 0, fs_count = 0\<rparr>"

definition bit_is_set :: "'a file_slots \<Rightarrow> nat \<Rightarrow> bool" where
  "bit_is_set s n \<longleftrightarrow> fs_occupied s ! (n div WORD_BITS) AND push_bit (n mod WORD_BITS) 1 \<noteq> 0"

definition slot_set_bit :: "'a file_slots \<Rightarrow> nat \<Rightarrow> 'a file_slots" where
  "slot_set_bit s n = s\<lparr>fs_occupied := (fs_occupied s)[n div WORD_BITS :=
     fs_occupied s ! (n div WORD_BITS) OR push_bit (n mod WORD_BITS) 1]\<rparr>"

definition slot_clear_bit :: "'a file_slots \<Rightarrow> nat \<Rightarrow> 'a file_slots" where
  "slot_clear_bit s n = s\<lparr>fs_occupied := (fs_occupied s)[n div WORD_BITS :=
     fs_occupied s ! (n div WORD_BITS) AND NOT (push_bit (n mod WORD_BITS) 1)]\<rparr>"

definition is_assigned :: "'a file_slots \<Rightarrow> nat \<Rightarrow> bool" where
  "is_assigned s n \<longleftrightarrow> n < CAPACITY \<and> bit_is_set s n"

definition slot_get :: "'a file_slots \<Rightarrow> nat \<Rightarrow> 'a option" where
  "slot_get s n = (if is_assigned s n then fs_slots s ! n else None)"

text \<open>An update through the reference that \<open>get_mut\<close> returns.\<close>

definition slot_modify :: "'a file_slots \<Rightarrow> nat \<Rightarrow> ('a \<Rightarrow> 'a) \<Rightarrow> 'a file_slots option" where
  "slot_modify s n f =
     (if is_assigned s n then Some (s\<lparr>fs_slots := (fs_slots s)[n := map_option f (fs_slots s ! n)]\<rparr>)
      else None)"

definition place :: "'a file_slots \<Rightarrow> nat \<Rightarrow> 'a \<Rightarrow> 'a file_slots" where
  "place s n x = (let s = slot_set_bit (s\<lparr>fs_slots := (fs_slots s)[n := Some x]\<rparr>) n in
     s\<lparr>fs_count := fs_count s + 1\<rparr>)"

definition slot_alloc :: "'a file_slots \<Rightarrow> nat \<Rightarrow> nat \<Rightarrow> 'a \<Rightarrow> ('a file_slots \<times> nat) option" where
  "slot_alloc s minimum end0 x =
     (let limit = min end0 CAPACITY; bound = fs_next_free s; start = max minimum bound in
      if start \<ge> limit then None
      else
        let word = start div WORD_BITS in
        case scan_free (fs_occupied s) limit word
               (fs_occupied s ! word OR low_bits (start mod WORD_BITS)) of
          None \<Rightarrow> None
        | Some n \<Rightarrow>
            if n \<ge> limit then None
            else let s' = place s n x in
              Some (if start = bound then s'\<lparr>fs_next_free := n + 1\<rparr> else s', n))"

definition slot_add :: "'a file_slots \<Rightarrow> 'a \<Rightarrow> ('a file_slots \<times> nat) option" where
  "slot_add s x = slot_alloc s 0 CAPACITY x"

definition slot_add_at :: "'a file_slots \<Rightarrow> nat \<Rightarrow> 'a \<Rightarrow> 'a file_slots option" where
  "slot_add_at s n x =
     (if n \<ge> CAPACITY \<or> bit_is_set s n then None
      else let s' = place s n x in
        Some (if n = fs_next_free s' then s'\<lparr>fs_next_free := n + 1\<rparr> else s'))"

definition slot_remove :: "'a file_slots \<Rightarrow> nat \<Rightarrow> ('a file_slots \<times> 'a) option" where
  "slot_remove s n =
     (if \<not> is_assigned s n then None
      else let s' = slot_clear_bit s n; s' = s'\<lparr>fs_count := fs_count s' - 1\<rparr>;
               s' = (if n < fs_next_free s' then s'\<lparr>fs_next_free := n\<rparr> else s')
           in Some (s', the (fs_slots s' ! n)))"

definition slot_clear :: "'a file_slots \<Rightarrow> 'a file_slots" where
  "slot_clear s = s\<lparr>fs_occupied := replicate WORDS 0, fs_count := 0, fs_next_free := 0\<rparr>"

section \<open>Iteration over the assigned numbers\<close>

record occupied_ids =
  oi_occupied :: "u64 list"
  oi_front :: nat
  oi_back :: nat

definition ids_new :: "u64 list \<Rightarrow> occupied_ids" where
  "ids_new occupied = \<lparr>oi_occupied = occupied, oi_front = 0, oi_back = CAPACITY - 1\<rparr>"

definition ids_exhaust :: "occupied_ids \<Rightarrow> occupied_ids" where
  "ids_exhaust it = it\<lparr>oi_front := oi_back it + 1\<rparr>"

definition ids_next :: "occupied_ids \<Rightarrow> occupied_ids \<times> nat option" where
  "ids_next it =
     (if oi_front it > oi_back it then (it, None)
      else case assigned_at_or_after (oi_occupied it) (oi_front it) of
        Some n \<Rightarrow> if n \<le> oi_back it then (it\<lparr>oi_front := n + 1\<rparr>, Some n) else (ids_exhaust it, None)
      | None \<Rightarrow> (ids_exhaust it, None))"

definition ids_next_back :: "occupied_ids \<Rightarrow> occupied_ids \<times> nat option" where
  "ids_next_back it =
     (if oi_front it > oi_back it then (it, None)
      else case assigned_at_or_before (oi_occupied it) (oi_back it) of
        Some n \<Rightarrow>
          if n \<ge> oi_front it then
            (if n = 0 then it\<lparr>oi_front := 1\<rparr> else it\<lparr>oi_back := n - 1\<rparr>, Some n)
          else (ids_exhaust it, None)
      | None \<Rightarrow> (ids_exhaust it, None))"

definition slot_ids :: "'a file_slots \<Rightarrow> occupied_ids" where
  "slot_ids s = ids_new (fs_occupied s)"

section \<open>What the searches find\<close>

text \<open>Bit \<open>n\<close> of a bitmap.\<close>

definition occ_bit :: "u64 list \<Rightarrow> nat \<Rightarrow> bool" where
  "occ_bit occupied n = bit (occupied ! (n div WORD_BITS)) (n mod WORD_BITS)"

lemma low_bits_mask: "low_bits n = mask n"
  by (simp add: low_bits_def mask_eq_exp_minus_1 push_bit_eq_mult)

lemma bit_low_bits: "bit (low_bits n) i \<longleftrightarrow> i < n \<and> i < 64"
  by (auto simp: low_bits_mask bit_mask_iff)

lemma word_interval: "i div 64 = (w :: nat) \<longleftrightarrow> w * 64 \<le> i \<and> i < w * 64 + 64"
  by linarith

lemma word_first:
  assumes "(bits :: u64) \<noteq> 0" "\<And>i. i div 64 = w \<Longrightarrow> P i \<longleftrightarrow> bit bits (i mod 64)" "w * 64 + 64 \<le> hi"
  shows "is_first P (w * 64) hi (Some (w * 64 + trailing_zeros bits))"
proof -
  have tz: "trailing_zeros bits < 64" "bit bits (trailing_zeros bits)"
    using trailing_zeros_first(1,2) [OF assms(1)] by simp_all
  have "\<not> P j" if "w * 64 \<le> j" "j < w * 64 + trailing_zeros bits" for j
  proof -
    have "j div 64 = w" using that tz(1) by (simp add: word_interval)
    moreover from this have "j mod 64 < trailing_zeros bits" using that by (simp add: modulo_nat_def)
    ultimately show ?thesis using assms(2) trailing_zeros_first(3) [OF assms(1)] by simp
  qed
  moreover have "P (w * 64 + trailing_zeros bits)" using tz assms(2) [of "w * 64 + trailing_zeros bits"] by simp
  ultimately show ?thesis using tz(1) assms(3) unfolding is_first_def by simp
qed

lemma scan_up_first:
  assumes "w < WORDS" "\<And>i. i div 64 = w \<Longrightarrow> P i \<longleftrightarrow> bit bits (i mod 64)"
    "\<And>i. w < i div 64 \<Longrightarrow> P i \<longleftrightarrow> occ_bit occ i"
  shows "is_first P (w * 64) CAPACITY (scan_up occ w bits)"
  using assms
proof (induction occ w bits rule: scan_up.induct)
  case (1 occ w bits)
  show ?case
  proof (cases "bits = 0")
    case False
    then show ?thesis
      using word_first [of bits w P CAPACITY] 1(2,3) by (simp add: scan_up.simps [of occ w])
  next
    case True
    then have none: "\<not> P i" if "w * 64 \<le> i" "i < (w + 1) * 64" for i
      using that 1(3) [of i] by (simp add: word_interval)
    show ?thesis
    proof (cases "w + 1 \<ge> WORDS")
      case last: True
      then show ?thesis
        using True none by (simp add: scan_up.simps [of occ w] is_first_def)
    next
      case more: False
      have "is_first P ((w + 1) * 64) CAPACITY (scan_up occ (w + 1) (occ ! (w + 1)))"
        using True more 1(4) by (intro 1(1)) (auto simp: occ_bit_def)
      then show ?thesis
        using True more none by (auto simp: scan_up.simps [of occ w] intro: is_first_skip)
    qed
  qed
qed

lemma assigned_at_or_after_first: "is_first (occ_bit occ) from CAPACITY (assigned_at_or_after occ from)"
proof (cases "from div 64 \<ge> WORDS")
  case True
  then show ?thesis by (simp add: assigned_at_or_after_def is_first_def) linarith
next
  case False
  let ?w = "from div 64"
  have "is_first (\<lambda>i. from \<le> i \<and> occ_bit occ i) (?w * 64) CAPACITY (assigned_at_or_after occ from)"
  proof -
    have "from \<le> i \<longleftrightarrow> from mod 64 \<le> i mod 64" if "i div 64 = ?w" for i
      using that by (metis add_le_cancel_left mult_div_mod_eq)
    moreover have "from \<le> i" if "?w < i div 64" for i using that by linarith
    ultimately show ?thesis
      using False unfolding assigned_at_or_after_def Let_def
      by (simp, intro scan_up_first)
        (auto simp: occ_bit_def bit_and_iff bit_not_iff bit_low_bits bit_imp_le_length not_less)
  qed
  then show ?thesis by (cases "assigned_at_or_after occ from") (auto simp: is_first_def)
qed

lemma round_up:
  "w * 64 < limit \<Longrightarrow> w * 64 + 64 \<le> (limit + 63) div 64 * (64 :: nat)"
  "limit \<le> (w + 1) * 64 \<Longrightarrow> (limit + 63) div 64 * 64 \<le> (w + 1) * (64 :: nat)"
  "limit \<le> (limit + 63) div 64 * (64 :: nat)"
proof -
  assume "w * 64 < limit"
  then have "w + 1 \<le> (limit + 63) div 64" by (simp add: less_eq_div_iff_mult_less_eq)
  then show "w * 64 + 64 \<le> (limit + 63) div 64 * (64 :: nat)" by simp
next
  assume "limit \<le> (w + 1) * 64"
  then have "(limit + 63) div 64 < w + 2" by (intro less_mult_imp_div_less) simp
  then show "(limit + 63) div 64 * 64 \<le> (w + 1) * (64 :: nat)" by simp
next
  show "limit \<le> (limit + 63) div 64 * (64 :: nat)"
    using div_mult_mod_eq [of "limit + 63" 64] mod_less_divisor [of 64 "limit + 63"] by linarith
qed

lemma scan_free_first:
  assumes "w * 64 < limit" "\<And>i. i div 64 = w \<Longrightarrow> P i \<longleftrightarrow> \<not> bit bits (i mod 64)"
    "\<And>i. w < i div 64 \<Longrightarrow> P i \<longleftrightarrow> \<not> occ_bit occ i"
  shows "is_first P (w * 64) ((limit + 63) div 64 * 64) (scan_free occ limit w bits)"
  using assms
proof (induction occ limit w bits rule: scan_free.induct)
  case (1 occ limit w bits)
  have hi: "w * 64 + 64 \<le> (limit + 63) div 64 * 64" using 1(2) by (rule round_up(1))
  show ?case
  proof (cases "bits = - 1")
    case False
    then have "NOT bits \<noteq> 0" by (metis bit.compl_one bit.double_compl)
    moreover have "P i \<longleftrightarrow> bit (NOT bits) (i mod 64)" if "i div 64 = w" for i
      using 1(3) [OF that] by (simp add: bit_not_iff)
    ultimately show ?thesis
      using word_first [of "NOT bits" w P] hi False by (simp add: scan_free.simps [of occ limit w])
  next
    case True
    then have none: "\<not> P i" if "w * 64 \<le> i" "i < (w + 1) * 64" for i
      using that 1(3) [of i] by (simp add: word_interval bit_minus_1_iff)
    show ?thesis
    proof (cases "(w + 1) * 64 \<ge> limit")
      case last: True
      then have "(limit + 63) div 64 * 64 \<le> (w + 1) * 64" by (rule round_up(2))
      then show ?thesis
        using True last none by (simp add: scan_free.simps [of occ limit w] is_first_def)
    next
      case more: False
      have "is_first P ((w + 1) * 64) ((limit + 63) div 64 * 64) (scan_free occ limit (w + 1) (occ ! (w + 1)))"
        using True more 1(4) by (intro 1(1)) (auto simp: occ_bit_def)
      then show ?thesis
        using True more none by (auto simp: scan_free.simps [of occ limit w] intro: is_first_skip)
    qed
  qed
qed

text \<open>The search of \<open>alloc\<close>: the first free number from \<open>start\<close> on and below \<open>limit\<close>.\<close>

definition alloc_search :: "u64 list \<Rightarrow> nat \<Rightarrow> nat \<Rightarrow> nat option" where
  "alloc_search occ start limit =
     (case scan_free occ limit (start div 64) (occ ! (start div 64) OR low_bits (start mod 64)) of
        None \<Rightarrow> None | Some n \<Rightarrow> if n \<ge> limit then None else Some n)"

lemma alloc_search_first:
  assumes "start < limit"
  shows "is_first (\<lambda>i. \<not> occ_bit occ i) start limit (alloc_search occ start limit)"
proof -
  let ?w = "start div 64" and ?hi = "(limit + 63) div 64 * 64"
  let ?r = "scan_free occ limit ?w (occ ! ?w OR low_bits (start mod 64))"
  have "start \<le> i \<longleftrightarrow> start mod 64 \<le> i mod 64" if "i div 64 = ?w" for i
    using that by (metis add_le_cancel_left mult_div_mod_eq)
  moreover have "start \<le> i" if "?w < i div 64" for i using that by linarith
  ultimately have "is_first (\<lambda>i. start \<le> i \<and> \<not> occ_bit occ i) (?w * 64) ?hi ?r"
    using assms by (intro scan_free_first)
      (auto simp: occ_bit_def bit_or_iff bit_low_bits not_less intro: le_less_trans [OF div_times_less_eq_dividend])
  moreover have "limit \<le> ?hi" by (rule round_up(3))
  ultimately show ?thesis
    by (cases ?r) (auto simp: alloc_search_def is_first_def)
qed

definition is_last :: "(nat \<Rightarrow> bool) \<Rightarrow> nat \<Rightarrow> nat option \<Rightarrow> bool" where
  "is_last P hi r = (case r of
     Some i \<Rightarrow> i \<le> hi \<and> P i \<and> (\<forall>j. i < j \<and> j \<le> hi \<longrightarrow> \<not> P j)
   | None \<Rightarrow> \<forall>j. j \<le> hi \<longrightarrow> \<not> P j)"

lemma word_last:
  assumes "(bits :: u64) \<noteq> 0" "\<And>i. i div 64 = w \<Longrightarrow> P i \<longleftrightarrow> bit bits (i mod 64)"
  shows "is_last P (w * 64 + 63) (Some (w * 64 + (63 - leading_zeros bits)))"
proof -
  define k where "k = 63 - leading_zeros bits"
  have k: "k < 64" "bit bits k" "\<And>i. k < i \<Longrightarrow> \<not> bit bits i"
    using leading_zeros_last [OF assms(1)] by (simp_all add: k_def)
  have "\<not> P j" if "w * 64 + k < j" "j \<le> w * 64 + 63" for j
  proof -
    have "j div 64 = w" using that by (simp add: word_interval)
    moreover from this have "k < j mod 64" using that by (simp add: modulo_nat_def)
    ultimately show ?thesis using assms(2) k(3) by simp
  qed
  moreover have "P (w * 64 + k)" using k assms(2) [of "w * 64 + k"] by simp
  ultimately show ?thesis unfolding is_last_def using k(1) by (simp add: k_def [symmetric])
qed

lemma scan_down_last:
  assumes "\<And>i. i div 64 = w \<Longrightarrow> P i \<longleftrightarrow> bit bits (i mod 64)" "\<And>i. i div 64 < w \<Longrightarrow> P i \<longleftrightarrow> occ_bit occ i"
  shows "is_last P (w * 64 + 63) (scan_down occ w bits)"
  using assms
proof (induction occ w bits rule: scan_down.induct)
  case (1 occ bits)
  then show ?case
    using word_last [of bits 0 P] by (cases "bits = 0") (auto simp: is_last_def)
next
  case (2 occ w bits)
  show ?case
  proof (cases "bits = 0")
    case False
    then show ?thesis using word_last [of bits "Suc w" P] 2(2) by simp
  next
    case True
    then have none: "\<not> P i" if "w * 64 + 63 < i" "i \<le> Suc w * 64 + 63" for i
      using that 2(2) [of i] by (simp add: word_interval)
    have "is_last P (w * 64 + 63) (scan_down occ w (occ ! w))"
      using True 2(3) by (intro 2(1)) (auto simp: occ_bit_def)
    then show ?thesis
      using True none by (cases "scan_down occ w (occ ! w)") (auto simp: is_last_def, (metis linorder_not_le)+)
  qed
qed

lemma assigned_at_or_before_last:
  "is_last (occ_bit occ) (min from (CAPACITY - 1)) (assigned_at_or_before occ from)"
proof -
  define f where "f = min from (CAPACITY - 1)"
  have "i \<le> f \<longleftrightarrow> i mod 64 \<le> f mod 64" if "i div 64 = f div 64" for i
    using that by (metis add_le_cancel_left mult_div_mod_eq)
  moreover have "i \<le> f" if "i div 64 < f div 64" for i
    using that div_le_mono [of f i 64] by linarith
  ultimately have last: "is_last (\<lambda>i. i \<le> f \<and> occ_bit occ i) (f div 64 * 64 + 63) (assigned_at_or_before occ from)"
    unfolding assigned_at_or_before_def Let_def f_def [symmetric]
    by (intro scan_down_last)
      (simp_all add: occ_bit_def bit_and_iff bit_mask_iff less_Suc_eq_le min.strict_coboundedI1 conj_commute
        del: upt_Suc)
  have "f \<le> f div 64 * 64 + 63"
    using div_mult_mod_eq [of f 64] mod_less_divisor [of 64 f] by linarith
  with last show ?thesis
    unfolding f_def [symmetric] by (cases "assigned_at_or_before occ from") (auto simp: is_last_def)
qed

section \<open>Invariant and effect of the operations\<close>

text \<open>
  Every assigned slot is initialised, every number below the bound is assigned, and the count is
  the number of assigned slots.
\<close>

definition slots_ok :: "'a file_slots \<Rightarrow> bool" where
  "slots_ok s \<longleftrightarrow> length (fs_slots s) = CAPACITY \<and> length (fs_occupied s) = WORDS
     \<and> (\<forall>n < CAPACITY. occ_bit (fs_occupied s) n \<longrightarrow> fs_slots s ! n \<noteq> None)
     \<and> fs_next_free s \<le> CAPACITY \<and> (\<forall>n < fs_next_free s. occ_bit (fs_occupied s) n)
     \<and> fs_count s = card {n. n < CAPACITY \<and> occ_bit (fs_occupied s) n}"

lemma slots_ok_length: "slots_ok s \<Longrightarrow> length (fs_slots s) = CAPACITY"
  by (simp add: slots_ok_def)

lemma slots_ok_count: "slots_ok s \<Longrightarrow> fs_count s = card {n. n < CAPACITY \<and> occ_bit (fs_occupied s) n}"
  by (simp add: slots_ok_def)

lemma bit_is_set_occ: "bit_is_set s n = occ_bit (fs_occupied s) n"
  using and_exp_word [of "fs_occupied s ! (n div 64)" "n mod 64"]
  by (simp add: bit_is_set_def occ_bit_def push_bit_eq_mult linorder_not_le)

lemma is_assigned_occ: "is_assigned s n \<longleftrightarrow> n < CAPACITY \<and> occ_bit (fs_occupied s) n"
  by (simp add: is_assigned_def bit_is_set_occ)

lemma bit_exp_index: "bit (2 ^ (n mod 64) :: u64) j \<longleftrightarrow> j = n mod 64"
  by (auto simp: bit_exp_iff possible_bit_word)

lemma occ_bit_update:
  assumes "n < CAPACITY" "length occ = WORDS"
  shows "occ_bit (occ[n div 64 := w]) m = (if m div 64 = n div 64 then bit w (m mod 64) else occ_bit occ m)"
proof -
  have "n div 64 < 16" using assms(1) by (simp add: less_mult_imp_div_less)
  then show ?thesis using assms(2) by (simp add: occ_bit_def)
qed

lemma same_index: "m div 64 = n div (64 :: nat) \<Longrightarrow> m mod 64 = n mod 64 \<longleftrightarrow> m = n"
  by (metis div_mult_mod_eq)

lemma occ_bit_set:
  assumes "n < CAPACITY" "length (fs_occupied s) = WORDS"
  shows "occ_bit (fs_occupied (slot_set_bit s n)) m \<longleftrightarrow> m = n \<or> occ_bit (fs_occupied s) m"
proof -
  have "occ_bit (fs_occupied (slot_set_bit s n)) m = (if m div 64 = n div 64
      then bit (fs_occupied s ! (n div 64) OR 2 ^ (n mod 64)) (m mod 64) else occ_bit (fs_occupied s) m)"
    by (simp add: slot_set_bit_def occ_bit_update [OF assms])
  then show ?thesis using same_index [of m n] by (auto simp: occ_bit_def bit_or_iff bit_exp_index)
qed

lemma occ_bit_clear:
  assumes "n < CAPACITY" "length (fs_occupied s) = WORDS"
  shows "occ_bit (fs_occupied (slot_clear_bit s n)) m \<longleftrightarrow> m \<noteq> n \<and> occ_bit (fs_occupied s) m"
proof -
  have "occ_bit (fs_occupied (slot_clear_bit s n)) m = (if m div 64 = n div 64
      then bit (fs_occupied s ! (n div 64) AND NOT (2 ^ (n mod 64))) (m mod 64) else occ_bit (fs_occupied s) m)"
    by (simp add: slot_clear_bit_def occ_bit_update [OF assms])
  then show ?thesis
    using same_index [of m n] by (auto simp: occ_bit_def bit_and_iff bit_not_iff bit_exp_index)
qed

text \<open>What writing and marking a free slot, and clearing an assigned one, do to a well-formed storage.\<close>

lemma place_effect:
  assumes "slots_ok s" "n < CAPACITY" "\<not> occ_bit (fs_occupied s) n"
  shows "slots_ok (place s n x)" "slot_get (place s n x) = (slot_get s)(n \<mapsto> x)"
    and "fs_next_free (place s n x) = fs_next_free s"
    and "occ_bit (fs_occupied (place s n x)) m \<longleftrightarrow> m = n \<or> occ_bit (fs_occupied s) m"
proof -
  let ?s = "s\<lparr>fs_slots := (fs_slots s)[n := Some x]\<rparr>"
  have occ: "occ_bit (fs_occupied (place s n x)) m \<longleftrightarrow> m = n \<or> occ_bit (fs_occupied s) m" for m
    using occ_bit_set [of n ?s m] assms(1,2) by (simp add: place_def Let_def slots_ok_def)
  then show "occ_bit (fs_occupied (place s n x)) m \<longleftrightarrow> m = n \<or> occ_bit (fs_occupied s) m" .
  have fields: "fs_slots (place s n x) = (fs_slots s)[n := Some x]" "fs_count (place s n x) = fs_count s + 1"
      "fs_next_free (place s n x) = fs_next_free s" "length (fs_occupied (place s n x)) = length (fs_occupied s)"
    by (simp_all add: place_def slot_set_bit_def Let_def)
  then show "fs_next_free (place s n x) = fs_next_free s" by simp
  have "{m. m < CAPACITY \<and> occ_bit (fs_occupied (place s n x)) m} =
      insert n {m. m < CAPACITY \<and> occ_bit (fs_occupied s) m}"
    using assms(2) by (auto simp: occ)
  then show "slots_ok (place s n x)"
    using assms by (auto simp: slots_ok_def fields occ nth_list_update)
  show "slot_get (place s n x) = (slot_get s)(n \<mapsto> x)"
    using assms(1,2) by (auto simp: slot_get_def is_assigned_occ fields occ slots_ok_def)
qed

lemma clear_effect:
  assumes "slots_ok s" "n < CAPACITY" "occ_bit (fs_occupied s) n"
    and "s' = (slot_clear_bit s n)\<lparr>fs_count := fs_count s - 1, fs_next_free := min n (fs_next_free s)\<rparr>"
  shows "slots_ok s'" "slot_get s' = (slot_get s)(n := None)"
proof -
  have occ: "occ_bit (fs_occupied s') m \<longleftrightarrow> m \<noteq> n \<and> occ_bit (fs_occupied s) m" for m
    using occ_bit_clear [of n s m] assms by (simp add: slots_ok_def)
  have fields: "fs_slots s' = fs_slots s" "length (fs_occupied s') = length (fs_occupied s)"
      "fs_next_free s' = min n (fs_next_free s)" "fs_count s' = fs_count s - 1"
    using assms(4) by (simp_all add: slot_clear_bit_def)
  have "{m. m < CAPACITY \<and> occ_bit (fs_occupied s') m} =
      {m. m < CAPACITY \<and> occ_bit (fs_occupied s) m} - {n}"
    by (auto simp: occ)
  then have "fs_count s' = card {m. m < CAPACITY \<and> occ_bit (fs_occupied s') m}"
    using assms(1,2,3) by (simp add: slots_ok_def fields)
  then show "slots_ok s'"
    using assms(1,2,3) occ by (auto simp: slots_ok_def fields)
  show "slot_get s' = (slot_get s)(n := None)"
    by (auto simp: slot_get_def is_assigned_occ fields occ)
qed

lemma slot_get_None: "slots_ok s \<Longrightarrow> n < CAPACITY \<Longrightarrow> slot_get s n = None \<longleftrightarrow> \<not> occ_bit (fs_occupied s) n"
  by (auto simp: slot_get_def is_assigned_occ slots_ok_def)

lemma slots_ok_new: "slots_ok slots_new"
proof -
  have "\<not> occ_bit (replicate 16 0) n" if "n < CAPACITY" for n
    using that less_mult_imp_div_less [of n 16 64] by (simp add: occ_bit_def)
  then show ?thesis by (simp add: slots_ok_def slots_new_def)
qed

lemma slot_get_new: "slot_get slots_new = (\<lambda>_. None)"
  by (auto simp: slot_get_def slots_new_def is_assigned_def fun_eq_iff)

lemma slot_alloc_search:
  "slot_alloc s lo hi x =
     (let limit = min hi CAPACITY; start = max lo (fs_next_free s) in
      if start \<ge> limit then None
      else case alloc_search (fs_occupied s) start limit of
        None \<Rightarrow> None
      | Some n \<Rightarrow> Some (if start = fs_next_free s then (place s n x)\<lparr>fs_next_free := n + 1\<rparr>
                        else place s n x, n))"
  unfolding slot_alloc_def alloc_search_def Let_def by (auto split: option.splits)

lemma slot_alloc_effect:
  assumes "slots_ok s"
  shows "case slot_alloc s lo hi x of
      Some (s', n) \<Rightarrow> slots_ok s' \<and> find (\<lambda>i. slot_get s i = None) [lo..<min hi CAPACITY] = Some n
        \<and> slot_get s' = (slot_get s)(n \<mapsto> x)
    | None \<Rightarrow> find (\<lambda>i. slot_get s i = None) [lo..<min hi CAPACITY] = None"
proof -
  define limit where "limit = min hi CAPACITY"
  define start where "start = max lo (fs_next_free s)"
  let ?free = "\<lambda>i. \<not> occ_bit (fs_occupied s) i"
  have below: "\<not> ?free i" if "lo \<le> i" "i < start" for i
    using assms that by (auto simp: slots_ok_def start_def)
  have conv: "find (\<lambda>i. slot_get s i = None) [lo..<limit] = r" if "is_first ?free lo limit r" for r
  proof (rule is_first_unique [OF is_first_find])
    show "is_first (\<lambda>i. slot_get s i = None) lo limit r"
      using that slot_get_None [OF assms] by (subst is_first_cong [of _ _ _ ?free]) (auto simp: limit_def)
  qed
  show ?thesis
  proof (cases "start \<ge> limit")
    case True
    then have "is_first ?free lo limit None" using below by (auto simp: is_first_def)
    then show ?thesis
      using True conv by (simp add: slot_alloc_search Let_def limit_def start_def)
  next
    case False
    let ?r = "alloc_search (fs_occupied s) start limit"
    have first: "is_first ?free start limit ?r" using alloc_search_first False by simp
    then have find: "find (\<lambda>i. slot_get s i = None) [lo..<limit] = ?r"
      using below by (intro conv is_first_skip [OF first]) (auto simp: start_def)
    show ?thesis
    proof (cases ?r)
      case None
      then show ?thesis using False find by (simp add: slot_alloc_search Let_def limit_def start_def)
    next
      case (Some n)
      then have n: "start \<le> n" "n < CAPACITY" "?free n" "\<forall>j. start \<le> j \<and> j < n \<longrightarrow> \<not> ?free j"
        using first by (auto simp: is_first_def limit_def)
      note placed = place_effect [OF assms n(2,3), of x]
      have "slots_ok ((place s n x)\<lparr>fs_next_free := n + 1\<rparr>)" if "start = fs_next_free s"
        using placed(1) n below that assms
        by (auto simp: slots_ok_def placed(4) less_Suc_eq) (meson linorder_not_le)
      moreover have "slot_get ((place s n x)\<lparr>fs_next_free := n + 1\<rparr>) = slot_get (place s n x)"
        by (auto simp: slot_get_def is_assigned_occ)
      ultimately show ?thesis
        using False find Some placed(1,2) by (auto simp: slot_alloc_search Let_def limit_def start_def)
    qed
  qed
qed

lemma slot_add_at_effect:
  assumes "slots_ok s"
  shows "case slot_add_at s n x of
      Some s' \<Rightarrow> slots_ok s' \<and> n < CAPACITY \<and> slot_get s n = None \<and> slot_get s' = (slot_get s)(n \<mapsto> x)
    | None \<Rightarrow> n \<ge> CAPACITY \<or> slot_get s n \<noteq> None"
proof (cases "n < CAPACITY \<and> \<not> occ_bit (fs_occupied s) n")
  case True
  note placed = place_effect [OF assms, of n x]
  have "slots_ok ((place s n x)\<lparr>fs_next_free := n + 1\<rparr>)" if "n = fs_next_free s"
    using placed that True assms by (auto simp: slots_ok_def less_Suc_eq)
  moreover have "slot_get ((place s n x)\<lparr>fs_next_free := n + 1\<rparr>) = slot_get (place s n x)"
    by (auto simp: slot_get_def is_assigned_occ)
  ultimately show ?thesis
    using True placed(1,2,3) slot_get_None [OF assms] by (auto simp: slot_add_at_def bit_is_set_occ Let_def)
next
  case False
  then show ?thesis
    using slot_get_None [OF assms, of n]
    by (cases "n < CAPACITY") (auto simp: slot_add_at_def bit_is_set_occ linorder_not_less)
qed

lemma slot_remove_effect:
  assumes "slots_ok s"
  shows "case slot_remove s n of
      Some (s', x) \<Rightarrow> slots_ok s' \<and> slot_get s n = Some x \<and> slot_get s' = (slot_get s)(n := None)
    | None \<Rightarrow> slot_get s n = None"
proof (cases "is_assigned s n")
  case True
  then have n: "n < CAPACITY" "occ_bit (fs_occupied s) n" by (simp_all add: is_assigned_occ)
  let ?s = "(slot_clear_bit s n)\<lparr>fs_count := fs_count s - 1, fs_next_free := min n (fs_next_free s)\<rparr>"
  have "slot_remove s n = Some (?s, the (fs_slots s ! n))"
    using True by (auto simp: slot_remove_def Let_def slot_clear_bit_def min_def)
  moreover have "slot_get s n = Some (the (fs_slots s ! n))"
    using True n assms by (auto simp: slot_get_def slots_ok_def)
  ultimately show ?thesis using clear_effect [OF assms n refl] by simp
next
  case False
  then show ?thesis by (simp add: slot_remove_def slot_get_def)
qed

lemma slot_modify_effect:
  assumes "slots_ok s"
  shows "case slot_modify s n f of
      Some s' \<Rightarrow> slots_ok s' \<and> slot_get s n \<noteq> None \<and> slot_get s' = (slot_get s)(n := map_option f (slot_get s n))
    | None \<Rightarrow> slot_get s n = None"
proof (cases "is_assigned s n")
  case True
  then have "slot_get s n \<noteq> None" using slot_get_None [OF assms] by (simp add: is_assigned_occ)
  with True assms show ?thesis
    by (auto simp: slot_modify_def slots_ok_def slot_get_def is_assigned_occ nth_list_update)
next
  case False
  then show ?thesis by (simp add: slot_modify_def slot_get_def)
qed

section \<open>Iteration and copying\<close>

lemma ids_next_Some:
  assumes "ids_next it = (it', Some n)"
  shows "oi_front it \<le> n" "n \<le> oi_back it" "it' = it\<lparr>oi_front := n + 1\<rparr>" "n < CAPACITY"
    "occ_bit (oi_occupied it) n" "oi_front it \<le> j \<Longrightarrow> j < n \<Longrightarrow> \<not> occ_bit (oi_occupied it) j"
  using assms assigned_at_or_after_first [of "oi_occupied it" "oi_front it"]
  by (auto simp: ids_next_def is_first_def split: if_splits option.splits)

lemma ids_next_None:
  assumes "ids_next it = (it', None)" "oi_front it \<le> j" "j \<le> oi_back it" "j < CAPACITY"
  shows "\<not> occ_bit (oi_occupied it) j"
  using assms assigned_at_or_after_first [of "oi_occupied it" "oi_front it"]
  by (auto simp: ids_next_def is_first_def split: if_splits option.splits)

lemma ids_next_less:
  assumes "(it', Some n) = ids_next it"
  shows "Suc (oi_back it') - oi_front it' < Suc (oi_back it) - oi_front it"
  using ids_next_Some [OF assms [symmetric]] by auto

text \<open>Running the iterator from the front to its end, as \<open>for\<close> and \<open>collect\<close> do.\<close>

function ids_collect :: "occupied_ids \<Rightarrow> nat list" where
  "ids_collect it =
     (case ids_next it of
        (it', Some n) \<Rightarrow> n # ids_collect it'
      | (it', None) \<Rightarrow> [])"
  by pat_completeness auto
termination
  by (relation "measure (\<lambda>it. oi_back it + 1 - oi_front it)") (auto dest: ids_next_less)

declare ids_collect.simps [simp del]

lemma filter_upt_Cons:
  assumes "lo \<le> n" "n < hi" "P n" "\<And>j. lo \<le> j \<Longrightarrow> j < n \<Longrightarrow> \<not> P j"
  shows "filter P [lo..<hi] = n # filter P [Suc n..<hi]"
proof -
  have "[lo..<hi] = [lo..<n] @ n # [Suc n..<hi]"
    using assms(1,2) by (metis le_add_diff_inverse less_imp_le_nat upt_add_eq_append upt_conv_Cons)
  moreover have "filter P [lo..<n] = []" using assms(4) by (simp add: filter_empty_conv)
  ultimately show ?thesis using assms(3) by simp
qed

lemma ids_collect_filter:
  assumes "oi_back it < CAPACITY"
  shows "ids_collect it = filter (occ_bit (oi_occupied it)) [oi_front it..<oi_back it + 1]"
  using assms
proof (induction it rule: ids_collect.induct)
  case (1 it)
  obtain it' r where nx: "ids_next it = (it', r)" by force
  show ?case
  proof (cases r)
    case None
    then have "\<not> occ_bit (oi_occupied it) j" if "oi_front it \<le> j" "j \<le> oi_back it" for j
      using ids_next_None [of it it' j] nx that 1(2) by simp
    then have "filter (occ_bit (oi_occupied it)) [oi_front it..<oi_back it + 1] = []"
      by (auto simp: filter_empty_conv)
    then show ?thesis using nx None by (simp add: ids_collect.simps [of it])
  next
    case (Some n)
    note n = ids_next_Some [OF nx [unfolded Some]]
    have "ids_collect it' = filter (occ_bit (oi_occupied it')) [oi_front it'..<oi_back it' + 1]"
      by (rule 1(1) [OF nx [symmetric] Some]) (use n(3) 1(2) in simp)
    then show ?thesis
      using n filter_upt_Cons [of "oi_front it" n "oi_back it + 1" "occ_bit (oi_occupied it)"]
      by (simp add: ids_collect.simps [of it] nx Some del: upt_Suc)
  qed
qed

lemma slot_ids_collect: "ids_collect (slot_ids s) = filter (is_assigned s) [0..<CAPACITY]"
proof -
  have "filter (occ_bit (fs_occupied s)) [0..<CAPACITY] = filter (is_assigned s) [0..<CAPACITY]"
    by (rule filter_cong) (auto simp: is_assigned_occ)
  then show ?thesis by (simp add: ids_collect_filter slot_ids_def ids_new_def)
qed

definition slot_clone_from :: "'a file_slots \<Rightarrow> 'a file_slots \<Rightarrow> 'a file_slots" where
  "slot_clone_from s other =
     (let s = slot_clear s;
          vs = fold (\<lambda>n vs. case slot_get other n of Some x \<Rightarrow> vs[n := Some x] | None \<Rightarrow> vs)
            (ids_collect (slot_ids other)) (fs_slots s)
      in \<lparr>fs_slots = vs, fs_occupied = fs_occupied other,
          fs_next_free = fs_next_free other, fs_count = fs_count other\<rparr>)"

lemma fold_copy:
  assumes "\<forall>n \<in> set ns. n < length vs"
  shows "length (fold (\<lambda>n vs. case get n of Some x \<Rightarrow> vs[n := Some x] | None \<Rightarrow> vs) ns vs) = length vs"
    and "i < length vs \<Longrightarrow> fold (\<lambda>n vs. case get n of Some x \<Rightarrow> vs[n := Some x] | None \<Rightarrow> vs) ns vs ! i
      = (if i \<in> set ns \<and> get i \<noteq> None then get i else vs ! i)"
  using assms by (induction ns arbitrary: vs) (auto simp: nth_list_update split: option.splits)

lemma slot_clone_from_effect:
  assumes "slots_ok other" "length (fs_slots s) = CAPACITY"
  shows "slots_ok (slot_clone_from s other)" "slot_get (slot_clone_from s other) = slot_get other"
proof -
  let ?c = "slot_clone_from s other" and ?ids = "ids_collect (slot_ids other)"
  have ids: "\<forall>n \<in> set ?ids. n < length (fs_slots (slot_clear s))"
    using assms(2) by (auto simp: slot_ids_collect slot_clear_def)
  have len: "length (fs_slots ?c) = CAPACITY"
    using fold_copy(1) [OF ids, of "slot_get other"] assms(2)
    by (simp add: slot_clone_from_def Let_def slot_clear_def)
  have vals: "fs_slots ?c ! n = slot_get other n" if "is_assigned other n" for n
  proof -
    have "slot_get other n \<noteq> None" "n < CAPACITY"
      using slot_get_None [OF assms(1), of n] that by (simp_all add: is_assigned_occ)
    then show ?thesis
      using fold_copy(2) [OF ids, of n "slot_get other"] that assms(2)
      by (simp add: slot_clone_from_def Let_def slot_clear_def slot_ids_collect)
  qed
  have fields: "fs_occupied ?c = fs_occupied other" "fs_next_free ?c = fs_next_free other"
      "fs_count ?c = fs_count other"
    by (simp_all add: slot_clone_from_def Let_def)
  then have "is_assigned ?c n = is_assigned other n" for n by (simp add: is_assigned_occ)
  then show "slot_get ?c = slot_get other"
    using vals by (auto simp: slot_get_def)
  have "fs_slots ?c ! n \<noteq> None" if "n < CAPACITY" "occ_bit (fs_occupied other) n" for n
    using vals [of n] that slot_get_None [OF assms(1), of n] by (simp add: is_assigned_occ)
  then show "slots_ok ?c"
    using assms(1) len unfolding slots_ok_def fields by simp
qed

section \<open>The storage as a table interface\<close>

text \<open>
  What the descriptor table relies on: a partial map from numbers below the capacity, allocation of
  the lowest free number of a range, insertion at a free number, removal and update in place.
\<close>

text \<open>The removal and update loops of the table, over the table's own operations.\<close>

fun remove_each :: "('s \<Rightarrow> nat \<Rightarrow> ('s \<times> 'a) option) \<Rightarrow> nat list \<Rightarrow> 's \<Rightarrow> 's \<times> 'a list" where
  "remove_each rm [] s = (s, [])"
| "remove_each rm (n # ns) s =
     (case rm s n of
        None \<Rightarrow> remove_each rm ns s
      | Some (s', x) \<Rightarrow> (case remove_each rm ns s' of (s'', xs) \<Rightarrow> (s'', x # xs)))"

fun modify_each :: "('s \<Rightarrow> nat \<Rightarrow> ('a \<Rightarrow> 'a) \<Rightarrow> 's option) \<Rightarrow> ('a \<Rightarrow> 'a) \<Rightarrow> nat list \<Rightarrow> 's \<Rightarrow> 's" where
  "modify_each md f [] s = s"
| "modify_each md f (n # ns) s =
     (case md s n f of None \<Rightarrow> modify_each md f ns s | Some s' \<Rightarrow> modify_each md f ns s')"

locale slot_table =
  fixes ok :: "'s \<Rightarrow> bool"
    and capacity :: nat
    and get :: "'s \<Rightarrow> nat \<Rightarrow> 'a option"
    and alloc :: "'s \<Rightarrow> nat \<Rightarrow> nat \<Rightarrow> 'a \<Rightarrow> ('s \<times> nat) option"
    and add_at :: "'s \<Rightarrow> nat \<Rightarrow> 'a \<Rightarrow> 's option"
    and rm :: "'s \<Rightarrow> nat \<Rightarrow> ('s \<times> 'a) option"
    and md :: "'s \<Rightarrow> nat \<Rightarrow> ('a \<Rightarrow> 'a) \<Rightarrow> 's option"
  assumes get_bound: "get s n \<noteq> None \<Longrightarrow> n < capacity"
    and alloc_law: "ok s \<Longrightarrow> case alloc s lo hi x of
        Some (s', n) \<Rightarrow> ok s' \<and> find (\<lambda>i. get s i = None) [lo..<min hi capacity] = Some n
          \<and> get s' = (get s)(n \<mapsto> x)
      | None \<Rightarrow> find (\<lambda>i. get s i = None) [lo..<min hi capacity] = None"
    and add_at_law: "ok s \<Longrightarrow> case add_at s n x of
        Some s' \<Rightarrow> ok s' \<and> n < capacity \<and> get s n = None \<and> get s' = (get s)(n \<mapsto> x)
      | None \<Rightarrow> n \<ge> capacity \<or> get s n \<noteq> None"
    and rm_law: "ok s \<Longrightarrow> case rm s n of
        Some (s', x) \<Rightarrow> ok s' \<and> get s n = Some x \<and> get s' = (get s)(n := None)
      | None \<Rightarrow> get s n = None"
    and md_law: "ok s \<Longrightarrow> case md s n f of
        Some s' \<Rightarrow> ok s' \<and> get s n \<noteq> None \<and> get s' = (get s)(n := map_option f (get s n))
      | None \<Rightarrow> get s n = None"
begin

lemma alloc_SomeD:
  assumes "ok s" "alloc s lo hi x = Some (s', n)"
  shows "ok s'" "get s' = (get s)(n \<mapsto> x)" "lo \<le> n" "n < hi" "n < capacity" "get s n = None"
    and "lo \<le> j \<Longrightarrow> j < n \<Longrightarrow> get s j \<noteq> None"
proof -
  have law: "ok s'" "find (\<lambda>i. get s i = None) [lo..<min hi capacity] = Some n" "get s' = (get s)(n \<mapsto> x)"
    using alloc_law [OF assms(1), of lo hi x] assms(2) by auto
  then have "is_first (\<lambda>i. get s i = None) lo (min hi capacity) (Some n)"
    using is_first_find [of "\<lambda>i. get s i = None" lo "min hi capacity"] by simp
  then show "ok s'" "get s' = (get s)(n \<mapsto> x)" "lo \<le> n" "n < hi" "n < capacity" "get s n = None"
      "lo \<le> j \<Longrightarrow> j < n \<Longrightarrow> get s j \<noteq> None"
    using law by (auto simp: is_first_def)
qed

lemma alloc_NoneD:
  assumes "ok s" "alloc s lo hi x = None" "lo \<le> j" "j < hi" "j < capacity"
  shows "get s j \<noteq> None"
  using alloc_law [OF assms(1), of lo hi x] assms(2-5) by (auto simp: find_None_iff)

text \<open>Replacing whatever a number holds always succeeds within the capacity.\<close>

lemma replace:
  assumes "ok s" "n < capacity"
  obtains s' where "add_at (case rm s n of Some (s1, _) \<Rightarrow> s1 | None \<Rightarrow> s) n x = Some s'"
    "ok s'" "get s' = (get s)(n \<mapsto> x)" "map_option snd (rm s n) = get s n"
proof -
  define s1 where "s1 = (case rm s n of Some (s1, _) \<Rightarrow> s1 | None \<Rightarrow> s)"
  have s1: "ok s1" "get s1 = (get s)(n := None)" "map_option snd (rm s n) = get s n"
    using rm_law [OF assms(1), of n] assms(1) by (auto simp: s1_def fun_upd_idem split: option.splits)
  obtain s' where "add_at s1 n x = Some s'" "ok s'" "get s' = (get s1)(n \<mapsto> x)"
    using add_at_law [OF s1(1), of n x] s1(2) assms(2) by (cases "add_at s1 n x") auto
  then show ?thesis using that s1 by (simp add: s1_def)
qed

lemma remove_each_law:
  assumes "ok s" "distinct ns" "remove_each rm ns s = (s', xs)"
  shows "ok s' \<and> get s' = (\<lambda>n. if n \<in> set ns then None else get s n)
    \<and> map Some xs = filter (\<lambda>v. v \<noteq> None) (map (get s) ns)"
  using assms
proof (induction ns arbitrary: s xs)
  case (Cons n ns)
  show ?case
  proof (cases "rm s n")
    case None
    then show ?thesis using Cons rm_law [OF Cons.prems(1), of n] by auto
  next
    case (Some p)
    obtain s1 x where p: "p = (s1, x)" by force
    with Some have s1: "ok s1" "get s n = Some x" "get s1 = (get s)(n := None)"
      using rm_law [OF Cons.prems(1), of n] by auto
    obtain xs1 where xs: "remove_each rm ns s1 = (s', xs1)" "xs = x # xs1"
      using Cons.prems(3) Some p by (auto split: prod.splits)
    have eq: "map (get s1) ns = map (get s) ns" using s1(3) Cons.prems(2) by auto
    have "ok s'" "get s' = (\<lambda>n. if n \<in> set ns then None else get s1 n)"
        "map Some xs1 = filter (\<lambda>v. v \<noteq> None) (map (get s) ns)"
      using Cons.IH [OF s1(1) _ xs(1)] Cons.prems(2) unfolding eq by simp_all
    then show ?thesis using s1(2,3) xs(2) by auto
  qed
qed auto

lemma modify_each_law:
  assumes "ok s" "distinct ns"
  shows "ok (modify_each md f ns s) \<and> get (modify_each md f ns s)
    = (\<lambda>n. if n \<in> set ns then map_option f (get s n) else get s n)"
  using assms
proof (induction ns arbitrary: s)
  case (Cons n ns)
  show ?case
  proof (cases "md s n f")
    case None
    then have "get s n = None" using md_law [OF Cons.prems(1), of n f] by simp
    moreover have "ok (modify_each md f ns s)"
        "get (modify_each md f ns s) = (\<lambda>n. if n \<in> set ns then map_option f (get s n) else get s n)"
      using Cons.IH [OF Cons.prems(1)] Cons.prems(2) by simp_all
    ultimately show ?thesis using None by (auto simp: fun_eq_iff)
  next
    case (Some s1)
    then have s1: "ok s1" "get s1 = (get s)(n := map_option f (get s n))"
      using md_law [OF Cons.prems(1), of n f] by auto
    then have "ok (modify_each md f ns s1)"
        "get (modify_each md f ns s1) = (\<lambda>n. if n \<in> set ns then map_option f (get s1 n) else get s1 n)"
      using Cons.IH [OF s1(1)] Cons.prems(2) by simp_all
    then show ?thesis using Some Cons.prems(2) s1(2) by (auto simp: fun_eq_iff)
  qed
qed auto

end

interpretation file_slots: slot_table slots_ok CAPACITY slot_get slot_alloc slot_add_at slot_remove slot_modify
  by unfold_locales
    (auto simp: slot_get_def is_assigned_def slot_alloc_effect slot_add_at_effect slot_remove_effect
      slot_modify_effect split: if_splits)

end
