(* ===== verification/FdTable.thy ===== *)
theory FdTable
  imports FdSlots KErrno
begin

text \<open>
  The descriptor table of \<open>src/process/kfd/src/fd_table.rs\<close> and its entries
  (\<open>file_descriptor.rs\<close>), over the slot storage of \<open>FdSlots\<close>. An open file is a value of an
  arbitrary type, so sharing one between descriptors is having the same value twice. Descriptor
  numbers are the signed 32-bit integers of the calls; \<open>as_usize\<close> is the cast to an index, which
  sends a negative number far beyond the capacity. Closing the removed files is left to the
  caller, as in the code; the teardown in \<open>Drop\<close> returns the descriptors in the order it closes
  them.
\<close>

section \<open>Entries and lookups\<close>

record 'f file_descriptor =
  fd_file :: 'f
  fd_cloexec :: bool

type_synonym 'f fd_table = "'f file_descriptor file_slots"

abbreviation (input) descriptor :: "'f \<Rightarrow> bool \<Rightarrow> 'f file_descriptor" where
  "descriptor file cloexec \<equiv> \<lparr>fd_file = file, fd_cloexec = cloexec\<rparr>"

definition as_usize :: "int \<Rightarrow> nat" where
  "as_usize fd = nat (fd mod 2 ^ 64)"

definition fd_default :: "'f fd_table" where
  "fd_default = slots_new"

definition fd_clone_shared_from :: "'f fd_table \<Rightarrow> 'f fd_table" where
  "fd_clone_shared_from source = slot_clone_from fd_default source"

definition fd_count :: "'f fd_table \<Rightarrow> nat" where
  "fd_count t = fs_count t"

definition fd_get_file :: "'f fd_table \<Rightarrow> int \<Rightarrow> kerror + 'f" where
  "fd_get_file t fd =
     (case slot_get t (as_usize fd) of
        Some d \<Rightarrow> Inr (fd_file d) | None \<Rightarrow> Inl (kerror_new_ax BadFileDescriptor))"

definition fd_get_cloexec :: "'f fd_table \<Rightarrow> int \<Rightarrow> kerror + bool" where
  "fd_get_cloexec t fd =
     (case slot_get t (as_usize fd) of
        Some d \<Rightarrow> Inr (fd_cloexec d) | None \<Rightarrow> Inl (kerror_new_ax BadFileDescriptor))"

section \<open>Operations\<close>

definition allocate_descriptor ::
  "'f fd_table \<Rightarrow> nat \<Rightarrow> nat \<Rightarrow> 'f file_descriptor \<Rightarrow> 'f fd_table \<times> (kerror + int)" where
  "allocate_descriptor t minimum max_nofile d =
     (case slot_alloc t minimum (min max_nofile CAPACITY) d of
        Some (t', n) \<Rightarrow> (t', Inr (int n))
      | None \<Rightarrow> (t, Inl (kerror_new_ax TooManyOpenFiles)))"

definition add_file :: "'f fd_table \<Rightarrow> nat \<Rightarrow> 'f \<Rightarrow> bool \<Rightarrow> 'f fd_table \<times> (kerror + int)" where
  "add_file t max_nofile file cloexec = allocate_descriptor t 0 max_nofile (descriptor file cloexec)"

definition duplicate_from ::
  "'f fd_table \<Rightarrow> int \<Rightarrow> int \<Rightarrow> nat \<Rightarrow> bool \<Rightarrow> 'f fd_table \<times> (kerror + int)" where
  "duplicate_from t old_fd minimum max_nofile cloexec =
     (case slot_get t (as_usize old_fd) of
        None \<Rightarrow> (t, Inl (kerror_new_ax BadFileDescriptor))
      | Some source \<Rightarrow>
          if minimum < 0 \<or> nat minimum \<ge> max_nofile then (t, Inl (kerror_new_ax InvalidInput))
          else allocate_descriptor t (nat minimum) max_nofile (descriptor (fd_file source) cloexec))"

definition insert_file :: "'f fd_table \<Rightarrow> 'f \<Rightarrow> bool \<Rightarrow> 'f fd_table \<times> ('f file_descriptor + nat)" where
  "insert_file t file cloexec =
     (case slot_add t (descriptor file cloexec) of
        Some (t', n) \<Rightarrow> (t', Inr n)
      | None \<Rightarrow> (t, Inl (descriptor file cloexec)))"

definition file_close_fd_locked ::
  "'f fd_table \<Rightarrow> int \<Rightarrow> 'f fd_table \<times> (kerror + 'f file_descriptor)" where
  "file_close_fd_locked t fd =
     (case slot_remove t (as_usize fd) of
        Some (t', d) \<Rightarrow> (t', Inr d)
      | None \<Rightarrow> (t, Inl (kerror_new_ax BadFileDescriptor)))"

definition set_cloexec :: "'f fd_table \<Rightarrow> int \<Rightarrow> bool \<Rightarrow> 'f fd_table \<times> (kerror + unit)" where
  "set_cloexec t fd cloexec =
     (case slot_modify t (as_usize fd) (\<lambda>d. d\<lparr>fd_cloexec := cloexec\<rparr>) of
        Some t' \<Rightarrow> (t', Inr ())
      | None \<Rightarrow> (t, Inl (kerror_new_ax BadFileDescriptor)))"

definition duplicate_to ::
  "'f fd_table \<Rightarrow> int \<Rightarrow> int \<Rightarrow> bool \<Rightarrow> 'f fd_table \<times> (kerror + int \<times> 'f file_descriptor option)" where
  "duplicate_to t old_fd new_fd cloexec =
     (if new_fd < 0 \<or> as_usize new_fd \<ge> CAPACITY then (t, Inl (kerror_new_ax BadFileDescriptor))
      else if old_fd = new_fd then
        (t, case slot_get t (as_usize old_fd) of
              Some _ \<Rightarrow> Inr (new_fd, None) | None \<Rightarrow> Inl (kerror_new_ax BadFileDescriptor))
      else case slot_get t (as_usize old_fd) of
        None \<Rightarrow> (t, Inl (kerror_new_ax BadFileDescriptor))
      | Some d \<Rightarrow>
          let d = d\<lparr>fd_cloexec := cloexec\<rparr>; n = as_usize new_fd;
              removed = slot_remove t n;
              t1 = (case removed of Some (t1, _) \<Rightarrow> t1 | None \<Rightarrow> t)
          in case slot_add_at t1 n d of
               Some t2 \<Rightarrow> (t2, Inr (new_fd, map_option snd removed))
             | None \<Rightarrow> (t1, Inl (kerror_new_ax BadFileDescriptor)))"

text \<open>The numbers visited by \<open>for fd in first_fd..=last_fd.min(max_index)\<close>, as indices.\<close>

definition range_indices :: "'f fd_table \<Rightarrow> int \<Rightarrow> int \<Rightarrow> nat list" where
  "range_indices t first_fd last_fd =
     (case snd (ids_next_back (slot_ids t)) of
        Some max_index \<Rightarrow> map as_usize [first_fd..min last_fd (int max_index)]
      | None \<Rightarrow> [])"

definition remove_range :: "'f fd_table \<Rightarrow> int \<Rightarrow> int \<Rightarrow> 'f fd_table \<times> 'f file_descriptor list" where
  "remove_range t first_fd last_fd = remove_each slot_remove (range_indices t first_fd last_fd) t"

definition set_cloexec_range :: "'f fd_table \<Rightarrow> int \<Rightarrow> int \<Rightarrow> 'f fd_table" where
  "set_cloexec_range t first_fd last_fd =
     modify_each slot_modify (\<lambda>d. d\<lparr>fd_cloexec := True\<rparr>) (range_indices t first_fd last_fd) t"

definition remove_cloexec_files :: "'f fd_table \<Rightarrow> 'f fd_table \<times> 'f file_descriptor list" where
  "remove_cloexec_files t =
     remove_each slot_remove
       (filter (\<lambda>n. case slot_get t n of Some d \<Rightarrow> fd_cloexec d | None \<Rightarrow> False) (ids_collect (slot_ids t))) t"

text \<open>
  The loop of \<open>Drop\<close>, with the descriptors it closes; \<open>None\<close> would be the panic of its \<open>expect\<close> or a
  loop that does not end.
\<close>

partial_function (option) fd_drain :: "'f fd_table \<Rightarrow> ('f fd_table \<times> 'f file_descriptor list) option" where
  "fd_drain t =
     (case snd (ids_next (slot_ids t)) of
        None \<Rightarrow> Some (t, [])
      | Some n \<Rightarrow>
          (case slot_remove t n of
             None \<Rightarrow> None
           | Some (t', d) \<Rightarrow> Option.bind (fd_drain t') (\<lambda>(t'', ds). Some (t'', d # ds))))"

section \<open>Correctness\<close>

lemma as_usize_nonneg: "\<lbrakk>0 \<le> fd; fd < 2 ^ 64\<rbrakk> \<Longrightarrow> as_usize fd = nat fd"
  by (simp add: as_usize_def)

lemma as_usize_negative: "\<lbrakk>fd < 0; - (2 ^ 31) \<le> fd\<rbrakk> \<Longrightarrow> CAPACITY \<le> as_usize fd"
proof -
  assume "fd < 0" "- (2 ^ 31) \<le> fd"
  then have "fd mod 2 ^ 64 = fd + 2 ^ 64" by (subst mod_add_self2 [symmetric], intro mod_pos_pos_trivial) auto
  with \<open>- (2 ^ 31) \<le> fd\<close> show ?thesis by (simp add: as_usize_def)
qed

lemma slot_get_bound: "CAPACITY \<le> n \<Longrightarrow> slot_get t n = None"
  by (simp add: slot_get_def is_assigned_def)

text \<open>
  C12. Adding a file gives it the lowest descriptor number that is free, provided that number is
  below the soft limit and the capacity; only that number changes. Otherwise the call fails with
  \<open>TooManyOpenFiles\<close> and the table is unchanged.
\<close>

theorem add_file_lowest:
  assumes "slots_ok t" and "add_file t max_nofile file cloexec = (t', res)"
  shows "case find (\<lambda>n. slot_get t n = None) [0..<min max_nofile CAPACITY] of
      Some n \<Rightarrow> res = Inr (int n) \<and> slots_ok t' \<and> slot_get t' = (slot_get t)(n \<mapsto> descriptor file cloexec)
    | None \<Rightarrow> res = Inl (kerror_new_ax TooManyOpenFiles) \<and> t' = t"
  using slot_alloc_effect [OF assms(1), of 0 "min max_nofile CAPACITY" "descriptor file cloexec"] assms(2)
  by (auto simp: add_file_def allocate_descriptor_def split: option.splits)

lemma slots_ok_default: "slots_ok fd_default"
  by (simp add: fd_default_def slots_ok_new)

theorem add_file_lowest_witness:
  "snd (add_file fd_default 2 (7 :: nat) True) = Inr 0"
proof -
  have "find (\<lambda>n. slot_get (fd_default :: nat fd_table) n = None) [0..<min 2 CAPACITY] = Some 0"
    by (simp add: fd_default_def slot_get_new upt_rec)
  then show ?thesis
    using add_file_lowest [of "fd_default :: nat fd_table" 2 7 True, OF slots_ok_default prod.collapse [symmetric]]
    by simp
qed

text \<open>
  C30. \<open>dup2\<close>: with a target in range and an open source other than the target, the target gets the
  source's file with the requested close-on-exec bit, the entry it replaced is handed back, and no
  other descriptor changes; equal descriptors change nothing; every error leaves the table as it
  was.
\<close>

theorem duplicate_to_spec:
  assumes "slots_ok t" and "duplicate_to t old_fd new_fd cloexec = (t', res)" and "new_fd < 2 ^ 31"
  shows "if new_fd < 0 \<or> new_fd \<ge> int CAPACITY \<or> slot_get t (as_usize old_fd) = None
      then res = Inl (kerror_new_ax BadFileDescriptor) \<and> t' = t
    else if old_fd = new_fd then res = Inr (new_fd, None) \<and> t' = t
    else res = Inr (new_fd, slot_get t (nat new_fd)) \<and> slots_ok t'
      \<and> slot_get t' = (slot_get t)(nat new_fd \<mapsto> (the (slot_get t (as_usize old_fd)))\<lparr>fd_cloexec := cloexec\<rparr>)"
proof (cases "new_fd < 0 \<or> new_fd \<ge> int CAPACITY \<or> slot_get t (as_usize old_fd) = None \<or> old_fd = new_fd")
  case True
  have big: "as_usize new_fd \<ge> CAPACITY \<longleftrightarrow> new_fd \<ge> int CAPACITY" if "\<not> new_fd < 0"
    using that assms(3) by (simp add: as_usize_nonneg nat_le_iff le_nat_iff)
  from True show ?thesis
    using assms(2) by (auto simp: duplicate_to_def big split: if_splits option.splits)
next
  case False
  then have n: "as_usize new_fd = nat new_fd" "nat new_fd < CAPACITY" and new: "\<not> new_fd < 0"
    by (auto simp: as_usize_nonneg)
  from False obtain d where d: "slot_get t (as_usize old_fd) = Some d" by auto
  obtain t2 where "slot_add_at (case slot_remove t (nat new_fd) of Some (t1, _) \<Rightarrow> t1 | None \<Rightarrow> t)
        (nat new_fd) (d\<lparr>fd_cloexec := cloexec\<rparr>) = Some t2" "slots_ok t2"
      "slot_get t2 = (slot_get t)(nat new_fd \<mapsto> d\<lparr>fd_cloexec := cloexec\<rparr>)"
      "map_option snd (slot_remove t (nat new_fd)) = slot_get t (nat new_fd)"
    using file_slots.replace [OF assms(1) n(2), of "d\<lparr>fd_cloexec := cloexec\<rparr>"] by blast
  then show ?thesis
    using False n new d assms(2) by (simp add: duplicate_to_def Let_def)
qed

abbreviation (input) one_file :: "nat fd_table" where
  "one_file \<equiv> fst (add_file fd_default 4 7 False)"

lemma one_file: "slots_ok one_file" "slot_get one_file = [0 \<mapsto> descriptor 7 False]"
proof -
  have "find (\<lambda>n. slot_get (fd_default :: nat fd_table) n = None) [0..<min 4 CAPACITY] = Some 0"
    by (simp add: fd_default_def slot_get_new upt_rec)
  then show "slots_ok one_file" "slot_get one_file = [0 \<mapsto> descriptor 7 False]"
    using slot_alloc_effect [OF slots_ok_default, of 0 4 "descriptor (7 :: nat) False"]
    by (auto simp: add_file_def allocate_descriptor_def fd_default_def slot_get_new split: option.splits)
qed

theorem duplicate_to_spec_witness:
  "snd (duplicate_to one_file 0 3 True) = Inr (3, None)"
  using duplicate_to_spec [of one_file 0 3 True, OF one_file(1) prod.collapse [symmetric]]
  by (simp add: one_file(2) as_usize_def)

text \<open>
  C31. \<open>fcntl(F_DUPFD)\<close>: an absent source is reported first, then an invalid minimum; otherwise the
  copy gets the lowest free number from the minimum on, below the soft limit and the capacity, or the
  call fails with \<open>TooManyOpenFiles\<close>. Errors leave the table unchanged.
\<close>

theorem duplicate_from_spec:
  assumes "slots_ok t" and "duplicate_from t old_fd minimum max_nofile cloexec = (t', res)"
  shows "case slot_get t (as_usize old_fd) of
      None \<Rightarrow> res = Inl (kerror_new_ax BadFileDescriptor) \<and> t' = t
    | Some source \<Rightarrow>
        if minimum < 0 \<or> nat minimum \<ge> max_nofile then res = Inl (kerror_new_ax InvalidInput) \<and> t' = t
        else case find (\<lambda>n. slot_get t n = None) [nat minimum..<min max_nofile CAPACITY] of
            Some n \<Rightarrow> res = Inr (int n) \<and> slots_ok t'
              \<and> slot_get t' = (slot_get t)(n \<mapsto> descriptor (fd_file source) cloexec)
          | None \<Rightarrow> res = Inl (kerror_new_ax TooManyOpenFiles) \<and> t' = t"
proof (cases "slot_get t (as_usize old_fd)")
  case None
  then show ?thesis using assms(2) by (simp add: duplicate_from_def)
next
  case (Some source)
  show ?thesis
    using slot_alloc_effect [OF assms(1), of "nat minimum" "min max_nofile CAPACITY" "descriptor (fd_file source) cloexec"]
      assms(2) Some
    by (auto simp: duplicate_from_def allocate_descriptor_def split: option.splits if_splits)
qed

theorem duplicate_from_spec_witness:
  "snd (duplicate_from one_file 0 2 8 True) = Inr 2"
proof -
  have "find (\<lambda>n. slot_get one_file n = None) [nat 2..<min 8 CAPACITY] = Some 2"
    by (simp add: one_file(2) upt_rec)
  then show ?thesis
    using duplicate_from_spec [of one_file 0 2 8 True, OF one_file(1) prod.collapse [symmetric]]
    by (simp add: one_file(2) as_usize_def)
qed

lemma next_back_last:
  assumes "slots_ok t"
  shows "is_last (\<lambda>n. slot_get t n \<noteq> None) (CAPACITY - 1) (snd (ids_next_back (slot_ids t)))"
proof -
  let ?r = "assigned_at_or_before (fs_occupied t) (CAPACITY - 1)"
  have "snd (ids_next_back (slot_ids t)) = ?r"
    by (auto simp: ids_next_back_def slot_ids_def ids_new_def split: option.split)
  moreover have "is_last (occ_bit (fs_occupied t)) (CAPACITY - 1) ?r"
    using assigned_at_or_before_last [of "fs_occupied t" "CAPACITY - 1"] by simp
  ultimately show ?thesis
    using slot_get_None [OF assms] by (cases ?r) (auto simp: is_last_def)
qed

lemma as_usize_inj:
  "\<lbrakk>- (2 ^ 31) \<le> a; a < 2 ^ 31; - (2 ^ 31) \<le> b; b < 2 ^ 31; as_usize a = as_usize b\<rbrakk> \<Longrightarrow> a = b"
proof -
  assume a: "- (2 ^ 31) \<le> a" "a < 2 ^ 31" and b: "- (2 ^ 31) \<le> b" "b < 2 ^ 31" and "as_usize a = as_usize b"
  then have "a mod 2 ^ 64 = b mod 2 ^ 64" by (simp add: as_usize_def)
  then have "(a - b) mod 2 ^ 64 = 0" by (simp add: mod_eq_dvd_iff)
  then obtain k where k: "a - b = 18446744073709551616 * k" by auto
  have "- 4294967296 < a - b" "a - b < 4294967296" using a b by simp_all
  then have "k = 0" unfolding k by linarith
  with k show "a = b" by simp
qed

lemma range_indices:
  assumes "slots_ok t" "- (2 ^ 31) \<le> first_fd"
  shows "distinct (range_indices t first_fd last_fd)"
    and "slot_get t n \<noteq> None \<Longrightarrow> n \<in> set (range_indices t first_fd last_fd) \<longleftrightarrow> first_fd \<le> int n \<and> int n \<le> last_fd"
proof -
  let ?r = "snd (ids_next_back (slot_ids t))"
  note last = next_back_last [OF assms(1), unfolded is_last_def]
  show "distinct (range_indices t first_fd last_fd)"
  proof (cases ?r)
    case (Some m)
    then have "m \<le> CAPACITY - 1" using last by simp
    then have "inj_on as_usize (set [first_fd..min last_fd (int m)])"
      using assms(2) by (intro inj_onI as_usize_inj) auto
    then show ?thesis using Some by (simp add: range_indices_def distinct_map)
  qed (simp add: range_indices_def)
  assume n: "slot_get t n \<noteq> None"
  then have cap: "n < CAPACITY" using slot_get_bound [of n t] by (metis linorder_not_le)
  show "n \<in> set (range_indices t first_fd last_fd) \<longleftrightarrow> first_fd \<le> int n \<and> int n \<le> last_fd"
  proof (cases ?r)
    case None
    then show ?thesis using last n cap by auto
  next
    case (Some m)
    then have m: "n \<le> m" "m < CAPACITY" using last n cap by (auto simp: not_less [symmetric])
    have conv: "as_usize fd = n \<longleftrightarrow> fd = int n" if "first_fd \<le> fd" "fd \<le> int m" for fd
    proof (cases "fd < 0")
      case True
      then show ?thesis using as_usize_negative [OF True] assms(2) that cap by auto
    next
      case False
      then show ?thesis using m(2) that by (auto simp: as_usize_nonneg)
    qed
    have "n \<in> set (range_indices t first_fd last_fd)
        \<longleftrightarrow> (\<exists>fd. first_fd \<le> fd \<and> fd \<le> last_fd \<and> fd \<le> int m \<and> as_usize fd = n)"
      by (auto simp: range_indices_def Some)
    also have "\<dots> \<longleftrightarrow> (\<exists>fd. first_fd \<le> fd \<and> fd \<le> last_fd \<and> fd \<le> int m \<and> fd = int n)"
      using conv by blast
    finally show ?thesis using m(1) by auto
  qed
qed

text \<open>
  C32. \<open>close_range\<close>: exactly the descriptors in the inclusive range are removed, every entry they
  held is handed back for closing, and all others are untouched, also for ranges that start below
  zero or end beyond the table.
\<close>

theorem remove_range_spec:
  assumes "slots_ok t" and "- (2 ^ 31) \<le> first_fd" and "remove_range t first_fd last_fd = (t', ds)"
  shows "slots_ok t' \<and> slot_get t' = (\<lambda>n. if first_fd \<le> int n \<and> int n \<le> last_fd then None else slot_get t n)
    \<and> set ds = {d. \<exists>n. first_fd \<le> int n \<and> int n \<le> last_fd \<and> slot_get t n = Some d}"
proof -
  let ?ns = "range_indices t first_fd last_fd"
  note idx = range_indices [OF assms(1,2), where last_fd = last_fd]
  have law: "slots_ok t'" "slot_get t' = (\<lambda>n. if n \<in> set ?ns then None else slot_get t n)"
      "map Some ds = filter (\<lambda>v. v \<noteq> None) (map (slot_get t) ?ns)"
    using file_slots.remove_each_law [OF assms(1) idx(1)] assms(3) by (simp_all add: remove_range_def)
  have "slot_get t' = (\<lambda>n. if first_fd \<le> int n \<and> int n \<le> last_fd then None else slot_get t n)"
  proof
    fix n
    show "slot_get t' n = (if first_fd \<le> int n \<and> int n \<le> last_fd then None else slot_get t n)"
      using idx(2) [of n] by (cases "slot_get t n") (simp_all add: law(2))
  qed
  moreover have "d \<in> set ds \<longleftrightarrow> (\<exists>n. first_fd \<le> int n \<and> int n \<le> last_fd \<and> slot_get t n = Some d)" for d
  proof -
    have "d \<in> set ds \<longleftrightarrow> Some d \<in> set (map Some ds)" by auto
    also have "\<dots> \<longleftrightarrow> (\<exists>n \<in> set ?ns. slot_get t n = Some d)" unfolding law(3) by force
    finally show ?thesis using idx(2) by (metis option.distinct(1))
  qed
  ultimately show ?thesis using law(1) by blast
qed

theorem remove_range_spec_witness:
  "slot_get (fst (remove_range one_file (- 5) 3)) 0 = None"
  using remove_range_spec [of one_file "- 5" 3, OF one_file(1) _ prod.collapse [symmetric]] by simp

lemma filter_assigned: "filter (\<lambda>n. case slot_get t n of Some d \<Rightarrow> P d | None \<Rightarrow> False) (ids_collect (slot_ids t))
  = filter (\<lambda>n. \<exists>d. slot_get t n = Some d \<and> P d) [0..<CAPACITY]"
  unfolding slot_ids_collect filter_filter
  by (rule filter_cong) (auto simp: slot_get_def split: option.splits)

text \<open>
  On \<open>exec\<close>, exactly the descriptors marked close-on-exec are removed and handed back in
  ascending order; the others stay.
\<close>

theorem remove_cloexec_files_spec:
  assumes "slots_ok t" and "remove_cloexec_files t = (t', ds)"
  shows "slots_ok t'
    \<and> slot_get t' = (\<lambda>n. if (\<exists>d. slot_get t n = Some d \<and> fd_cloexec d) then None else slot_get t n)
    \<and> map Some ds = map (slot_get t) (filter (\<lambda>n. \<exists>d. slot_get t n = Some d \<and> fd_cloexec d) [0..<CAPACITY])"
proof -
  let ?ns = "filter (\<lambda>n. \<exists>d. slot_get t n = Some d \<and> fd_cloexec d) [0..<CAPACITY]"
  have law: "slots_ok t'" "slot_get t' = (\<lambda>n. if n \<in> set ?ns then None else slot_get t n)"
      "map Some ds = filter (\<lambda>v. v \<noteq> None) (map (slot_get t) ?ns)"
    using file_slots.remove_each_law [of t ?ns t' ds] assms
    by (simp_all add: remove_cloexec_files_def filter_assigned)
  have "filter (\<lambda>v. v \<noteq> None) (map (slot_get t) ?ns) = map (slot_get t) ?ns"
    by (rule filter_True) auto
  moreover have "n < CAPACITY" if "slot_get t n \<noteq> None" for n
    using that by (rule file_slots.get_bound)
  ultimately show ?thesis using law by (auto simp: fun_eq_iff)
qed

theorem remove_cloexec_files_spec_witness:
  "slot_get (fst (remove_cloexec_files one_file)) = [0 \<mapsto> descriptor 7 False]"
  using remove_cloexec_files_spec [of one_file, OF one_file(1) prod.collapse [symmetric]]
  by (auto simp: one_file(2) fun_eq_iff)

lemma next_first:
  assumes "slots_ok t"
  shows "is_first (\<lambda>n. slot_get t n \<noteq> None) 0 CAPACITY (snd (ids_next (slot_ids t)))"
proof -
  let ?r = "assigned_at_or_after (fs_occupied t) 0"
  have first: "is_first (occ_bit (fs_occupied t)) 0 CAPACITY ?r"
    by (rule assigned_at_or_after_first)
  then have "snd (ids_next (slot_ids t)) = ?r"
    by (auto simp: ids_next_def slot_ids_def ids_new_def is_first_def split: option.split)
  then show ?thesis
    using first slot_get_None [OF assms] by (cases ?r) (auto simp: is_first_def)
qed

lemma fd_drain_from:
  assumes "slots_ok t" "\<forall>n < lo. slot_get t n = None"
  shows "\<exists>t' ds. fd_drain t = Some (t', ds) \<and> slots_ok t' \<and> slot_get t' = (\<lambda>_. None)
    \<and> map Some ds = map (slot_get t) (filter (\<lambda>n. slot_get t n \<noteq> None) [lo..<CAPACITY])"
  using assms
proof (induction "CAPACITY - lo" arbitrary: t lo rule: less_induct)
  case less
  note first = next_first [OF less.prems(1)]
  show ?case
  proof (cases "snd (ids_next (slot_ids t))")
    case None
    then have none: "slot_get t n = None" for n
      using first file_slots.get_bound [of t n] by (cases "slot_get t n") (auto simp: is_first_def)
    then show ?thesis using None less.prems(1) by (auto simp: fd_drain.simps [of t])
  next
    case (Some n)
    then have n: "n < CAPACITY" "slot_get t n \<noteq> None" "\<forall>j < n. slot_get t j = None" "lo \<le> n"
      using first less.prems(2) by (auto simp: is_first_def not_le [symmetric])
    then obtain t1 d where t1: "slot_remove t n = Some (t1, d)" "slots_ok t1" "slot_get t n = Some d"
        "slot_get t1 = (slot_get t)(n := None)"
      using slot_remove_effect [OF less.prems(1), of n] by (auto split: option.splits)
    have "\<exists>t' ds. fd_drain t1 = Some (t', ds) \<and> slots_ok t' \<and> slot_get t' = (\<lambda>_. None)
        \<and> map Some ds = map (slot_get t1) (filter (\<lambda>m. slot_get t1 m \<noteq> None) [Suc n..<CAPACITY])"
      using n t1 by (intro less.hyps) (auto simp: less_Suc_eq)
    then obtain t' ds where drained: "fd_drain t1 = Some (t', ds)" "slots_ok t'" "slot_get t' = (\<lambda>_. None)"
        "map Some ds = map (slot_get t1) (filter (\<lambda>m. slot_get t1 m \<noteq> None) [Suc n..<CAPACITY])" by blast
    have "filter (\<lambda>m. slot_get t1 m \<noteq> None) [Suc n..<CAPACITY] = filter (\<lambda>m. slot_get t m \<noteq> None) [Suc n..<CAPACITY]"
      by (rule filter_cong) (auto simp: t1(4))
    then have "map Some ds = map (slot_get t) (filter (\<lambda>m. slot_get t m \<noteq> None) [Suc n..<CAPACITY])"
      using drained(4) by (auto simp: t1(4))
    moreover have "filter (\<lambda>m. slot_get t m \<noteq> None) [lo..<CAPACITY]
        = n # filter (\<lambda>m. slot_get t m \<noteq> None) [Suc n..<CAPACITY]"
      using n by (intro filter_upt_Cons) auto
    ultimately show ?thesis
      using Some t1 drained by (simp add: fd_drain.simps [of t])
  qed
qed

text \<open>
  C33. Dropping a table ends: it removes every open descriptor, lowest number first, exactly once,
  without reaching the panic of its loop.
\<close>

theorem fd_drain_spec:
  assumes "slots_ok t"
  shows "\<exists>t' ds. fd_drain t = Some (t', ds) \<and> slot_get t' = (\<lambda>_. None)
    \<and> map Some ds = map (slot_get t) (filter (\<lambda>n. slot_get t n \<noteq> None) [0..<CAPACITY])"
  using fd_drain_from [OF assms, of 0] by auto

theorem fd_drain_spec_witness:
  "\<exists>t' ds. fd_drain one_file = Some (t', ds) \<and> slot_get t' = (\<lambda>_. None)
    \<and> map Some ds = map (slot_get one_file) (filter (\<lambda>n. slot_get one_file n \<noteq> None) [0..<CAPACITY])"
  by (rule fd_drain_spec) (rule one_file(1))

text \<open>
  C34. A copied table, as \<open>fork\<close> makes it, has the same descriptors, and its count is the number of
  open descriptors of the original.
\<close>

theorem fd_clone_shared_from_spec:
  assumes "slots_ok t"
  shows "slots_ok (fd_clone_shared_from t) \<and> slot_get (fd_clone_shared_from t) = slot_get t
    \<and> fd_count (fd_clone_shared_from t) = card {n. slot_get t n \<noteq> None}"
proof -
  let ?c = "fd_clone_shared_from t"
  have c: "slots_ok ?c" "slot_get ?c = slot_get t"
    unfolding fd_clone_shared_from_def
    by (rule slot_clone_from_effect [OF assms slots_ok_length [OF slots_ok_default]])+
  have "n < CAPACITY \<and> occ_bit (fs_occupied ?c) n \<longleftrightarrow> slot_get t n \<noteq> None" for n
    using slot_get_None [OF c(1), of n] slot_get_bound [of n t] unfolding c(2)
    by (cases "n < CAPACITY") (simp_all add: linorder_not_less)
  then have "card {n. n < CAPACITY \<and> occ_bit (fs_occupied ?c) n} = card {n. slot_get t n \<noteq> None}"
    by (simp only:)
  moreover have "fd_count ?c = card {n. n < CAPACITY \<and> occ_bit (fs_occupied ?c) n}"
    using slots_ok_count [OF c(1)] by (simp only: fd_count_def)
  ultimately show ?thesis using c by simp
qed

theorem fd_clone_shared_from_spec_witness:
  "slot_get (fd_clone_shared_from one_file) = [0 \<mapsto> descriptor 7 False]"
  using fd_clone_shared_from_spec [OF one_file(1)] by (simp add: one_file(2))

end
