(* ===== verification/Cred.thy ===== *)
theory Cred
  imports KErrno
begin

text \<open>
  Credentials of \<open>src/process/kcred/src/credentials/model.rs\<close> and their system calls in
  \<open>src/core/ksyscall/src/task/credentials.rs\<close>. A call works on a copy of the current credential
  and commits it when it succeeds, so each call is a function from the current credential to the
  committed one and a result. Group lists read from user memory are arguments.
\<close>

unbundle bit_operations_syntax

section \<open>The credential record\<close>

type_synonym uid = u32
type_synonym gid = u32

record cred =
  ruid :: uid
  euid :: uid
  suid :: uid
  fsuid :: uid
  rgid :: gid
  egid :: gid
  sgid :: gid
  fsgid :: gid
  groups :: "gid list"
  securebits :: u32

abbreviation (input) KEEP_CAPS :: u32 where "KEEP_CAPS \<equiv> 0x10"
abbreviation (input) KEEP_CAPS_LOCKED :: u32 where "KEEP_CAPS_LOCKED \<equiv> 0x20"
abbreviation (input) EPERM_ERR :: kerror where "EPERM_ERR \<equiv> kerror_new_ax OperationNotPermitted"

definition cred_new :: "uid \<Rightarrow> gid \<Rightarrow> cred" where
  "cred_new u g = \<lparr>ruid = u, euid = u, suid = u, fsuid = u, rgid = g, egid = g, sgid = g, fsgid = g,
     groups = [], securebits = 0\<rparr>"

definition cred_root :: cred where
  "cred_root = cred_new 0 0"

definition for_access :: "cred \<Rightarrow> cred" where
  "for_access c = c\<lparr>fsuid := ruid c, fsgid := rgid c\<rparr>"

definition keep_caps :: "cred \<Rightarrow> bool" where
  "keep_caps c \<longleftrightarrow> securebits c AND KEEP_CAPS = KEEP_CAPS"

definition keep_caps_locked :: "cred \<Rightarrow> bool" where
  "keep_caps_locked c \<longleftrightarrow> securebits c AND KEEP_CAPS_LOCKED = KEEP_CAPS_LOCKED"

definition keep_caps_enable :: "cred \<Rightarrow> kerror + cred" where
  "keep_caps_enable c =
     (if keep_caps_locked c then Inl EPERM_ERR
      else Inr (c\<lparr>securebits := securebits c OR KEEP_CAPS\<rparr>))"

definition keep_caps_disable :: "cred \<Rightarrow> kerror + cred" where
  "keep_caps_disable c =
     (if keep_caps_locked c then Inl EPERM_ERR
      else Inr (c\<lparr>securebits := securebits c AND NOT KEEP_CAPS\<rparr>))"

text \<open>\<open>binary_search\<close> of the standard library's slices: the loop that halves the window.\<close>

function bsearch_base :: "'a::linorder list \<Rightarrow> 'a \<Rightarrow> nat \<Rightarrow> nat \<Rightarrow> nat" where
  "bsearch_base xs k base sz =
     (if sz > 1 then
        let half = sz div 2; mid = base + half in
        bsearch_base xs k (if xs ! mid > k then base else mid) (sz - half)
      else base)"
  by pat_completeness auto
termination by (relation "measure (\<lambda>(xs, k, base, sz). sz)") auto

declare bsearch_base.simps [simp del]

definition binary_search :: "'a::linorder list \<Rightarrow> 'a \<Rightarrow> nat option" where
  "binary_search xs k =
     (if xs = [] then None
      else let i = bsearch_base xs k 0 (length xs) in if xs ! i = k then Some i else None)"

definition in_group :: "cred \<Rightarrow> gid \<Rightarrow> bool" where
  "in_group c g \<longleftrightarrow> fsgid c = g \<or> binary_search (groups c) g \<noteq> None"

definition is_privileged :: "cred \<Rightarrow> bool" where
  "is_privileged c \<longleftrightarrow> euid c = 0"

definition has_sys_admin :: "cred \<Rightarrow> bool" where
  "has_sys_admin c \<longleftrightarrow> euid c = 0"

definition has_sys_resource :: "cred \<Rightarrow> bool" where
  "has_sys_resource c \<longleftrightarrow> euid c = 0"

definition has_sys_tty_config :: "cred \<Rightarrow> bool" where
  "has_sys_tty_config c \<longleftrightarrow> euid c = 0"

definition has_cap_chown :: "cred \<Rightarrow> bool" where
  "has_cap_chown c \<longleftrightarrow> is_privileged c"

definition has_cap_fowner :: "cred \<Rightarrow> bool" where
  "has_cap_fowner c \<longleftrightarrow> is_privileged c"

definition matches_real_credential_ids :: "cred \<Rightarrow> cred \<Rightarrow> bool" where
  "matches_real_credential_ids c caller \<longleftrightarrow>
     ruid c = ruid caller \<and> euid c = ruid caller \<and> suid c = ruid caller
     \<and> rgid c = rgid caller \<and> egid c = rgid caller \<and> sgid c = rgid caller"

section \<open>Set-ID transitions\<close>

definition set_resuid_unchecked :: "uid option \<Rightarrow> uid option \<Rightarrow> uid option \<Rightarrow> cred \<Rightarrow> cred" where
  "set_resuid_unchecked r e s c =
     (let c = (case r of Some x \<Rightarrow> c\<lparr>ruid := x\<rparr> | None \<Rightarrow> c);
          c = (case e of Some x \<Rightarrow> c\<lparr>euid := x\<rparr> | None \<Rightarrow> c);
          c = (case s of Some x \<Rightarrow> c\<lparr>suid := x\<rparr> | None \<Rightarrow> c)
      in c\<lparr>fsuid := euid c\<rparr>)"

definition set_resgid_unchecked :: "gid option \<Rightarrow> gid option \<Rightarrow> gid option \<Rightarrow> cred \<Rightarrow> cred" where
  "set_resgid_unchecked r e s c =
     (let c = (case r of Some x \<Rightarrow> c\<lparr>rgid := x\<rparr> | None \<Rightarrow> c);
          c = (case e of Some x \<Rightarrow> c\<lparr>egid := x\<rparr> | None \<Rightarrow> c);
          c = (case s of Some x \<Rightarrow> c\<lparr>sgid := x\<rparr> | None \<Rightarrow> c)
      in c\<lparr>fsgid := egid c\<rparr>)"

definition set_uid :: "uid \<Rightarrow> cred \<Rightarrow> kerror + cred" where
  "set_uid u c =
     (if is_privileged c then Inr (set_resuid_unchecked (Some u) (Some u) (Some u) c)
      else if u \<noteq> ruid c \<and> u \<noteq> suid c then Inl EPERM_ERR
      else Inr (c\<lparr>euid := u, fsuid := u\<rparr>))"

definition set_gid :: "gid \<Rightarrow> cred \<Rightarrow> kerror + cred" where
  "set_gid g c =
     (if is_privileged c then Inr (set_resgid_unchecked (Some g) (Some g) (Some g) c)
      else if g \<noteq> rgid c \<and> g \<noteq> sgid c then Inl EPERM_ERR
      else Inr (c\<lparr>egid := g, fsgid := g\<rparr>))"

definition set_reuid :: "uid option \<Rightarrow> uid option \<Rightarrow> cred \<Rightarrow> kerror + cred" where
  "set_reuid r e c =
     (if \<not> is_privileged c \<and> (case r of Some x \<Rightarrow> x \<noteq> ruid c \<and> x \<noteq> euid c | None \<Rightarrow> False) then Inl EPERM_ERR
      else if \<not> is_privileged c
        \<and> (case e of Some x \<Rightarrow> x \<noteq> ruid c \<and> x \<noteq> euid c \<and> x \<noteq> suid c | None \<Rightarrow> False) then Inl EPERM_ERR
      else
        let c1 = (case r of Some x \<Rightarrow> c\<lparr>ruid := x\<rparr> | None \<Rightarrow> c);
            c2 = (case e of Some x \<Rightarrow> c1\<lparr>euid := x\<rparr> | None \<Rightarrow> c1);
            c3 = (if r \<noteq> None \<or> (case e of Some x \<Rightarrow> x \<noteq> ruid c | None \<Rightarrow> False)
                  then c2\<lparr>suid := euid c2\<rparr> else c2)
        in Inr (c3\<lparr>fsuid := euid c3\<rparr>))"

definition set_regid :: "gid option \<Rightarrow> gid option \<Rightarrow> cred \<Rightarrow> kerror + cred" where
  "set_regid r e c =
     (if \<not> is_privileged c \<and> (case r of Some x \<Rightarrow> x \<noteq> rgid c \<and> x \<noteq> egid c | None \<Rightarrow> False) then Inl EPERM_ERR
      else if \<not> is_privileged c
        \<and> (case e of Some x \<Rightarrow> x \<noteq> rgid c \<and> x \<noteq> egid c \<and> x \<noteq> sgid c | None \<Rightarrow> False) then Inl EPERM_ERR
      else
        let c1 = (case r of Some x \<Rightarrow> c\<lparr>rgid := x\<rparr> | None \<Rightarrow> c);
            c2 = (case e of Some x \<Rightarrow> c1\<lparr>egid := x\<rparr> | None \<Rightarrow> c1);
            c3 = (if r \<noteq> None \<or> (case e of Some x \<Rightarrow> x \<noteq> rgid c | None \<Rightarrow> False)
                  then c2\<lparr>sgid := egid c2\<rparr> else c2)
        in Inr (c3\<lparr>fsgid := egid c3\<rparr>))"

definition check_uid_change :: "cred \<Rightarrow> uid option \<Rightarrow> kerror + unit" where
  "check_uid_change c u =
     (case u of
        Some x \<Rightarrow> if x \<noteq> ruid c \<and> x \<noteq> euid c \<and> x \<noteq> suid c then Inl EPERM_ERR else Inr ()
      | None \<Rightarrow> Inr ())"

definition check_gid_change :: "cred \<Rightarrow> gid option \<Rightarrow> kerror + unit" where
  "check_gid_change c g =
     (case g of
        Some x \<Rightarrow> if x \<noteq> rgid c \<and> x \<noteq> egid c \<and> x \<noteq> sgid c then Inl EPERM_ERR else Inr ()
      | None \<Rightarrow> Inr ())"

definition is_resuid_noop :: "cred \<Rightarrow> uid option \<Rightarrow> uid option \<Rightarrow> uid option \<Rightarrow> bool" where
  "is_resuid_noop c r e s \<longleftrightarrow>
     (case r of Some x \<Rightarrow> x = ruid c | None \<Rightarrow> True)
     \<and> (case e of Some x \<Rightarrow> x = euid c \<and> x = fsuid c | None \<Rightarrow> True)
     \<and> (case s of Some x \<Rightarrow> x = suid c | None \<Rightarrow> True)"

definition is_resgid_noop :: "cred \<Rightarrow> gid option \<Rightarrow> gid option \<Rightarrow> gid option \<Rightarrow> bool" where
  "is_resgid_noop c r e s \<longleftrightarrow>
     (case r of Some x \<Rightarrow> x = rgid c | None \<Rightarrow> True)
     \<and> (case e of Some x \<Rightarrow> x = egid c \<and> x = fsgid c | None \<Rightarrow> True)
     \<and> (case s of Some x \<Rightarrow> x = sgid c | None \<Rightarrow> True)"

definition set_resuid :: "uid option \<Rightarrow> uid option \<Rightarrow> uid option \<Rightarrow> cred \<Rightarrow> kerror + cred" where
  "set_resuid r e s c =
     (case (if \<not> is_privileged c then check_uid_change c r else Inr ()) of Inl er \<Rightarrow> Inl er
      | Inr _ \<Rightarrow>
     (case (if \<not> is_privileged c then check_uid_change c e else Inr ()) of Inl er \<Rightarrow> Inl er
      | Inr _ \<Rightarrow>
     (case (if \<not> is_privileged c then check_uid_change c s else Inr ()) of Inl er \<Rightarrow> Inl er
      | Inr _ \<Rightarrow> if is_resuid_noop c r e s then Inr c else Inr (set_resuid_unchecked r e s c))))"

definition set_resgid :: "gid option \<Rightarrow> gid option \<Rightarrow> gid option \<Rightarrow> cred \<Rightarrow> kerror + cred" where
  "set_resgid r e s c =
     (case (if \<not> is_privileged c then check_gid_change c r else Inr ()) of Inl er \<Rightarrow> Inl er
      | Inr _ \<Rightarrow>
     (case (if \<not> is_privileged c then check_gid_change c e else Inr ()) of Inl er \<Rightarrow> Inl er
      | Inr _ \<Rightarrow>
     (case (if \<not> is_privileged c then check_gid_change c s else Inr ()) of Inl er \<Rightarrow> Inl er
      | Inr _ \<Rightarrow> if is_resgid_noop c r e s then Inr c else Inr (set_resgid_unchecked r e s c))))"

definition set_fsuid :: "uid \<Rightarrow> cred \<Rightarrow> cred \<times> uid" where
  "set_fsuid u c =
     (if is_privileged c \<or> u = ruid c \<or> u = euid c \<or> u = suid c \<or> u = fsuid c
      then c\<lparr>fsuid := u\<rparr> else c, fsuid c)"

definition set_fsgid :: "gid \<Rightarrow> cred \<Rightarrow> cred \<times> gid" where
  "set_fsgid g c =
     (if is_privileged c \<or> g = rgid c \<or> g = egid c \<or> g = sgid c \<or> g = fsgid c
      then c\<lparr>fsgid := g\<rparr> else c, fsgid c)"

definition set_supplementary_groups :: "gid list \<Rightarrow> cred \<Rightarrow> cred" where
  "set_supplementary_groups gs c = c\<lparr>groups := sort gs\<rparr>"

definition apply_exec :: "bool \<Rightarrow> cred \<Rightarrow> cred" where
  "apply_exec no_new_privs c =
     c\<lparr>suid := euid c, fsuid := euid c, sgid := egid c, fsgid := egid c,
       securebits := securebits c AND NOT KEEP_CAPS\<rparr>"

section \<open>System calls\<close>

abbreviation (input) NO_CHANGE_ID :: u32 where "NO_CHANGE_ID \<equiv> 0xffffffff"
abbreviation (input) NGROUPS_MAX :: int where "NGROUPS_MAX \<equiv> 65536"

definition optional_id :: "u32 \<Rightarrow> u32 option" where
  "optional_id i = (if i \<noteq> NO_CHANGE_ID then Some i else None)"

text \<open>Commit the updated copy, or report the error and keep the current credential.\<close>

definition update_current_cred :: "(cred \<Rightarrow> kerror + cred) \<Rightarrow> cred \<Rightarrow> cred \<times> (kerror + unit)" where
  "update_current_cred update c =
     (case update c of Inl e \<Rightarrow> (c, Inl e) | Inr new \<Rightarrow> (new, Inr ()))"

definition sys_setuid :: "uid \<Rightarrow> cred \<Rightarrow> cred \<times> (kerror + unit)" where
  "sys_setuid u = update_current_cred (set_uid u)"

definition sys_setgid :: "gid \<Rightarrow> cred \<Rightarrow> cred \<times> (kerror + unit)" where
  "sys_setgid g = update_current_cred (set_gid g)"

definition sys_setreuid :: "u32 \<Rightarrow> u32 \<Rightarrow> cred \<Rightarrow> cred \<times> (kerror + unit)" where
  "sys_setreuid r e = update_current_cred (set_reuid (optional_id r) (optional_id e))"

definition sys_setregid :: "u32 \<Rightarrow> u32 \<Rightarrow> cred \<Rightarrow> cred \<times> (kerror + unit)" where
  "sys_setregid r e = update_current_cred (set_regid (optional_id r) (optional_id e))"

definition sys_setresuid :: "u32 \<Rightarrow> u32 \<Rightarrow> u32 \<Rightarrow> cred \<Rightarrow> cred \<times> (kerror + unit)" where
  "sys_setresuid r e s = update_current_cred (set_resuid (optional_id r) (optional_id e) (optional_id s))"

definition sys_setresgid :: "u32 \<Rightarrow> u32 \<Rightarrow> u32 \<Rightarrow> cred \<Rightarrow> cred \<times> (kerror + unit)" where
  "sys_setresgid r e s = update_current_cred (set_resgid (optional_id r) (optional_id e) (optional_id s))"

definition sys_setfsuid :: "u32 \<Rightarrow> cred \<Rightarrow> cred \<times> uid" where
  "sys_setfsuid u c =
     (if u \<noteq> NO_CHANGE_ID then
        let new = fst (set_fsuid u c) in (if fsuid new \<noteq> fsuid c then new else c, fsuid c)
      else (c, fsuid c))"

definition sys_setfsgid :: "u32 \<Rightarrow> cred \<Rightarrow> cred \<times> gid" where
  "sys_setfsgid g c =
     (if g \<noteq> NO_CHANGE_ID then
        let new = fst (set_fsgid g c) in (if fsgid new \<noteq> fsgid c then new else c, fsgid c)
      else (c, fsgid c))"

text \<open>
  \<open>list_null\<close> is the null check of the user pointer; \<open>user_list\<close> is what reading the given number
  of entries from user memory yields, and \<open>write_list\<close> what writing the group list there yields.
\<close>

definition sys_getgroups :: "int \<Rightarrow> bool \<Rightarrow> (gid list \<Rightarrow> kerror + unit) \<Rightarrow> cred \<Rightarrow> kerror + nat" where
  "sys_getgroups sz list_null write_list c =
     (if sz < 0 then Inl (kerror_new_ax InvalidInput)
      else if sz = 0 then Inr (length (groups c))
      else if length (groups c) > nat sz then Inl (kerror_new_ax InvalidInput)
      else if groups c \<noteq> [] then
        if list_null then Inl (kerror_new_ax BadAddress)
        else case write_list (groups c) of Inl e \<Rightarrow> Inl e | Inr _ \<Rightarrow> Inr (length (groups c))
      else Inr (length (groups c)))"

definition sys_setgroups :: "int \<Rightarrow> bool \<Rightarrow> kerror + gid list \<Rightarrow> cred \<Rightarrow> cred \<times> (kerror + unit)" where
  "sys_setgroups sz list_null user_list c =
     (if \<not> is_privileged c then (c, Inl EPERM_ERR)
      else if sz < 0 \<or> sz > NGROUPS_MAX then (c, Inl (kerror_new_ax InvalidInput))
      else case (if sz = 0 then Inr []
                 else if list_null then Inl (kerror_new_ax BadAddress) else user_list) of
        Inl e \<Rightarrow> (c, Inl e)
      | Inr gs \<Rightarrow> update_current_cred (\<lambda>c. Inr (set_supplementary_groups gs c)) c)"

text \<open>\<open>PR_SET_KEEPCAPS\<close> of \<open>prctl\<close>.\<close>

definition prctl_set_keepcaps :: "u64 \<Rightarrow> cred \<Rightarrow> cred \<times> (kerror + unit)" where
  "prctl_set_keepcaps arg2 c =
     (if arg2 > 1 then (c, Inl (kerror_new_ax InvalidInput))
      else if arg2 \<noteq> 0 then update_current_cred keep_caps_enable c
      else update_current_cred keep_caps_disable c)"

section \<open>Reachable credentials\<close>

text \<open>One step of a task: any of the calls with any arguments, the keep-capabilities prctls, or exec.\<close>

inductive cred_step :: "cred \<Rightarrow> cred \<Rightarrow> bool" where
  setuid: "cred_step c (fst (sys_setuid u c))"
| setgid: "cred_step c (fst (sys_setgid g c))"
| setreuid: "cred_step c (fst (sys_setreuid r e c))"
| setregid: "cred_step c (fst (sys_setregid r e c))"
| setresuid: "cred_step c (fst (sys_setresuid r e s c))"
| setresgid: "cred_step c (fst (sys_setresgid r e s c))"
| setfsuid: "cred_step c (fst (sys_setfsuid u c))"
| setfsgid: "cred_step c (fst (sys_setfsgid g c))"
| setgroups: "cred_step c (fst (sys_setgroups n null gs c))"
| keepcaps: "cred_step c (fst (prctl_set_keepcaps v c))"
| exec: "cred_step c (apply_exec nnp c)"

inductive_cases cred_stepE: "cred_step c c'"

text \<open>The user IDs and the group IDs a task may act with or switch to.\<close>

definition uids :: "cred \<Rightarrow> uid set" where
  "uids c = {ruid c, euid c, suid c}"

definition gids :: "cred \<Rightarrow> gid set" where
  "gids c = {rgid c, egid c, sgid c}"

definition file_uids :: "cred \<Rightarrow> uid set" where
  "file_uids c = insert (fsuid c) (uids c)"

definition file_gids :: "cred \<Rightarrow> gid set" where
  "file_gids c = insert (fsgid c) (gids c) \<union> set (groups c)"

text \<open>No user ID the task can switch to grants privilege.\<close>

definition dropped :: "cred \<Rightarrow> bool" where
  "dropped c \<longleftrightarrow> 0 \<notin> uids c"

lemma commit_Inr: "fst (update_current_cred f c) = (case f c of Inl _ \<Rightarrow> c | Inr c' \<Rightarrow> c')"
  by (simp add: update_current_cred_def split: sum.split)

lemmas sys_defs = sys_setuid_def sys_setgid_def sys_setreuid_def sys_setregid_def sys_setresuid_def
  sys_setresgid_def sys_setfsuid_def sys_setfsgid_def sys_setgroups_def commit_Inr

lemmas set_id_defs = set_uid_def set_gid_def set_reuid_def set_regid_def set_resuid_def set_resgid_def
  set_fsuid_def set_fsgid_def set_supplementary_groups_def apply_exec_def keep_caps_enable_def
  keep_caps_disable_def check_uid_change_def check_gid_change_def set_resuid_unchecked_def
  set_resgid_unchecked_def

lemmas id_sets = uids_def gids_def file_uids_def file_gids_def

text \<open>The fields after an unchecked update, one equation per field.\<close>

lemma set_resuid_unchecked_fields [simp]:
  "ruid (set_resuid_unchecked r e s c) = (case r of Some x \<Rightarrow> x | None \<Rightarrow> ruid c)"
  "euid (set_resuid_unchecked r e s c) = (case e of Some x \<Rightarrow> x | None \<Rightarrow> euid c)"
  "suid (set_resuid_unchecked r e s c) = (case s of Some x \<Rightarrow> x | None \<Rightarrow> suid c)"
  "fsuid (set_resuid_unchecked r e s c) = (case e of Some x \<Rightarrow> x | None \<Rightarrow> euid c)"
  "rgid (set_resuid_unchecked r e s c) = rgid c" "egid (set_resuid_unchecked r e s c) = egid c"
  "sgid (set_resuid_unchecked r e s c) = sgid c" "fsgid (set_resuid_unchecked r e s c) = fsgid c"
  "groups (set_resuid_unchecked r e s c) = groups c"
  "securebits (set_resuid_unchecked r e s c) = securebits c"
  by (simp_all add: set_resuid_unchecked_def Let_def split: option.split)

lemma set_resgid_unchecked_fields [simp]:
  "rgid (set_resgid_unchecked r e s c) = (case r of Some x \<Rightarrow> x | None \<Rightarrow> rgid c)"
  "egid (set_resgid_unchecked r e s c) = (case e of Some x \<Rightarrow> x | None \<Rightarrow> egid c)"
  "sgid (set_resgid_unchecked r e s c) = (case s of Some x \<Rightarrow> x | None \<Rightarrow> sgid c)"
  "fsgid (set_resgid_unchecked r e s c) = (case e of Some x \<Rightarrow> x | None \<Rightarrow> egid c)"
  "ruid (set_resgid_unchecked r e s c) = ruid c" "euid (set_resgid_unchecked r e s c) = euid c"
  "suid (set_resgid_unchecked r e s c) = suid c" "fsuid (set_resgid_unchecked r e s c) = fsuid c"
  "groups (set_resgid_unchecked r e s c) = groups c"
  "securebits (set_resgid_unchecked r e s c) = securebits c"
  by (simp_all add: set_resgid_unchecked_def Let_def split: option.split)

text \<open>What a request asks for must be among the current IDs.\<close>

abbreviation (input) asked :: "'a option \<Rightarrow> 'a set \<Rightarrow> bool" where
  "asked u S \<equiv> set_option u \<subseteq> S"

lemma check_uid_change_iff: "check_uid_change c u = (if asked u (uids c) then Inr () else Inl EPERM_ERR)"
  by (cases u) (auto simp: check_uid_change_def uids_def)

lemma check_gid_change_iff: "check_gid_change c u = (if asked u (gids c) then Inr () else Inl EPERM_ERR)"
  by (cases u) (auto simp: check_gid_change_def gids_def)

lemma set_resuid_eq:
  "set_resuid r e s c =
     (if is_privileged c \<or> asked r (uids c) \<and> asked e (uids c) \<and> asked s (uids c)
      then Inr (if is_resuid_noop c r e s then c else set_resuid_unchecked r e s c) else Inl EPERM_ERR)"
  by (simp add: set_resuid_def check_uid_change_iff)

lemma set_resgid_eq:
  "set_resgid r e s c =
     (if is_privileged c \<or> asked r (gids c) \<and> asked e (gids c) \<and> asked s (gids c)
      then Inr (if is_resgid_noop c r e s then c else set_resgid_unchecked r e s c) else Inl EPERM_ERR)"
  by (simp add: set_resgid_def check_gid_change_iff)

text \<open>\<open>setreuid\<close> is \<open>setresuid\<close> with the saved ID chosen by the call.\<close>

lemma set_reuid_eq:
  "set_reuid r e c =
     (if is_privileged c \<or> asked r {ruid c, euid c} \<and> asked e (uids c)
      then Inr (set_resuid_unchecked r e
        (if r \<noteq> None \<or> \<not> asked e {ruid c} then Some (case e of Some x \<Rightarrow> x | None \<Rightarrow> euid c) else None) c)
      else Inl EPERM_ERR)"
  by (cases r; cases e) (auto simp: set_reuid_def set_resuid_unchecked_def uids_def Let_def)

lemma set_regid_eq:
  "set_regid r e c =
     (if is_privileged c \<or> asked r {rgid c, egid c} \<and> asked e (gids c)
      then Inr (set_resgid_unchecked r e
        (if r \<noteq> None \<or> \<not> asked e {rgid c} then Some (case e of Some x \<Rightarrow> x | None \<Rightarrow> egid c) else None) c)
      else Inl EPERM_ERR)"
  by (cases r; cases e) (auto simp: set_regid_def set_resgid_unchecked_def gids_def Let_def)

lemma set_resuid_unchecked_ids:
  assumes "asked r (uids c)" "asked e (uids c)" "asked s (uids c)"
  shows "uids (set_resuid_unchecked r e s c) \<subseteq> uids c
    \<and> file_uids (set_resuid_unchecked r e s c) \<subseteq> file_uids c
    \<and> file_gids (set_resuid_unchecked r e s c) = file_gids c"
  using assms by (cases r; cases e; cases s) (simp_all add: id_sets)

lemma set_resgid_unchecked_ids:
  assumes "asked r (gids c)" "asked e (gids c)" "asked s (gids c)"
  shows "file_gids (set_resgid_unchecked r e s c) \<subseteq> file_gids c
    \<and> uids (set_resgid_unchecked r e s c) = uids c
    \<and> file_uids (set_resgid_unchecked r e s c) = file_uids c"
  using assms by (cases r; cases e; cases s) (simp add: id_sets, blast)+

lemma asked_insert [simp]: "asked (if b then Some x else None) S \<longleftrightarrow> (b \<longrightarrow> x \<in> S)"
  by simp

lemma unprivileged_step:
  assumes step: "cred_step c c'" and up: "\<not> is_privileged c"
  shows "uids c' \<subseteq> uids c \<and> file_uids c' \<subseteq> file_uids c \<and> file_gids c' \<subseteq> file_gids c"
  using step
proof (cases rule: cred_step.cases)
  case (setreuid r e)
  have "(case optional_id e of Some x \<Rightarrow> x | None \<Rightarrow> euid c) \<in> uids c" if "asked (optional_id e) (uids c)"
    using that by (cases "optional_id e") (auto simp: uids_def)
  moreover have "asked (optional_id r) (uids c)" if "asked (optional_id r) {ruid c, euid c}"
    using that by (auto simp: uids_def)
  ultimately show ?thesis
    using set_resuid_unchecked_ids [of "optional_id r" c "optional_id e"] up
    by (simp add: setreuid sys_defs set_reuid_eq)
next
  case (setregid r e)
  have "(case optional_id e of Some x \<Rightarrow> x | None \<Rightarrow> egid c) \<in> gids c" if "asked (optional_id e) (gids c)"
    using that by (cases "optional_id e") (auto simp: gids_def)
  moreover have "asked (optional_id r) (gids c)" if "asked (optional_id r) {rgid c, egid c}"
    using that by (auto simp: gids_def)
  ultimately show ?thesis
    using set_resgid_unchecked_ids [of "optional_id r" c "optional_id e"] up
    by (simp add: setregid sys_defs set_regid_eq)
next
  case (setresuid r e s)
  then show ?thesis
    using set_resuid_unchecked_ids [of "optional_id r" c "optional_id e" "optional_id s"] up
    by (simp add: sys_defs set_resuid_eq)
next
  case (setresgid r e s)
  then show ?thesis
    using set_resgid_unchecked_ids [of "optional_id r" c "optional_id e" "optional_id s"] up
    by (simp add: sys_defs set_resgid_eq)
next
  case (setfsgid g)
  then show ?thesis using up by (auto simp: sys_defs set_fsgid_def id_sets Let_def)
next
  case (setgid g)
  then show ?thesis using up by (auto simp: sys_defs set_gid_def id_sets)
qed (use up in \<open>auto simp: sys_defs prctl_set_keepcaps_def set_uid_def set_fsuid_def
    keep_caps_enable_def keep_caps_disable_def apply_exec_def id_sets Let_def\<close>)

subsection \<open>Confinement\<close>

text \<open>
  A transition system whose guard is kept and whose authority never grows while the guard holds.
\<close>

locale confinement =
  fixes trans :: "'c \<Rightarrow> 'c \<Rightarrow> bool" and guarded :: "'c \<Rightarrow> bool" and authority :: "'c \<Rightarrow> 'i set"
  assumes authority_mono: "\<lbrakk>trans c d; guarded c\<rbrakk> \<Longrightarrow> authority d \<subseteq> authority c"
    and guarded_kept: "\<lbrakk>trans c d; guarded c\<rbrakk> \<Longrightarrow> guarded d"
begin

lemma confined: "\<lbrakk>trans\<^sup>*\<^sup>* c d; guarded c\<rbrakk> \<Longrightarrow> guarded d \<and> authority d \<subseteq> authority c"
  by (induction rule: rtranclp_induct) (use authority_mono guarded_kept in blast)+

end

lemma dropped_unprivileged: "dropped c \<Longrightarrow> \<not> is_privileged c"
  by (auto simp: dropped_def uids_def is_privileged_def)

lemma dropped_step:
  assumes "cred_step c d" "dropped c"
  shows "dropped d" "uids d \<subseteq> uids c" "file_uids d \<subseteq> file_uids c" "file_gids d \<subseteq> file_gids c"
  using unprivileged_step [OF assms(1) dropped_unprivileged [OF assms(2)]] assms(2)
  by (auto simp: dropped_def)

interpretation uid_confinement: confinement cred_step dropped uids
  by unfold_locales (rule dropped_step; assumption)+

interpretation file_uid_confinement: confinement cred_step dropped file_uids
  by unfold_locales (rule dropped_step; assumption)+

interpretation file_gid_confinement: confinement cred_step dropped file_gids
  by unfold_locales (rule dropped_step; assumption)+

section \<open>Group membership\<close>

lemma bsearch_base_bounds:
  "0 < sz \<Longrightarrow> bsearch_base xs k base sz < base + sz"
  by (induction xs k base sz rule: bsearch_base.induct) (subst bsearch_base.simps, force simp: Let_def)

text \<open>When the key is in the window, the halving loop ends on an occurrence of it.\<close>

lemma bsearch_base_finds:
  assumes "sorted xs" "base + sz \<le> length xs" "\<exists>i. base \<le> i \<and> i < base + sz \<and> xs ! i = k"
  shows "xs ! bsearch_base xs k base sz = k"
  using assms
proof (induction xs k base sz rule: bsearch_base.induct)
  case (1 xs k base sz)
  then obtain i where i: "base \<le> i" "i < base + sz" "xs ! i = k" by blast
  show ?case
  proof (cases "1 < sz")
    case False
    with i have "i = base" by linarith
    with False i show ?thesis by (subst bsearch_base.simps) simp
  next
    case True
    let ?mid = "base + sz div 2"
    let ?base = "if k < xs ! ?mid then base else ?mid"
    have "\<exists>i. ?base \<le> i \<and> i < ?base + (sz - sz div 2) \<and> xs ! i = k"
    proof (cases "k < xs ! ?mid")
      case gt: True
      then have "i < ?mid" using i "1.prems"(1,2) True by (meson leD le_less_linear order_less_le_trans sorted_nth_mono)
      then show ?thesis using gt i by (intro exI [of _ i]) auto
    next
      case le: False
      have "xs ! ?mid = k" if "i < ?mid"
        using that le i "1.prems"(1,2) True sorted_nth_mono [of xs i ?mid] by (simp add: not_less)
      then show ?thesis using le i True by (cases "i < ?mid") (auto intro: exI [of _ ?mid] exI [of _ i])
    qed
    moreover have "?base + (sz - sz div 2) \<le> length xs" using "1.prems"(2) True by auto
    ultimately have "xs ! bsearch_base xs k ?base (sz - sz div 2) = k"
      using "1.IH" [OF True refl refl] "1.prems"(1) by blast
    then show ?thesis using True by (subst bsearch_base.simps) (simp add: Let_def if_distrib)
  qed
qed

lemma binary_search_sound: "binary_search xs k = Some i \<Longrightarrow> k \<in> set xs"
  using bsearch_base_bounds [of "length xs" xs k 0]
  by (auto simp: binary_search_def Let_def split: if_splits)

lemma binary_search_iff:
  assumes "sorted xs"
  shows "binary_search xs k \<noteq> None \<longleftrightarrow> k \<in> set xs"
proof
  assume "k \<in> set xs"
  then obtain i where "i < length xs" "xs ! i = k" by (auto simp: in_set_conv_nth)
  then have "xs ! bsearch_base xs k 0 (length xs) = k" "xs \<noteq> []"
    using bsearch_base_finds [OF assms, of 0 "length xs" k] by auto
  then show "binary_search xs k \<noteq> None" by (simp add: binary_search_def Let_def)
qed (auto dest: binary_search_sound)

lemma cred_step_sorted: "\<lbrakk>cred_step c d; sorted (groups c)\<rbrakk> \<Longrightarrow> sorted (groups d)"
  by (induction rule: cred_step.induct)
    (auto simp: sys_defs prctl_set_keepcaps_def set_uid_def set_gid_def set_reuid_eq set_regid_eq set_resuid_eq
      set_resgid_eq set_fsuid_def set_fsgid_def set_supplementary_groups_def keep_caps_enable_def
      keep_caps_disable_def apply_exec_def Let_def split: sum.split)

lemma cred_steps_sorted: "\<lbrakk>cred_step\<^sup>*\<^sup>* c d; sorted (groups c)\<rbrakk> \<Longrightarrow> sorted (groups d)"
  by (induction rule: rtranclp_induct) (use cred_step_sorted in blast)+

section \<open>Properties\<close>

text \<open>
  C7. A task none of whose real, effective and saved user IDs is root never becomes privileged again,
  whatever sequence of credential calls it makes: its user IDs, its filesystem user ID and every
  group it belongs to stay among those it had.
\<close>

theorem dropped_stays_dropped:
  assumes "cred_step\<^sup>*\<^sup>* c d" and "0 \<notin> {ruid c, euid c, suid c}"
  shows "\<not> is_privileged d \<and> \<not> has_sys_admin d \<and> {ruid d, euid d, suid d} \<subseteq> {ruid c, euid c, suid c}
    \<and> fsuid d \<in> {ruid c, euid c, suid c, fsuid c}
    \<and> (\<forall>g. in_group d g \<longrightarrow> g \<in> {rgid c, egid c, sgid c, fsgid c} \<union> set (groups c))"
proof -
  have "dropped c" using assms(2) by (simp add: dropped_def uids_def)
  note conf = uid_confinement.confined [OF assms(1) this] file_uid_confinement.confined [OF assms(1) this]
    file_gid_confinement.confined [OF assms(1) this]
  have "in_group d g \<Longrightarrow> g \<in> file_gids d" for g
    by (auto simp: in_group_def file_gids_def dest: binary_search_sound)
  moreover have "\<not> is_privileged d" "\<not> has_sys_admin d"
    using conf(1) dropped_unprivileged by (auto simp: has_sys_admin_def is_privileged_def)
  moreover have "uids d \<subseteq> uids c" "file_uids d \<subseteq> file_uids c" "file_gids d \<subseteq> file_gids c"
    using conf by blast+
  ultimately show ?thesis unfolding id_sets by blast
qed

theorem dropped_stays_dropped_witness:
  "\<not> is_privileged (fst (sys_setuid 0 (cred_new 1000 100)))"
  using dropped_stays_dropped [of "cred_new 1000 100" "fst (sys_setuid 0 (cred_new 1000 100))"]
  by (simp add: cred_new_def r_into_rtranclp cred_step.setuid)

text \<open>
  A privileged task that calls \<open>setuid\<close> with a user ID other than root gives the privilege up for
  good: after any further credential calls its real, effective and saved user IDs are still that ID.
\<close>

theorem setuid_drops_for_good:
  assumes "is_privileged c" "u \<noteq> 0" "cred_step\<^sup>*\<^sup>* (fst (sys_setuid u c)) d"
  shows "ruid d = u \<and> euid d = u \<and> suid d = u"
proof -
  have "uids (fst (sys_setuid u c)) = {u}"
    using assms(1) by (simp add: sys_defs set_uid_def uids_def)
  moreover from this have "dropped (fst (sys_setuid u c))" using assms(2) by (simp add: dropped_def)
  ultimately have "uids d \<subseteq> {u}" using uid_confinement.confined [OF assms(3)] by simp
  then show ?thesis by (simp add: uids_def)
qed

theorem setuid_drops_for_good_witness:
  "euid (fst (sys_setresuid 0 0 0 (fst (sys_setuid 1000 cred_root)))) = 1000"
  using setuid_drops_for_good [of cred_root 1000 "fst (sys_setresuid 0 0 0 (fst (sys_setuid 1000 cred_root)))"]
  by (simp add: cred_root_def cred_new_def is_privileged_def r_into_rtranclp cred_step.setresuid)

text \<open>
  C28. On every credential reachable from the initial root credential the group list is sorted, so the
  binary search of \<open>in_group\<close> answers exactly membership in the filesystem group or that list.
\<close>

theorem in_group_exact:
  assumes "cred_step\<^sup>*\<^sup>* cred_root c"
  shows "sorted (groups c) \<and> (in_group c g \<longleftrightarrow> g = fsgid c \<or> g \<in> set (groups c))"
proof -
  have "sorted (groups c)" using cred_steps_sorted [OF assms] by (simp add: cred_root_def cred_new_def)
  then show ?thesis using binary_search_iff [of "groups c" g] by (auto simp: in_group_def)
qed

theorem in_group_exact_witness:
  "in_group (fst (sys_setgroups 3 False (Inr [30, 10, 20]) cred_root)) 10"
  using in_group_exact [OF r_into_rtranclp [where r = cred_step, OF cred_step.setgroups],
      of 3 False "Inr [30, 10, 20]" 10]
  by (simp add: sys_defs set_supplementary_groups_def cred_root_def
      cred_new_def is_privileged_def)

text \<open>
  C29. \<open>setresuid\<close> succeeds exactly for a privileged task or when every requested ID is one of the three
  current IDs; then the three IDs are the requested ones, an argument of all ones keeping its ID, and
  group IDs and groups are untouched. Otherwise it reports a permission error and changes nothing.
\<close>

theorem sys_setresuid_spec:
  "sys_setresuid r e s c =
     (if is_privileged c \<or> {r, e, s} - {0xffffffff} \<subseteq> {ruid c, euid c, suid c}
      then (c\<lparr>ruid := if r = 0xffffffff then ruid c else r,
              euid := if e = 0xffffffff then euid c else e,
              suid := if s = 0xffffffff then suid c else s,
              fsuid := if r \<in> {ruid c, 0xffffffff} \<and> s \<in> {suid c, 0xffffffff}
                          \<and> (e = 0xffffffff \<or> e = euid c \<and> e = fsuid c) then fsuid c
                       else if e = 0xffffffff then euid c else e\<rparr>, Inr ())
      else (c, Inl (kerror_new_ax OperationNotPermitted)))"
proof -
  let ?r = "optional_id r" and ?e = "optional_id e" and ?s = "optional_id s"
  have ids: "set_option (optional_id x) = {x} - {0xffffffff}" for x by (auto simp: optional_id_def)
  have "(asked ?r (uids c) \<and> asked ?e (uids c) \<and> asked ?s (uids c))
    \<longleftrightarrow> {r, e, s} - {0xffffffff} \<subseteq> {ruid c, euid c, suid c}"
    unfolding ids uids_def by (simp only: insert_Diff_if empty_Diff) simp
  moreover have "(if is_resuid_noop c ?r ?e ?s then c else set_resuid_unchecked ?r ?e ?s c)
    = c\<lparr>ruid := if r = 0xffffffff then ruid c else r,
              euid := if e = 0xffffffff then euid c else e,
              suid := if s = 0xffffffff then suid c else s,
              fsuid := if r \<in> {ruid c, 0xffffffff} \<and> s \<in> {suid c, 0xffffffff}
                          \<and> (e = 0xffffffff \<or> e = euid c \<and> e = fsuid c) then fsuid c
                       else if e = 0xffffffff then euid c else e\<rparr>"
    by (cases c; cases "r = 0xffffffff"; cases "e = 0xffffffff"; cases "s = 0xffffffff")
      (simp_all add: is_resuid_noop_def set_resuid_unchecked_def optional_id_def, auto)
  ultimately show ?thesis
    by (simp add: sys_setresuid_def update_current_cred_def set_resuid_eq)
qed

end
