(* ===== verification/MemAddr.thy ===== *)
theory MemAddr
  imports Prelude
begin

text \<open>
  Addresses, alignment, address ranges and page iterators of \<open>src/mm/memaddr\<close>. \<open>PhysAddr\<close> and
  \<open>VirtAddr\<close> are transparent wrappers of \<open>usize\<close> whose generic operations convert, compute and convert
  back, so an address is a 64-bit word and the \<open>MemoryAddr\<close> aliases are the operations they name. A
  panic is the value \<open>None\<close>.
\<close>

unbundle bit_operations_syntax

type_synonym addr = usize
type_synonym isize = "64 word"

section \<open>Alignment\<close>

definition assert_valid_align :: "usize \<Rightarrow> bool" where
  "assert_valid_align align \<longleftrightarrow> align \<noteq> 0 \<and> align AND (align - 1) = 0"

definition floor_align :: "usize \<Rightarrow> usize \<Rightarrow> usize option" where
  "floor_align a align =
     (if assert_valid_align align then let m = align - 1 in Some (a AND NOT m) else None)"

definition ceil_align :: "usize \<Rightarrow> usize \<Rightarrow> usize option" where
  "ceil_align a align =
     (if assert_valid_align align then
        let m = align - 1 in map_option (\<lambda>s. s AND NOT m) (checked_add a m)
      else None)"

definition align_rem :: "usize \<Rightarrow> usize \<Rightarrow> usize option" where
  "align_rem a align = (if assert_valid_align align then Some (a AND (align - 1)) else None)"

definition aligned_to :: "usize \<Rightarrow> usize \<Rightarrow> bool option" where
  "aligned_to a align = map_option (\<lambda>r. r = 0) (align_rem a align)"

abbreviation (input) PAGE_SIZE_4K :: usize where "PAGE_SIZE_4K \<equiv> 0x1000"

definition floor_4k :: "usize \<Rightarrow> usize option" where
  "floor_4k a = floor_align a PAGE_SIZE_4K"

definition ceil_4k :: "usize \<Rightarrow> usize option" where
  "ceil_4k a = ceil_align a PAGE_SIZE_4K"

definition rem_4k :: "usize \<Rightarrow> usize option" where
  "rem_4k a = align_rem a PAGE_SIZE_4K"

definition aligned_4k :: "usize \<Rightarrow> bool option" where
  "aligned_4k a = aligned_to a PAGE_SIZE_4K"

section \<open>Address arithmetic\<close>

text \<open>\<open>checked_add_signed\<close> of the core library: the sum when it is an address.\<close>

definition checked_add_signed :: "usize \<Rightarrow> isize \<Rightarrow> usize option" where
  "checked_add_signed a d =
     (if 0 \<le> uint a + sint d \<and> uint a + sint d < 2 ^ 64 then Some (a + d) else None)"

definition offset_signed :: "addr \<Rightarrow> isize \<Rightarrow> addr option" where
  "offset_signed a d = checked_add_signed a d"

definition offset_wrapping :: "addr \<Rightarrow> isize \<Rightarrow> addr" where
  "offset_wrapping a d = a + d"

definition delta_from :: "addr \<Rightarrow> addr \<Rightarrow> isize option" where
  "delta_from a base =
     (let raw = a - base in
      if raw = 0 then Some 0
      else let forward = base < a in
      if (0 < sint raw) = forward then Some raw else None)"

definition add_usize :: "addr \<Rightarrow> usize \<Rightarrow> addr option" where
  "add_usize a n = checked_add a n"

definition add_wrapping :: "addr \<Rightarrow> usize \<Rightarrow> addr" where
  "add_wrapping a n = a + n"

definition add_overflowing :: "addr \<Rightarrow> usize \<Rightarrow> addr \<times> bool" where
  "add_overflowing a n = overflowing_add a n"

definition add_checked :: "addr \<Rightarrow> usize \<Rightarrow> addr option" where
  "add_checked a n = checked_add a n"

definition sub_usize :: "addr \<Rightarrow> usize \<Rightarrow> addr option" where
  "sub_usize a n = checked_sub a n"

definition sub_wrapping :: "addr \<Rightarrow> usize \<Rightarrow> addr" where
  "sub_wrapping a n = a - n"

definition sub_overflowing :: "addr \<Rightarrow> usize \<Rightarrow> addr \<times> bool" where
  "sub_overflowing a n = overflowing_sub a n"

definition sub_checked :: "addr \<Rightarrow> usize \<Rightarrow> addr option" where
  "sub_checked a n = checked_sub a n"

definition addr_diff :: "addr \<Rightarrow> addr \<Rightarrow> usize option" where
  "addr_diff a b = checked_sub a b"

definition diff_wrapping :: "addr \<Rightarrow> addr \<Rightarrow> usize" where
  "diff_wrapping a b = a - b"

definition diff_overflowing :: "addr \<Rightarrow> addr \<Rightarrow> usize \<times> bool" where
  "diff_overflowing a b = overflowing_sub a b"

definition diff_checked :: "addr \<Rightarrow> addr \<Rightarrow> usize option" where
  "diff_checked a b = checked_sub a b"

section \<open>Address ranges\<close>

record addr_range =
  range_start :: addr
  range_end :: addr

definition range_new :: "addr \<Rightarrow> addr \<Rightarrow> addr_range option" where
  "range_new s e = (if s \<le> e then Some \<lparr>range_start = s, range_end = e\<rparr> else None)"

definition range_try_new :: "addr \<Rightarrow> addr \<Rightarrow> addr_range option" where
  "range_try_new s e = (if s \<le> e then Some \<lparr>range_start = s, range_end = e\<rparr> else None)"

definition from_start_size :: "addr \<Rightarrow> usize \<Rightarrow> addr_range option" where
  "from_start_size s n =
     (case add_checked s n of Some e \<Rightarrow> Some \<lparr>range_start = s, range_end = e\<rparr> | None \<Rightarrow> None)"

definition try_from_start_size :: "addr \<Rightarrow> usize \<Rightarrow> addr_range option" where
  "try_from_start_size s n = map_option (\<lambda>e. \<lparr>range_start = s, range_end = e\<rparr>) (add_checked s n)"

definition from_start_size_unchecked :: "addr \<Rightarrow> usize \<Rightarrow> addr_range" where
  "from_start_size_unchecked s n = \<lparr>range_start = s, range_end = add_wrapping s n\<rparr>"

definition range_is_empty :: "addr_range \<Rightarrow> bool" where
  "range_is_empty r \<longleftrightarrow> range_start r \<ge> range_end r"

definition range_size :: "addr_range \<Rightarrow> usize" where
  "range_size r = diff_wrapping (range_end r) (range_start r)"

definition range_contains :: "addr_range \<Rightarrow> addr \<Rightarrow> bool" where
  "range_contains r a \<longleftrightarrow> range_start r \<le> a \<and> a < range_end r"

definition contains_range :: "addr_range \<Rightarrow> addr_range \<Rightarrow> bool" where
  "contains_range r s \<longleftrightarrow> range_start r \<le> range_start s \<and> range_end s \<le> range_end r"

definition contained_in :: "addr_range \<Rightarrow> addr_range \<Rightarrow> bool" where
  "contained_in r s = contains_range s r"

definition range_overlaps :: "addr_range \<Rightarrow> addr_range \<Rightarrow> bool" where
  "range_overlaps r s \<longleftrightarrow> range_start r < range_end s \<and> range_start s < range_end r"

definition range_default :: addr_range where
  "range_default = \<lparr>range_start = 0, range_end = 0\<rparr>"

section \<open>Page iterators\<close>

text \<open>
  \<open>next\<close> returns the advanced iterator and the item, or nothing at the end; the outer \<open>None\<close> is the
  overflow panic of the address addition.
\<close>

record page_iter =
  iter_next :: addr
  iter_limit :: addr

record dyn_page_iter =
  dyn_cursor :: addr
  dyn_limit :: addr
  dyn_step :: usize

definition page_iter_with_bounds :: "usize \<Rightarrow> addr \<Rightarrow> addr \<Rightarrow> page_iter option" where
  "page_iter_with_bounds page_size s e =
     (if is_power_of_two page_size \<and> aligned_to s page_size = Some True \<and> aligned_to e page_size = Some True
      then Some \<lparr>iter_next = s, iter_limit = e\<rparr> else None)"

definition page_iter_next :: "usize \<Rightarrow> page_iter \<Rightarrow> (page_iter \<times> addr option) option" where
  "page_iter_next page_size it =
     (if iter_next it < iter_limit it then
        case add_usize (iter_next it) page_size of
          None \<Rightarrow> None
        | Some n \<Rightarrow> Some (it\<lparr>iter_next := n\<rparr>, Some (iter_next it))
      else Some (it, None))"

definition dyn_page_iter_with_bounds :: "addr \<Rightarrow> addr \<Rightarrow> usize \<Rightarrow> dyn_page_iter option" where
  "dyn_page_iter_with_bounds s e page_size =
     (if is_power_of_two page_size \<and> aligned_to s page_size = Some True \<and> aligned_to e page_size = Some True
      then Some \<lparr>dyn_cursor = s, dyn_limit = e, dyn_step = page_size\<rparr> else None)"

definition dyn_page_iter_next :: "dyn_page_iter \<Rightarrow> (dyn_page_iter \<times> addr option) option" where
  "dyn_page_iter_next it =
     (if dyn_cursor it < dyn_limit it then
        case add_usize (dyn_cursor it) (dyn_step it) of
          None \<Rightarrow> None
        | Some n \<Rightarrow> Some (it\<lparr>dyn_cursor := n\<rparr>, Some (dyn_cursor it))
      else Some (it, None))"

text \<open>A \<open>for\<close> loop over an iterator: the items until the first end.\<close>

partial_function (option) iterate :: "('s \<Rightarrow> ('s \<times> 'a option) option) \<Rightarrow> 's \<Rightarrow> 'a list option" where
  "iterate step s =
     (case step s of
        None \<Rightarrow> None
      | Some (s', None) \<Rightarrow> Some []
      | Some (s', Some a) \<Rightarrow> Option.bind (iterate step s') (\<lambda>as. Some (a # as)))"

declare iterate.simps [code]

section \<open>Alignment, numerically\<close>

lemma valid_align_iff: "assert_valid_align a \<longleftrightarrow> is_power_of_two a"
  by (simp add: assert_valid_align_def is_power_of_two_def)

lemma valid_alignE:
  assumes "assert_valid_align a"
  obtains k where "k < 64" "a = 2 ^ k" "a - 1 = mask k" "unat a = 2 ^ k"
proof -
  obtain k where "k < 64" "a = 2 ^ k" using assms by (auto simp: valid_align_iff is_power_of_two_iff)
  then show thesis
    using that [of k] by (simp add: mask_eq_exp_minus_1 unat_exp)
qed

lemma floor_align_unat:
  assumes "assert_valid_align align"
  shows "\<exists>f. floor_align a align = Some f \<and> unat f = unat a div unat align * unat align"
proof -
  obtain k where "k < 64" "align - 1 = mask k" "unat align = 2 ^ k" using assms by (rule valid_alignE)
  then show ?thesis using assms by (simp add: floor_align_def unat_and_not_mask)
qed

lemma ceil_align_unat:
  assumes "assert_valid_align align"
  shows "unat a + (unat align - 1) < 2 ^ 64 \<Longrightarrow>
      \<exists>c. ceil_align a align = Some c \<and> unat c = (unat a + (unat align - 1)) div unat align * unat align"
    and "2 ^ 64 \<le> unat a + (unat align - 1) \<Longrightarrow> ceil_align a align = None"
proof -
  obtain k where k: "k < 64" "align - 1 = mask k" "unat align = 2 ^ k" using assms by (rule valid_alignE)
  have m: "unat (mask k :: usize) = 2 ^ k - 1" using k(1) by (simp add: unat_mask_eq)
  show "ceil_align a align = None" if "2 ^ 64 \<le> unat a + (unat align - 1)"
    using that assms k m by (simp add: ceil_align_def checked_add_def)
  assume lt: "unat a + (unat align - 1) < 2 ^ 64"
  then have "unat (a + mask k) = unat a + (2 ^ k - 1)"
    using k(3) m by (simp add: unat_add_no_wrap)
  then have "unat ((a + mask k) AND NOT (mask k)) = (unat a + (2 ^ k - 1)) div 2 ^ k * 2 ^ k"
    using k(1) by (simp add: unat_and_not_mask)
  then show "\<exists>c. ceil_align a align = Some c \<and> unat c = (unat a + (unat align - 1)) div unat align * unat align"
    using lt assms k m by (simp add: ceil_align_def checked_add_def Let_def)
qed

lemma aligned_to_iff:
  assumes "assert_valid_align align"
  shows "aligned_to a align = Some (unat align dvd unat a)"
proof -
  obtain k where k: "k < 64" "align - 1 = mask k" "unat align = 2 ^ k" using assms by (rule valid_alignE)
  have "a AND mask k = 0 \<longleftrightarrow> unat (a AND mask k) = 0" by (simp only: unat_eq_zero)
  then show ?thesis
    using assms k by (simp add: aligned_to_def align_rem_def unat_and_mask mod_eq_0_iff_dvd)
qed

section \<open>Walking pages\<close>

text \<open>
  The contract of a page walk: below the limit it yields its position and advances by its step,
  otherwise it ends.
\<close>

locale page_walk =
  fixes advance :: "'s \<Rightarrow> ('s \<times> addr option) option"
    and position :: "'s \<Rightarrow> addr" and bound :: "'s \<Rightarrow> addr" and stride :: "'s \<Rightarrow> usize"
  assumes advance_end: "\<not> position s < bound s \<Longrightarrow> advance s = Some (s, None)"
    and advance_item: "\<lbrakk>position s < bound s; checked_add (position s) (stride s) = Some n\<rbrakk> \<Longrightarrow>
      \<exists>s'. advance s = Some (s', Some (position s)) \<and> position s' = n \<and> bound s' = bound s \<and> stride s' = stride s"
begin

lemma iterate_pages:
  assumes "unat (bound s) = unat (position s) + n * unat (stride s)" "0 < unat (stride s)"
  shows "iterate advance s = Some (map (\<lambda>i. position s + of_nat i * stride s) [0..<n])"
  using assms
proof (induction n arbitrary: s)
  case 0
  then have "\<not> position s < bound s" by (simp add: word_less_nat_alt)
  then show ?case by (subst iterate.simps) (simp add: advance_end)
next
  case (Suc n)
  have le: "unat (position s) + unat (stride s) \<le> unat (bound s)" using Suc.prems(1) by simp
  then have lt: "unat (position s) + unat (stride s) < 2 ^ 64"
    using unat_u64_less [of "bound s"] by simp
  moreover have "position s < bound s" using le Suc.prems(2) by (simp add: word_less_nat_alt)
  ultimately obtain s' where s': "advance s = Some (s', Some (position s))"
    "position s' = position s + stride s" "bound s' = bound s" "stride s' = stride s"
    using advance_item [of s "position s + stride s"] by (auto simp: checked_add_def)
  have "unat (position s + stride s) = unat (position s) + unat (stride s)"
    using lt by (simp add: unat_add_no_wrap)
  then have "iterate advance s' = Some (map (\<lambda>i. position s' + of_nat i * stride s') [0..<n])"
    using Suc.prems s' by (intro Suc.IH) simp_all
  moreover have "map (\<lambda>i. position s + of_nat i * stride s) [0..<Suc n]
      = position s # map (\<lambda>i. position s' + of_nat i * stride s') [0..<n]"
    using s' by (simp add: upt_conv_Cons map_Suc_upt [symmetric] algebra_simps del: upt_Suc)
  ultimately show ?case using s'(1) by (subst iterate.simps) (simp del: upt_Suc)
qed

end

interpretation dyn_pages: page_walk dyn_page_iter_next dyn_cursor dyn_limit dyn_step
  by unfold_locales (auto simp: dyn_page_iter_next_def add_usize_def)

interpretation const_pages: page_walk "page_iter_next ps" iter_next iter_limit "\<lambda>_. ps" for ps
  by unfold_locales (auto simp: page_iter_next_def add_usize_def)

lemma aligned_multiple:
  assumes "assert_valid_align ps" "aligned_to s ps = Some True" "aligned_to e ps = Some True" "s \<le> e"
  shows "unat e = unat s + (unat e - unat s) div unat ps * unat ps" "0 < unat ps"
proof -
  have "unat ps dvd unat e - unat s" using assms by (simp add: aligned_to_iff dvd_diff_nat)
  then show "unat e = unat s + (unat e - unat s) div unat ps * unat ps"
    using assms(4) by (simp add: word_le_nat_alt)
  show "0 < unat ps" using assms(1) by (simp add: assert_valid_align_def unat_gt_0)
qed

section \<open>Properties\<close>

text \<open>
  C37. For a valid alignment, aligning down gives the greatest multiple not above the address;
  aligning up gives the least multiple not below it, and panics exactly when that computation would
  leave the address space.
\<close>

theorem align_bounds:
  assumes "is_power_of_two align"
  shows "(\<exists>f. floor_align a align = Some f \<and> f \<le> a \<and> unat align dvd unat f \<and> unat a < unat f + unat align)
    \<and> (case ceil_align a align of
        None \<Rightarrow> 2 ^ 64 \<le> unat a + (unat align - 1)
      | Some c \<Rightarrow> a \<le> c \<and> unat align dvd unat c \<and> unat c < unat a + unat align)"
proof (intro conjI)
  note v = assms [folded valid_align_iff]
  let ?n = "unat align"
  have n: "0 < ?n" using v by (simp add: assert_valid_align_def unat_gt_0)
  obtain f where f: "floor_align a align = Some f" "unat f = unat a div ?n * ?n"
    using floor_align_unat [OF v] by blast
  have "unat f \<le> unat a" "unat a < unat f + ?n"
    using f(2) n dividend_less_div_times [of ?n "unat a"] by (simp_all add: div_times_less_eq_dividend)
  then show "\<exists>f. floor_align a align = Some f \<and> f \<le> a \<and> ?n dvd unat f \<and> unat a < unat f + ?n"
    using f by (auto simp: word_le_nat_alt)
  let ?s = "unat a + (?n - 1)"
  have q: "unat a \<le> ?s div ?n * ?n" "?s div ?n * ?n < unat a + ?n"
    using n dividend_less_div_times [of ?n ?s] div_times_less_eq_dividend [of ?s ?n] by linarith+
  show "case ceil_align a align of
        None \<Rightarrow> 2 ^ 64 \<le> ?s
      | Some c \<Rightarrow> a \<le> c \<and> ?n dvd unat c \<and> unat c < unat a + ?n"
  proof (cases "?s < 2 ^ 64")
    case True
    then obtain c where c: "ceil_align a align = Some c" "unat c = ?s div ?n * ?n"
      using ceil_align_unat(1) [OF v] by blast
    then have "unat a \<le> unat c" "unat c < unat a + ?n" "?n dvd unat c"
      using q by (simp_all only: dvd_triv_right)
    with c(1) show ?thesis by (simp add: word_le_nat_alt)
  next
    case False
    then show ?thesis using ceil_align_unat(2) [OF v, of a] by simp
  qed
qed

theorem align_bounds_witness:
  "\<exists>f. floor_align 0x1fff 0x1000 = Some f \<and> f \<le> 0x1fff \<and> unat (0x1000 :: usize) dvd unat f"
  using align_bounds [of "0x1000" "0x1fff"] by (auto simp: is_power_of_two_def)

text \<open>
  C36. A page iterator over aligned bounds never panics, even when the last page ends at the top of
  the address range it was given: it yields exactly the page addresses from the start to the end, in
  ascending order, once each.
\<close>

theorem page_iter_exact:
  assumes "dyn_page_iter_with_bounds s e ps = Some it" "s \<le> e"
  shows "iterate dyn_page_iter_next it
    = Some (map (\<lambda>i. s + of_nat i * ps) [0..<(unat e - unat s) div unat ps])
    \<and> map_option (iterate (page_iter_next ps)) (page_iter_with_bounds ps s e) = Some (iterate dyn_page_iter_next it)"
proof (intro conjI)
  have c: "assert_valid_align ps" "aligned_to s ps = Some True" "aligned_to e ps = Some True"
    and it: "it = \<lparr>dyn_cursor = s, dyn_limit = e, dyn_step = ps\<rparr>"
    using assms(1) by (simp_all add: dyn_page_iter_with_bounds_def valid_align_iff split: if_splits)
  note m = aligned_multiple [OF c assms(2)]
  show dyn: "iterate dyn_page_iter_next it
    = Some (map (\<lambda>i. s + of_nat i * ps) [0..<(unat e - unat s) div unat ps])"
    using m dyn_pages.iterate_pages [of it "(unat e - unat s) div unat ps"] by (simp add: it)
  show "map_option (iterate (page_iter_next ps)) (page_iter_with_bounds ps s e)
    = Some (iterate dyn_page_iter_next it)"
    using m c const_pages.iterate_pages [of "\<lparr>iter_next = s, iter_limit = e\<rparr>" "(unat e - unat s) div unat ps" ps]
    by (simp add: dyn page_iter_with_bounds_def valid_align_iff)
qed

theorem page_iter_exact_witness:
  "iterate dyn_page_iter_next \<lparr>dyn_cursor = 0x1000, dyn_limit = 0x3000, dyn_step = 0x1000\<rparr>
     = Some [0x1000, 0x2000]"
  using page_iter_exact [of "0x1000" "0x3000" "0x1000" "\<lparr>dyn_cursor = 0x1000, dyn_limit = 0x3000, dyn_step = 0x1000\<rparr>"]
  by (simp add: dyn_page_iter_with_bounds_def is_power_of_two_def aligned_to_def align_rem_def
      assert_valid_align_def upt_rec)

text \<open>The signed view of a wrapped address difference.\<close>

lemma sint_diff_bits: "sint (a - b :: addr) = signed_take_bit 63 (uint a - uint b)"
proof (transfer)
  fix a b :: int
  show "signed_take_bit (LENGTH(64) - Suc 0) (a - b) = signed_take_bit 63 (take_bit LENGTH(64) a - take_bit LENGTH(64) b)"
    by (simp add: signed_take_bit_eq_iff_take_bit_eq) (metis take_bit_diff)
qed

lemma sint_diff:
  fixes a b :: addr
  defines "D \<equiv> uint a - uint b"
  shows "sint (a - b) = (if D < - (2 ^ 63) then D + 2 ^ 64 else if D < 2 ^ 63 then D else D - 2 ^ 64)"
proof -
  have s: "sint (a - b) = (D + 2 ^ 63) mod 2 ^ 64 - 2 ^ 63"
    by (simp add: sint_diff_bits D_def signed_take_bit_eq_take_bit_shift take_bit_eq_mod)
  have "- (2 ^ 64) < D" "D < 2 ^ 64"
    using uint_u64_bounds [of a] uint_u64_bounds [of b] unfolding D_def by linarith+
  then consider "D < - (2 ^ 63)" "- (2 ^ 64) < D" | "- (2 ^ 63) \<le> D" "D < 2 ^ 63" | "2 ^ 63 \<le> D" "D < 2 ^ 64"
    by linarith
  then show ?thesis
  proof cases
    case 1
    then have "(D + 2 ^ 63) mod 2 ^ 64 = D + 2 ^ 63 + 2 ^ 64"
      using mod_pos_pos_trivial [of "D + 2 ^ 63 + 2 ^ 64" "2 ^ 64"] mod_add_self2 [of "D + 2 ^ 63" "2 ^ 64"] by simp
    with 1 s show ?thesis by simp
  next
    case 2
    with s show ?thesis by simp
  next
    case 3
    then have "(D + 2 ^ 63) mod 2 ^ 64 = D + 2 ^ 63 - 2 ^ 64"
      using mod_pos_pos_trivial [of "D + 2 ^ 63 - 2 ^ 64" "2 ^ 64"] mod_add_self2 [of "D + 2 ^ 63 - 2 ^ 64" "2 ^ 64"]
      by (simp add: add.commute)
    with 3 s show ?thesis by simp
  qed
qed

text \<open>The addresses of a range, and the invariant its checked constructors establish.\<close>

definition range_set :: "addr_range \<Rightarrow> addr set" where
  "range_set r = {a. range_contains r a}"

definition range_wf :: "addr_range \<Rightarrow> bool" where
  "range_wf r \<longleftrightarrow> range_start r \<le> range_end r"

lemma range_set_eq: "range_set r = {range_start r..<range_end r}"
  by (auto simp: range_set_def range_contains_def)

lemma card_word_interval:
  fixes s e :: addr
  assumes "s \<le> e"
  shows "card {s..<e} = unat e - unat s"
proof -
  have "unat ` {s..<e} = {unat s..<unat e}"
  proof (intro set_eqI iffI)
    fix n assume n: "n \<in> {unat s..<unat e}"
    then have "unat (of_nat n :: addr) = n"
      using unat_u64_less [of e] by (simp add: unat_of_nat)
    with n have "(of_nat n :: addr) \<in> {s..<e}" by (simp add: word_le_nat_alt word_less_nat_alt)
    then show "n \<in> unat ` {s..<e}" using \<open>unat (of_nat n :: addr) = n\<close> by (metis imageI)
  qed (auto simp: word_le_nat_alt word_less_nat_alt)
  moreover have "inj_on unat {s..<e}" by (rule inj_onI) (rule word_unat_eq_iff [THEN iffD2])
  ultimately show ?thesis by (metis card_atLeastLessThan card_image)
qed

lemma try_from_start_size_wf:
  "try_from_start_size s n = Some r \<Longrightarrow> range_wf r \<and> range_start r = s \<and> range_end r = s + n \<and> range_size r = n"
  by (auto simp: try_from_start_size_def add_checked_def range_wf_def range_size_def diff_wrapping_def
      checked_add_def word_le_nat_alt unat_add_no_wrap split: if_splits)

text \<open>
  The difference of two addresses is returned exactly when it fits a signed word, and offsetting
  the base by it gives the address back; otherwise the operation panics instead of wrapping.
\<close>

theorem delta_offset_roundtrip:
  "case delta_from a b of
     Some d \<Rightarrow> sint d = uint a - uint b \<and> offset_signed b d = Some a
   | None \<Rightarrow> uint a - uint b < - (2 ^ 63) \<or> 2 ^ 63 \<le> uint a - uint b"
proof -
  define D where "D = uint a - uint b"
  have lt: "b < a \<longleftrightarrow> 0 < D" by (simp add: word_less_def D_def)
  have z: "a - b = 0 \<longleftrightarrow> D = 0" using word_uint_eq_iff [of a b] by (simp add: D_def)
  have s: "sint (a - b) = (if D < - (2 ^ 63) then D + 2 ^ 64 else if D < 2 ^ 63 then D else D - 2 ^ 64)"
    unfolding D_def by (rule sint_diff)
  have bnd: "- (2 ^ 64) < D" "D < 2 ^ 64"
    using uint_u64_bounds [of a] uint_u64_bounds [of b] unfolding D_def by linarith+
  consider "D < - (2 ^ 63)" | "2 ^ 63 \<le> D" | "- (2 ^ 63) \<le> D" "D < 2 ^ 63" by linarith
  then show ?thesis
  proof cases
    case 1
    then have "delta_from a b = None" using z lt s bnd by (simp add: delta_from_def Let_def)
    then show ?thesis using 1 by (simp add: D_def)
  next
    case 2
    then have "delta_from a b = None" using z lt s bnd by (simp add: delta_from_def Let_def)
    then show ?thesis using 2 by (simp add: D_def)
  next
    case 3
    then have "sint (a - b) = D" using s by simp
    moreover from this have "delta_from a b = Some (a - b)" using z lt by (simp add: delta_from_def Let_def)
    moreover have "uint b + D = uint a" by (simp add: D_def)
    ultimately show ?thesis
      using uint_u64_bounds [of a] by (simp add: D_def offset_signed_def checked_add_signed_def)
  qed
qed

text \<open>
  C38. Every range built by a checked constructor is well formed, so its size never wraps: it is the
  number of addresses the range contains. On non-empty ranges containment and overlap are inclusion
  and intersection of the address sets.
\<close>

theorem addr_range_sound:
  assumes "try_from_start_size s n = Some r" "try_from_start_size s' n' = Some r'"
  shows "range_wf r \<and> range_set r = {s..<s + n} \<and> card (range_set r) = unat (range_size r)
    \<and> (range_is_empty r \<longleftrightarrow> range_set r = {})
    \<and> (range_set r' \<noteq> {} \<longrightarrow> (contains_range r r' \<longleftrightarrow> range_set r' \<subseteq> range_set r))
    \<and> (range_set r \<noteq> {} \<and> range_set r' \<noteq> {} \<longrightarrow> (range_overlaps r r' \<longleftrightarrow> range_set r \<inter> range_set r' \<noteq> {}))"
proof -
  have r: "range_wf r" "range_start r = s" "range_end r = s + n" "range_size r = n"
    using try_from_start_size_wf [OF assms(1)] by simp_all
  have "unat (range_size r) = unat (range_end r) - unat (range_start r)"
    using r(1) by (simp add: range_size_def diff_wrapping_def range_wf_def unat_sub)
  then have c: "card (range_set r) = unat (range_size r)"
    using r(1) card_word_interval by (simp add: range_set_eq range_wf_def)
  have "contains_range r r' \<longleftrightarrow> range_set r' \<subseteq> range_set r" if "range_set r' \<noteq> {}"
    using that by (auto simp: range_set_eq contains_range_def not_le)
  moreover have "range_overlaps r r' \<longleftrightarrow> range_set r \<inter> range_set r' \<noteq> {}"
    if "range_set r \<noteq> {}" "range_set r' \<noteq> {}"
    using that by (auto simp: range_set_eq range_overlaps_def not_le not_less)
  ultimately show ?thesis
    using r c by (auto simp: range_set_eq range_is_empty_def)
qed

theorem addr_range_sound_witness:
  "range_overlaps \<lparr>range_start = 0x1000, range_end = 0x3000\<rparr> \<lparr>range_start = 0x2000, range_end = 0x4000\<rparr>
   \<longleftrightarrow> {0x1000..<0x3000} \<inter> {0x2000..<0x4000 :: addr} \<noteq> {}"
  using addr_range_sound [of "0x1000" "0x2000" "\<lparr>range_start = 0x1000, range_end = 0x3000\<rparr>"
      "0x2000" "0x2000" "\<lparr>range_start = 0x2000, range_end = 0x4000\<rparr>"]
  by (simp add: try_from_start_size_def add_checked_def checked_add_def range_set_eq)

end
