(* ===== verification/Buddy.thy ===== *)
theory Buddy
  imports Prelude "HOL-Library.Monad_Syntax"
begin

text \<open>
  The binary-buddy page allocator of \<open>src/mm/alloc-engine/src/buddy_alloc.rs\<close> and its adapter
  \<open>buddy_page.rs\<close>. Addresses and sizes are natural numbers: a region is only accepted when its end is
  a 64-bit address, so no address computed inside it wraps. \<open>None\<close> is a panic, a failed debug
  assertion or an access outside the bitmap. The intrusive free lists are lists of chunk addresses,
  most recently pushed first, and \<open>node_order\<close> is the order field of the node stored in a free chunk.
\<close>

unbundle bit_operations_syntax

section \<open>Orders\<close>

abbreviation (input) MAX_ORDER :: nat where "MAX_ORDER \<equiv> 20"
abbreviation (input) MAX_REGIONS :: nat where "MAX_REGIONS \<equiv> 64"
abbreviation (input) INLINE_BITMAP_WORDS :: nat where "INLINE_BITMAP_WORDS \<equiv> 4"
abbreviation (input) WORD_BITS :: nat where "WORD_BITS \<equiv> 64"

datatype alloc_error =
    InvalidInput | AlreadyInitialized | MemoryOverlap | NoMemory | NotAllocated | NotInitialized | NotFound

definition order_pages :: "nat \<Rightarrow> nat" where
  "order_pages order = 2 ^ order"

definition order_size :: "nat \<Rightarrow> nat \<Rightarrow> nat" where
  "order_size ps order = order_pages order * ps"

text \<open>\<open>is_power_of_two\<close>, \<open>is_multiple_of\<close> and \<open>div_ceil\<close> of the core library on \<open>usize\<close> values.\<close>

definition is_pow2 :: "nat \<Rightarrow> bool" where
  "is_pow2 n \<longleftrightarrow> n \<noteq> 0 \<and> n AND (n - 1) = 0"

definition is_multiple_of :: "nat \<Rightarrow> nat \<Rightarrow> bool" where
  "is_multiple_of a n \<longleftrightarrow> (if n = 0 then a = 0 else a mod n = 0)"

definition div_ceil :: "nat \<Rightarrow> nat \<Rightarrow> nat" where
  "div_ceil a n = (a + (n - 1)) div n"

text \<open>
  \<open>count.next_power_of_two().trailing_zeros()\<close>: the least order of at least \<open>count\<close> pages, and 64 when
  the power of two leaves the word.
\<close>

definition count_order :: "nat \<Rightarrow> nat" where
  "count_order count = length (takeWhile (\<lambda>k. 2 ^ k < count) [0..<64])"

text \<open>\<open>a & !m\<close> on machine words.\<close>

definition and_not :: "nat \<Rightarrow> nat \<Rightarrow> nat" where
  "and_not a m = unat ((of_nat a :: usize) AND NOT (of_nat m))"

section \<open>The free-head bitmap\<close>

text \<open>\<open>stored\<close> are the words at address \<open>storage\<close>, used when that is not zero.\<close>

record free_head_bitmap =
  inline_words :: "u64 list"
  storage :: nat
  stored :: "u64 list"

definition bm_words :: "free_head_bitmap \<Rightarrow> u64 list" where
  "bm_words b = (if storage b = 0 then inline_words b else stored b)"

definition bm_word :: "free_head_bitmap \<Rightarrow> nat \<Rightarrow> u64 option" where
  "bm_word b index = (if index < length (bm_words b) then Some (bm_words b ! index) else None)"

definition bm_set :: "free_head_bitmap \<Rightarrow> nat \<Rightarrow> bool \<Rightarrow> free_head_bitmap option" where
  "bm_set b page is_free_head =
     (let index = page div WORD_BITS; m = push_bit (page mod WORD_BITS) 1 in do {
        w \<leftarrow> bm_word b index;
        let w' = (if is_free_head then w OR m else w AND NOT m) in
        Some (if storage b = 0 then b\<lparr>inline_words := (inline_words b)[index := w']\<rparr>
              else b\<lparr>stored := (stored b)[index := w']\<rparr>)
      })"

definition bm_contains :: "free_head_bitmap \<Rightarrow> nat \<Rightarrow> bool option" where
  "bm_contains b page =
     map_option (\<lambda>w. w AND push_bit (page mod WORD_BITS) 1 \<noteq> 0) (bm_word b (page div WORD_BITS))"

section \<open>Regions\<close>

record region =
  region_start :: nat
  heap_start :: nat
  reg_total :: nat
  reg_free :: nat
  free_lists :: "nat list list"
  free_heads :: free_head_bitmap
  node_order :: "nat \<Rightarrow> nat"

definition heap_end :: "nat \<Rightarrow> region \<Rightarrow> nat" where
  "heap_end ps r = heap_start r + reg_total r * ps"

definition reg_contains :: "nat \<Rightarrow> region \<Rightarrow> nat \<Rightarrow> bool" where
  "reg_contains ps r addr \<longleftrightarrow> heap_start r \<le> addr \<and> addr < heap_end ps r"

definition page_index :: "nat \<Rightarrow> region \<Rightarrow> nat \<Rightarrow> nat" where
  "page_index ps r addr = (addr - heap_start r) div ps"

definition is_free :: "nat \<Rightarrow> region \<Rightarrow> nat \<Rightarrow> nat \<Rightarrow> bool option" where
  "is_free ps r addr order =
     (if \<not> reg_contains ps r addr \<or> \<not> is_multiple_of addr ps then Some False
      else do {
        head \<leftarrow> bm_contains (free_heads r) (page_index ps r addr);
        Some (head \<and> node_order r addr = order)
      })"

definition push_free :: "nat \<Rightarrow> region \<Rightarrow> nat \<Rightarrow> nat \<Rightarrow> region option" where
  "push_free ps r addr order =
     (if order \<le> MAX_ORDER \<and> is_multiple_of addr (order_size ps order) \<and> reg_contains ps r addr
        \<and> addr + order_size ps order \<le> heap_end ps r
        \<and> bm_contains (free_heads r) (page_index ps r addr) = Some False
      then do {
        fh \<leftarrow> bm_set (free_heads r) (page_index ps r addr) True;
        Some (r\<lparr>node_order := (node_order r)(addr := order),
                free_lists := (free_lists r)[order := addr # free_lists r ! order],
                free_heads := fh,
                reg_free := reg_free r + order_pages order\<rparr>)
      }
      else None)"

definition remove_free :: "nat \<Rightarrow> region \<Rightarrow> nat \<Rightarrow> nat \<Rightarrow> region option" where
  "remove_free ps r addr order =
     (if is_free ps r addr order = Some True \<and> addr \<in> set (free_lists r ! order) \<and> order_pages order \<le> reg_free r
      then do {
        fh \<leftarrow> bm_set (free_heads r) (page_index ps r addr) False;
        Some (r\<lparr>free_lists := (free_lists r)[order := remove1 addr (free_lists r ! order)],
                free_heads := fh,
                reg_free := reg_free r - order_pages order\<rparr>)
      }
      else None)"

definition pop_free :: "nat \<Rightarrow> region \<Rightarrow> nat \<Rightarrow> (region \<times> nat option) option" where
  "pop_free ps r order =
     (case free_lists r ! order of
        [] \<Rightarrow> Some (r, None)
      | addr # rest \<Rightarrow>
          if order_pages order \<le> reg_free r then do {
            fh \<leftarrow> bm_set (free_heads r) (page_index ps r addr) False;
            Some (r\<lparr>free_lists := (free_lists r)[order := rest],
                    free_heads := fh,
                    reg_free := reg_free r - order_pages order\<rparr>, Some addr)
          }
          else None)"

text \<open>Return each half that is not selected; the target half stays allocated.\<close>

function split_towards :: "nat \<Rightarrow> region \<Rightarrow> nat \<Rightarrow> nat \<Rightarrow> nat \<Rightarrow> nat \<Rightarrow> region option" where
  "split_towards ps r addr src_order target order =
     (if order < src_order then
        let src = src_order - 1; right = addr + order_size ps src in
        if right \<le> target then do {
          r \<leftarrow> push_free ps r addr src;
          split_towards ps r right src target order
        }
        else do {
          r \<leftarrow> push_free ps r right src;
          split_towards ps r addr src target order
        }
      else if addr = target then Some r else None)"
  by pat_completeness auto
termination by (relation "measure (\<lambda>(ps, r, addr, src, target, order). src)") auto

declare split_towards.simps [simp del]

definition alloc_order :: "nat \<Rightarrow> region \<Rightarrow> nat \<Rightarrow> (region \<times> nat option) option" where
  "alloc_order ps r order =
     (case find (\<lambda>i. free_lists r ! i \<noteq> []) [order..<Suc MAX_ORDER] of
        None \<Rightarrow> Some (r, None)
      | Some src \<Rightarrow> do {
          (r, popped) \<leftarrow> pop_free ps r src;
          case popped of
            None \<Rightarrow> Some (r, None)
          | Some addr \<Rightarrow> do {
              r \<leftarrow> split_towards ps r addr src addr order;
              Some (r, Some addr)
            }
        })"

fun alloc_at_from :: "nat \<Rightarrow> region \<Rightarrow> nat \<Rightarrow> nat \<Rightarrow> nat list \<Rightarrow> (region \<times> nat option) option" where
  "alloc_at_from ps r target order [] = Some (r, None)"
| "alloc_at_from ps r target order (src # srcs) =
     (let addr = and_not target (order_size ps src - 1) in do {
        free \<leftarrow> is_free ps r addr src;
        if free then do {
          r \<leftarrow> remove_free ps r addr src;
          r \<leftarrow> split_towards ps r addr src target order;
          Some (r, Some target)
        }
        else alloc_at_from ps r target order srcs
      })"

definition alloc_at :: "nat \<Rightarrow> region \<Rightarrow> nat \<Rightarrow> nat \<Rightarrow> (region \<times> nat option) option" where
  "alloc_at ps r target order =
     (if \<not> reg_contains ps r target \<or> \<not> is_multiple_of target (order_size ps order) then Some (r, None)
      else alloc_at_from ps r target order [order..<Suc MAX_ORDER])"

section \<open>The allocator\<close>

text \<open>\<open>regions\<close> is the occupied prefix of the region array; its length is \<open>region_count\<close>.\<close>

record buddy =
  regions :: "region list"

definition buddy_new :: buddy where
  "buddy_new = \<lparr>regions = []\<rparr>"

definition buddy_reset :: "buddy \<Rightarrow> buddy" where
  "buddy_reset b = b\<lparr>regions := []\<rparr>"

text \<open>The largest order, from the given one down, whose chunk fits and is aligned at the offset.\<close>

fun pick_order :: "nat \<Rightarrow> nat \<Rightarrow> nat \<Rightarrow> nat \<Rightarrow> nat \<Rightarrow> nat" where
  "pick_order ps hs pages offset order =
     (let addr = hs + offset * ps in
      if 2 ^ order \<le> pages - offset \<and> is_multiple_of addr (order_size ps order) then order
      else if order = 0 then 0
      else pick_order ps hs pages offset (order - 1))"

declare pick_order.simps [simp del]

function carve :: "nat \<Rightarrow> region \<Rightarrow> nat \<Rightarrow> nat \<Rightarrow> nat \<Rightarrow> region option" where
  "carve ps r hs pages offset =
     (if offset < pages then
        let order = pick_order ps hs pages offset MAX_ORDER; addr = hs + offset * ps in do {
          r \<leftarrow> push_free ps r addr order;
          carve ps r hs pages (offset + 2 ^ order)
        }
      else Some r)"
  by pat_completeness auto
termination by (relation "measure (\<lambda>(ps, r, hs, pages, offset). pages - offset)")
  (auto simp: diff_less_mono2)

declare carve.simps [simp del]

definition metadata_pages :: "nat \<Rightarrow> nat \<Rightarrow> nat" where
  "metadata_pages ps registered_pages =
     (if registered_pages \<le> INLINE_BITMAP_WORDS * WORD_BITS then 0
      else div_ceil (div_ceil registered_pages 8) ps)"

text \<open>The region before its chunks are pushed; a reserved prefix is zeroed and holds the bitmap.\<close>

definition empty_region :: "nat \<Rightarrow> nat \<Rightarrow> nat \<Rightarrow> (nat \<Rightarrow> nat) \<Rightarrow> region" where
  "empty_region ps base registered_pages mem =
     (let mp = metadata_pages ps registered_pages in
      \<lparr>region_start = base, heap_start = base + mp * ps, reg_total = registered_pages - mp, reg_free = 0,
       free_lists = replicate (Suc MAX_ORDER) [],
       free_heads = \<lparr>inline_words = replicate INLINE_BITMAP_WORDS 0, storage = (if mp = 0 then 0 else base),
         stored = replicate (mp * ps div 8) 0\<rparr>,
       node_order = mem\<rparr>)"

text \<open>
  \<open>node_size\<close> is the size of a free node, which contains the link of the list library, and \<open>mem\<close> what the
  region's memory happens to hold.
\<close>

definition add_region ::
  "nat \<Rightarrow> nat \<Rightarrow> (nat \<Rightarrow> nat) \<Rightarrow> buddy \<Rightarrow> nat \<Rightarrow> nat \<Rightarrow> (buddy \<times> (alloc_error + unit)) option" where
  "add_region node_size ps mem b base sz =
     (if length (regions b) \<ge> MAX_REGIONS then Some (b, Inl NoMemory)
      else if \<not> is_pow2 ps \<or> ps < node_size \<or> base = 0 \<or> sz < ps \<or> \<not> is_multiple_of base ps
        then Some (b, Inl InvalidInput)
      else let heap_size = sz - sz mod ps in
        if \<not> base + heap_size < 2 ^ 64 then Some (b, Inl InvalidInput)
        else if \<exists>r \<in> set (regions b). base < heap_end ps r \<and> region_start r < base + heap_size
          then Some (b, Inl MemoryOverlap)
        else let r = empty_region ps base (heap_size div ps) mem in do {
          r \<leftarrow> carve ps r (heap_start r) (reg_total r) 0;
          Some (b\<lparr>regions := regions b @ [r]\<rparr>, Inr ())
        })"

definition init_region ::
  "nat \<Rightarrow> nat \<Rightarrow> (nat \<Rightarrow> nat) \<Rightarrow> buddy \<Rightarrow> nat \<Rightarrow> nat \<Rightarrow> (buddy \<times> (alloc_error + unit)) option" where
  "init_region node_size ps mem b base sz = add_region node_size ps mem (buddy_reset b) base sz"

text \<open>The page allocator's \<open>init_region\<close> panics when the buddy allocator refuses the region.\<close>

definition bpa_init_region :: "nat \<Rightarrow> nat \<Rightarrow> (nat \<Rightarrow> nat) \<Rightarrow> buddy \<Rightarrow> nat \<Rightarrow> nat \<Rightarrow> buddy option" where
  "bpa_init_region node_size ps mem b base sz =
     (case init_region node_size ps mem b base sz of
        Some (b', Inr ()) \<Rightarrow> Some b'
      | _ \<Rightarrow> None)"

text \<open>The first region, in registration order, from which \<open>f\<close> allocates.\<close>

fun alloc_in :: "(region \<Rightarrow> (region \<times> nat option) option) \<Rightarrow> region list \<Rightarrow> (region list \<times> nat option) option" where
  "alloc_in f [] = Some ([], None)"
| "alloc_in f (r # rs) = do {
     (r', found) \<leftarrow> f r;
     case found of
       Some addr \<Rightarrow> Some (r' # rs, Some addr)
     | None \<Rightarrow> do {
         (rs', found) \<leftarrow> alloc_in f rs;
         Some (r' # rs', found)
       }
   }"

fun alloc_aligned_from :: "nat \<Rightarrow> region \<Rightarrow> nat \<Rightarrow> nat \<Rightarrow> nat list \<Rightarrow> (region \<times> nat option) option" where
  "alloc_aligned_from ps r order align_pages [] = Some (r, None)"
| "alloc_aligned_from ps r order align_pages (src # srcs) =
     (case find (\<lambda>addr. is_multiple_of addr (align_pages * ps)) (free_lists r ! src) of
        Some addr \<Rightarrow> do {
          r \<leftarrow> remove_free ps r addr src;
          r \<leftarrow> split_towards ps r addr src addr order;
          Some (r, Some addr)
        }
      | None \<Rightarrow> alloc_aligned_from ps r order align_pages srcs)"

definition alloc_aligned :: "nat \<Rightarrow> region \<Rightarrow> nat \<Rightarrow> nat \<Rightarrow> (region \<times> nat option) option" where
  "alloc_aligned ps r order align_pages =
     (if align_pages \<le> order_pages order then alloc_order ps r order
      else alloc_aligned_from ps r order align_pages [order..<Suc MAX_ORDER])"

definition allocate_pages :: "nat \<Rightarrow> buddy \<Rightarrow> nat \<Rightarrow> nat \<Rightarrow> (buddy \<times> (alloc_error + nat)) option" where
  "allocate_pages ps b count align_pow2 =
     (if count = 0 then Some (b, Inl InvalidInput)
      else let align = (if align_pow2 = 0 then ps else align_pow2) in
        if \<not> is_pow2 align \<or> align < ps then Some (b, Inl InvalidInput)
        else let order = count_order count in
        if order > MAX_ORDER then Some (b, Inl InvalidInput)
        else do {
          (rs, found) \<leftarrow> alloc_in (\<lambda>r. alloc_aligned ps r order (align div ps)) (regions b);
          Some (b\<lparr>regions := rs\<rparr>, case found of Some addr \<Rightarrow> Inr addr | None \<Rightarrow> Inl NoMemory)
        })"

definition allocate_pages_at ::
  "nat \<Rightarrow> buddy \<Rightarrow> nat \<Rightarrow> nat \<Rightarrow> nat \<Rightarrow> (buddy \<times> (alloc_error + nat)) option" where
  "allocate_pages_at ps b base count align_pow2 =
     (if count = 0 then Some (b, Inl InvalidInput)
      else let align = (if align_pow2 = 0 then ps else align_pow2) in
        if \<not> is_multiple_of base align then Some (b, Inl InvalidInput)
        else let order = count_order count in
        if order > MAX_ORDER then Some (b, Inl InvalidInput)
        else do {
          (rs, found) \<leftarrow> alloc_in (\<lambda>r. alloc_at ps r base order) (regions b);
          Some (b\<lparr>regions := rs\<rparr>, case found of Some addr \<Rightarrow> Inr addr | None \<Rightarrow> Inl NoMemory)
        })"

text \<open>Merge with the buddy chunk while it is free.\<close>

function coalesce :: "nat \<Rightarrow> region \<Rightarrow> nat \<Rightarrow> nat \<Rightarrow> (region \<times> nat \<times> nat) option" where
  "coalesce ps r addr order =
     (if order < MAX_ORDER then
        let other = addr XOR order_size ps order in do {
          free \<leftarrow> is_free ps r other order;
          if \<not> free then Some (r, addr, order)
          else do {
            r \<leftarrow> remove_free ps r other order;
            coalesce ps r (min addr other) (order + 1)
          }
        }
      else Some (r, addr, order))"
  by pat_completeness auto
termination by (relation "measure (\<lambda>(ps, r, addr, order). MAX_ORDER - order)") auto

declare coalesce.simps [simp del]

definition free_in_region :: "nat \<Rightarrow> region \<Rightarrow> nat \<Rightarrow> nat \<Rightarrow> region option" where
  "free_in_region ps r addr order = do {
     (r, addr, order) \<leftarrow> coalesce ps r addr order;
     push_free ps r addr order
   }"

text \<open>Apply \<open>f\<close> to the first region that contains the address; nothing when there is none.\<close>

fun update_region :: "(region \<Rightarrow> bool) \<Rightarrow> (region \<Rightarrow> region option) \<Rightarrow> region list \<Rightarrow> region list option" where
  "update_region here f [] = Some []"
| "update_region here f (r # rs) =
     (if here r then do { r' \<leftarrow> f r; Some (r' # rs) }
      else do { rs' \<leftarrow> update_region here f rs; Some (r # rs') })"

definition deallocate_pages :: "nat \<Rightarrow> buddy \<Rightarrow> nat \<Rightarrow> nat \<Rightarrow> buddy option" where
  "deallocate_pages ps b addr count =
     (if count = 0 then Some b
      else do {
        rs \<leftarrow> update_region (\<lambda>r. reg_contains ps r addr)
          (\<lambda>r. free_in_region ps r addr (count_order count)) (regions b);
        Some (b\<lparr>regions := rs\<rparr>)
      })"

section \<open>Statistics and range splitting\<close>

definition total_pages :: "buddy \<Rightarrow> nat" where
  "total_pages b = sum_list (map reg_total (regions b))"

definition free_pages :: "buddy \<Rightarrow> nat" where
  "free_pages b = sum_list (map reg_free (regions b))"

definition used_pages :: "buddy \<Rightarrow> nat" where
  "used_pages b = total_pages b - free_pages b"

definition managed_bytes :: "nat \<Rightarrow> buddy \<Rightarrow> nat" where
  "managed_bytes ps b = total_pages b * ps"

definition allocated_bytes :: "nat \<Rightarrow> buddy \<Rightarrow> nat" where
  "allocated_bytes ps b = used_pages b * ps"

text \<open>
  The chunks \<open>split_to_chunks\<close> yields for a page-aligned range, from \<open>leading_zeros\<close> and \<open>trailing_zeros\<close>
  of the machine words; a range that is not page aligned panics.
\<close>

definition chunk_order :: "nat \<Rightarrow> nat \<Rightarrow> nat \<Rightarrow> nat" where
  "chunk_order ps addr sz =
     min (trailing_zeros (of_nat addr :: usize) - trailing_zeros (of_nat ps :: usize))
         (64 - (leading_zeros (of_nat (sz div ps) :: usize) + 1))"

function chunks_from :: "nat \<Rightarrow> nat \<Rightarrow> nat \<Rightarrow> (nat \<times> nat) list" where
  "chunks_from ps addr sz =
     (if sz = 0 \<or> ps = 0 then []
      else let order = chunk_order ps addr sz; chunk_bytes = 2 ^ order * ps in
        (addr, order) # chunks_from ps ((addr + chunk_bytes) mod 2 ^ 64) (sz - chunk_bytes))"
  by pat_completeness auto
termination by (relation "measure (\<lambda>(ps, addr, sz). sz)") auto

declare chunks_from.simps [simp del]

definition split_to_chunks :: "nat \<Rightarrow> nat \<Rightarrow> nat \<Rightarrow> (nat \<times> nat) list option" where
  "split_to_chunks ps addr sz =
     (if is_multiple_of addr ps \<and> is_multiple_of sz ps then Some (chunks_from ps addr sz) else None)"

end
