(* ===== verification/BuddyInv.thy ===== *)
theory BuddyInv
  imports Buddy
begin

text \<open>
  The invariant of a buddy region and the effect of the operations of \<open>Buddy\<close> on the set of free
  chunks: geometry of aligned chunks, bitmap and free-list updates, splitting, merging and carving.
\<close>

unbundle bit_operations_syntax

section \<open>Powers of two and aligned chunks\<close>

lemma is_pow2_iff: "is_pow2 n \<longleftrightarrow> (\<exists>k. n = 2 ^ k)"
proof
  assume n: "is_pow2 n"
  then obtain k where k: "2 ^ k \<le> n" "n < 2 ^ Suc k"
    using ex_power_ivl1 [of 2 n] by (auto simp: is_pow2_def)
  have "n = 2 ^ k"
  proof (rule ccontr)
    assume "n \<noteq> 2 ^ k"
    with k have "2 ^ k \<le> n - 1" "n - 1 < 2 ^ Suc k" by auto
    with k have "bit n k" "bit (n - 1) k" by (auto intro: bit_top_nat)
    then have "bit (n AND (n - 1)) k" by (simp add: bit_simps)
    with n show False by (simp add: is_pow2_def)
  qed
  then show "\<exists>k. n = 2 ^ k" by blast
next
  assume "\<exists>k. n = 2 ^ k"
  then obtain k where "n = 2 ^ k" by blast
  moreover have "(2::nat) ^ k AND (2 ^ k - 1) = 0"
    by (simp only: mask_eq_exp_minus_1 [symmetric] take_bit_eq_mask [symmetric]) (simp add: take_bit_eq_mod)
  ultimately show "is_pow2 n" by (simp add: is_pow2_def)
qed

lemma is_multiple_of_iff [simp]: "is_multiple_of a n \<longleftrightarrow> n dvd a"
  by (simp add: is_multiple_of_def mod_eq_0_iff_dvd)

lemma order_size_0 [simp]: "order_size ps 0 = ps"
  by (simp add: order_size_def order_pages_def)

lemma order_size_Suc: "order_size ps (Suc k) = 2 * order_size ps k"
  by (simp add: order_size_def order_pages_def)

lemma order_size_pos [simp]: "0 < order_size ps k \<longleftrightarrow> 0 < ps"
  by (simp add: order_size_def order_pages_def)

lemma order_size_dvd: "k \<le> l \<Longrightarrow> order_size ps k dvd order_size ps l"
  by (simp add: order_size_def order_pages_def le_imp_power_dvd mult_dvd_mono)

lemma order_size_mono: "k \<le> l \<Longrightarrow> order_size ps k \<le> order_size ps l"
  by (simp add: order_size_def order_pages_def power_increasing)

lemma order_size_pow2: "is_pow2 ps \<Longrightarrow> \<exists>j. order_size ps k = 2 ^ j"
  by (auto simp: is_pow2_iff order_size_def order_pages_def power_add [symmetric])

lemma pow2_pos: "is_pow2 ps \<Longrightarrow> 0 < ps"
  by (auto simp: is_pow2_iff)

text \<open>Two aligned intervals whose lengths divide each other are nested or disjoint.\<close>

lemma aligned_nested:
  fixes a b m n :: nat
  assumes "m dvd n" "m dvd a" "n dvd b" "0 < m" "x \<in> {a..<a + m}" "x \<in> {b..<b + n}"
  shows "{a..<a + m} \<subseteq> {b..<b + n}"
proof -
  obtain k where k: "n = m * k" using assms(1) ..
  obtain i where i: "a = m * i" using assms(2) ..
  obtain j where j: "b = m * (k * j)" using assms(3) k by (auto simp: dvd_def mult.assoc)
  have "m * (k * j) < m * Suc i" "m * i < m * (k * j + k)"
    using assms(5,6) i j k by (simp_all add: algebra_simps)
  then have "k * j \<le> i" "Suc i \<le> k * j + k"
    using assms(4) by (simp_all only: mult_less_cancel1 less_Suc_eq_le Suc_le_eq)
  then have "m * (k * j) \<le> m * i" "m * Suc i \<le> m * (k * j + k)" by (simp_all only: mult_le_mono2)
  then show ?thesis using i j k by (auto simp: algebra_simps)
qed

definition cover :: "nat \<Rightarrow> nat \<times> nat \<Rightarrow> nat set" where
  "cover ps b = {fst b..<fst b + order_size ps (snd b)}"

lemma cover_nested:
  assumes "order_size ps k dvd a" "order_size ps l dvd b" "k \<le> l" "0 < ps"
    and "cover ps (a, k) \<inter> cover ps (b, l) \<noteq> {}"
  shows "cover ps (a, k) \<subseteq> cover ps (b, l)"
proof -
  obtain x where "x \<in> cover ps (a, k)" "x \<in> cover ps (b, l)" using assms(5) by blast
  then show ?thesis
    unfolding cover_def using aligned_nested [OF order_size_dvd [OF assms(3)] assms(1,2)] assms(4) by simp
qed

lemma cover_halves:
  "cover ps (a, Suc k) = cover ps (a, k) \<union> cover ps (a + order_size ps k, k)"
  "cover ps (a, k) \<inter> cover ps (a + order_size ps k, k) = {}"
  by (auto simp: cover_def order_size_Suc)

lemma cover_start: "0 < ps \<Longrightarrow> a \<in> cover ps (a, k)"
  by (simp add: cover_def)

lemma cover_inj: "\<lbrakk>0 < ps; cover ps (a, k) \<subseteq> cover ps (b, k)\<rbrakk> \<Longrightarrow> a = b"
  using atLeastLessThan_subset_iff [of a "a + order_size ps k" b "b + order_size ps k"]
    order_size_pos [of ps k]
  by (auto simp: cover_def simp del: order_size_pos)

subsection \<open>The buddy of a chunk\<close>

lemma xor_pow2:
  fixes a :: nat
  assumes "2 ^ j dvd a"
  shows "a XOR 2 ^ j = (if 2 ^ Suc j dvd a then a + 2 ^ j else a - 2 ^ j)"
proof -
  obtain q where q: "a = push_bit j q" using assms by (auto simp: dvd_def push_bit_eq_mult mult.commute)
  have "a XOR 2 ^ j = push_bit j q XOR push_bit j 1" by (simp add: q push_bit_eq_mult)
  also have "\<dots> = push_bit j (q XOR 1)" by (simp only: push_bit_xor)
  also have "q XOR 1 = (if even q then q + 1 else q - 1)"
    using xor_one_eq [of q] by simp
  finally have "a XOR 2 ^ j = push_bit j (if even q then q + 1 else q - 1)" .
  moreover have "2 ^ Suc j dvd a \<longleftrightarrow> even q"
    by (simp add: q push_bit_eq_mult mult.commute)
  ultimately show ?thesis
    by (simp add: q push_bit_eq_mult algebra_simps diff_mult_distrib)
qed

lemma buddy_xor:
  assumes "is_pow2 ps" "order_size ps k dvd a"
  shows "a XOR order_size ps k
    = (if order_size ps (Suc k) dvd a then a + order_size ps k else a - order_size ps k)"
proof -
  obtain j where "order_size ps k = 2 ^ j" using order_size_pow2 [OF assms(1)] by blast
  then show ?thesis using xor_pow2 [of j a] assms(2) by (simp add: order_size_Suc)
qed

section \<open>The bitmap\<close>

lemma bm_contains_bit:
  "bm_contains b page =
     (if page div 64 < length (bm_words b) then Some (bit (bm_words b ! (page div 64)) (page mod 64)) else None)"
  by (simp add: bm_contains_def bm_word_def and_exp_word push_bit_eq_mult not_le)

lemma bm_set_effect:
  assumes "page div 64 < length (bm_words b)"
  shows "\<exists>b'. bm_set b page v = Some b' \<and> length (bm_words b') = length (bm_words b)
    \<and> (\<forall>i. bm_contains b' i = (if i = page then Some v else bm_contains b i))"
proof -
  let ?i = "page div 64" and ?k = "page mod 64"
  let ?w = "if v then bm_words b ! ?i OR push_bit ?k 1 else bm_words b ! ?i AND NOT (push_bit ?k 1)"
  obtain b' where b': "bm_set b page v = Some b'" "bm_words b' = (bm_words b)[?i := ?w]"
    using assms by (auto simp: bm_set_def bm_word_def bm_words_def Let_def)
  have w: "bit ?w k = (if k = ?k then v else bit (bm_words b ! ?i) k)" if "k < 64" for k
    using that by (auto simp: bit_simps)
  have "bm_contains b' i = (if i = page then Some v else bm_contains b i)" for i
  proof (cases "i div 64 = ?i")
    case True
    then have "i mod 64 = ?k \<longleftrightarrow> i = page" by (metis div_mult_mod_eq)
    then show ?thesis using True assms w [of "i mod 64"] by (simp add: bm_contains_bit b'(2))
  next
    case False
    then show ?thesis by (auto simp: bm_contains_bit b'(2))
  qed
  then show ?thesis using b' by simp
qed

section \<open>The region invariant\<close>

text \<open>The free chunks as pairs of address and order, and the bytes they cover.\<close>

definition blocks :: "region \<Rightarrow> (nat \<times> nat) set" where
  "blocks r = {(a, k). k \<le> MAX_ORDER \<and> a \<in> set (free_lists r ! k)}"

definition free_bytes :: "nat \<Rightarrow> region \<Rightarrow> nat set" where
  "free_bytes ps r = \<Union> (cover ps ` blocks r)"

definition fits :: "nat \<Rightarrow> region \<Rightarrow> nat \<Rightarrow> nat \<Rightarrow> bool" where
  "fits ps r a k \<longleftrightarrow>
     k \<le> MAX_ORDER \<and> order_size ps k dvd a \<and> heap_start r \<le> a \<and> a + order_size ps k \<le> heap_end ps r"

definition same_area :: "region \<Rightarrow> region \<Rightarrow> bool" where
  "same_area r r' \<longleftrightarrow>
     region_start r' = region_start r \<and> heap_start r' = heap_start r \<and> reg_total r' = reg_total r"

definition area_ok :: "nat \<Rightarrow> region \<Rightarrow> bool" where
  "area_ok ps r \<longleftrightarrow> is_pow2 ps \<and> ps dvd heap_start r \<and> heap_end ps r < 2 ^ 64
     \<and> region_start r \<le> heap_start r \<and> reg_total r \<le> 64 * length (bm_words (free_heads r))"

definition lists_ok :: "region \<Rightarrow> bool" where
  "lists_ok r \<longleftrightarrow> length (free_lists r) = Suc MAX_ORDER \<and> (\<forall>k \<le> MAX_ORDER. distinct (free_lists r ! k))"

definition chunks_ok :: "nat \<Rightarrow> region \<Rightarrow> bool" where
  "chunks_ok ps r \<longleftrightarrow>
     (\<forall>(a, k) \<in> blocks r. fits ps r a k \<and> node_order r a = k)
     \<and> (\<forall>b \<in> blocks r. \<forall>c \<in> blocks r. b \<noteq> c \<longrightarrow> cover ps b \<inter> cover ps c = {})"

definition heads_ok :: "nat \<Rightarrow> region \<Rightarrow> bool" where
  "heads_ok ps r \<longleftrightarrow>
     (\<forall>i < reg_total r. bm_contains (free_heads r) i = Some (heap_start r + i * ps \<in> fst ` blocks r))"

definition count_ok :: "region \<Rightarrow> bool" where
  "count_ok r \<longleftrightarrow> reg_free r = (\<Sum>b \<in> blocks r. 2 ^ snd b)"

definition region_ok :: "nat \<Rightarrow> region \<Rightarrow> bool" where
  "region_ok ps r \<longleftrightarrow> area_ok ps r \<and> lists_ok r \<and> chunks_ok ps r \<and> heads_ok ps r \<and> count_ok r"

lemmas region_ok_defs = area_ok_def lists_ok_def chunks_ok_def heads_ok_def count_ok_def

lemma finite_blocks [simp]: "finite (blocks r)"
proof -
  have "blocks r \<subseteq> (\<Union>k \<le> MAX_ORDER. (\<lambda>a. (a, k)) ` set (free_lists r ! k))"
    by (auto simp: blocks_def)
  then show ?thesis by (rule finite_subset) simp
qed

lemma blocks_update:
  assumes "length (free_lists r) = Suc MAX_ORDER" "k \<le> MAX_ORDER" "free_lists r' = (free_lists r)[k := l]"
  shows "blocks r' = (blocks r - UNIV \<times> {k}) \<union> set l \<times> {k}"
  using assms by (auto simp: blocks_def nth_list_update split: if_splits)

lemma same_area_refl [simp]: "same_area r r"
  by (simp add: same_area_def)

lemma same_area_trans [trans]: "\<lbrakk>same_area r s; same_area s t\<rbrakk> \<Longrightarrow> same_area r t"
  by (simp add: same_area_def)

lemma same_area_heap [simp]: "same_area r r' \<Longrightarrow> heap_end ps r' = heap_end ps r"
  by (simp add: same_area_def heap_end_def)

lemma same_area_fits [simp]: "same_area r r' \<Longrightarrow> fits ps r' a k = fits ps r a k"
  by (simp add: same_area_def fits_def heap_end_def)

text \<open>A chunk that fits starts on a page of the region.\<close>

lemma fits_page:
  assumes "area_ok ps r" "fits ps r a k"
  shows "reg_contains ps r a" "ps dvd a" "page_index ps r a < reg_total r"
    and "heap_start r + page_index ps r a * ps = a"
proof -
  have p: "0 < ps" using assms(1) by (simp add: area_ok_def pow2_pos)
  show d: "ps dvd a"
    using assms(2) order_size_dvd [of 0 k ps] by (auto simp: fits_def elim: dvd_trans)
  have lt: "a < heap_end ps r" using assms(2) p order_size_pos [of ps k] unfolding fits_def by linarith
  show "reg_contains ps r a" using assms(2) lt by (simp add: reg_contains_def fits_def)
  have "ps dvd a - heap_start r" using d assms(1) by (simp add: area_ok_def dvd_diff_nat)
  then have e: "page_index ps r a * ps = a - heap_start r" by (simp add: page_index_def)
  then show "heap_start r + page_index ps r a * ps = a" using assms(2) by (simp add: fits_def)
  have "page_index ps r a * ps < reg_total r * ps"
    using e lt assms(2) unfolding heap_end_def fits_def by linarith
  then show "page_index ps r a < reg_total r" by simp
qed

text \<open>Different free chunks start at different addresses.\<close>

lemma blocks_fst_inj:
  assumes "chunks_ok ps r" "0 < ps" "(a, k) \<in> blocks r" "(a, l) \<in> blocks r"
  shows "k = l"
  using assms cover_start [of ps a k] cover_start [of ps a l] unfolding chunks_ok_def by blast

lemma block_fits: "\<lbrakk>region_ok ps r; (a, k) \<in> blocks r\<rbrakk> \<Longrightarrow> fits ps r a k"
  by (auto simp: region_ok_def chunks_ok_def)

lemma blocks_disjoint:
  "\<lbrakk>region_ok ps r; b \<in> blocks r; c \<in> blocks r; b \<noteq> c\<rbrakk> \<Longrightarrow> cover ps b \<inter> cover ps c = {}"
  by (auto simp: region_ok_def chunks_ok_def)

lemma region_ok_pos: "region_ok ps r \<Longrightarrow> 0 < ps"
  by (simp add: region_ok_def area_ok_def pow2_pos)

lemma is_free_iff:
  assumes ok: "region_ok ps r"
  shows "is_free ps r a k = Some ((a, k) \<in> blocks r)"
proof (cases "reg_contains ps r a \<and> ps dvd a")
  case False
  then have "(a, k) \<notin> blocks r"
    using ok fits_page(1,2) [of ps r a k] block_fits [of ps r a k] by (auto simp: region_ok_def)
  with False show ?thesis by (auto simp: is_free_def)
next
  case True
  let ?i = "page_index ps r a"
  have hs: "ps dvd heap_start r" and p: "0 < ps"
    using ok by (simp_all add: region_ok_def area_ok_def pow2_pos)
  have "ps dvd a - heap_start r" using True hs by (simp add: dvd_diff_nat)
  then have e: "?i * ps = a - heap_start r" by (simp add: page_index_def)
  then have "?i * ps < reg_total r * ps"
    using True unfolding reg_contains_def heap_end_def by linarith
  then have "?i < reg_total r" by simp
  moreover have "heap_start r + ?i * ps = a" using e True by (simp add: reg_contains_def)
  ultimately have "bm_contains (free_heads r) ?i = Some (a \<in> fst ` blocks r)"
    using ok by (auto simp: region_ok_def heads_ok_def)
  moreover have "node_order r a = l" if "(a, l) \<in> blocks r" for l
    using ok that by (auto simp: region_ok_def chunks_ok_def)
  ultimately show ?thesis using True by (force simp: is_free_def)
qed

text \<open>Replacing one free list, with the bitmap, the stored order and the count brought along.\<close>

lemma area_ok_update:
  assumes "area_ok ps r" "same_area r r'" "length (bm_words (free_heads r')) = length (bm_words (free_heads r))"
  shows "area_ok ps r'"
  using assms by (simp add: area_ok_def same_area_def heap_end_def)

lemma block_in_free: "b \<in> blocks r \<Longrightarrow> cover ps b \<subseteq> free_bytes ps r"
  by (auto simp: free_bytes_def)

lemma chunks_ok_insert:
  assumes chunks: "chunks_ok ps r" and bl: "blocks r' = insert (a, k) (blocks r)" and same: "same_area r r'"
    and fit: "fits ps r a k" and node: "node_order r' = (node_order r)(a := k)" and new: "a \<notin> fst ` blocks r"
    and fresh: "cover ps (a, k) \<inter> free_bytes ps r = {}"
  shows "chunks_ok ps r'"
proof -
  have old: "fits ps r' b l \<and> node_order r' b = l" if "(b, l) \<in> blocks r" for b l
  proof -
    have "b \<noteq> a" using that new by force
    then show ?thesis using that chunks same node by (auto simp: chunks_ok_def)
  qed
  have apart: "cover ps (a, k) \<inter> cover ps c = {}" if "c \<in> blocks r" for c
    using that fresh by (auto simp: free_bytes_def)
  have "cover ps b \<inter> cover ps c = {}" if b: "b \<in> blocks r'" and c: "c \<in> blocks r'" and ne: "b \<noteq> c" for b c
  proof -
    consider "b = (a, k)" "c \<in> blocks r" | "c = (a, k)" "b \<in> blocks r" | "b \<in> blocks r" "c \<in> blocks r"
      using b c ne unfolding bl by blast
    then show ?thesis
      using apart chunks ne by cases (blast, blast, simp add: chunks_ok_def)
  qed
  moreover have "fits ps r' b l \<and> node_order r' b = l" if "(b, l) \<in> blocks r'" for b l
  proof (cases "(b, l) = (a, k)")
    case True
    then show ?thesis using fit same node by simp
  next
    case False
    then show ?thesis using that old unfolding bl by blast
  qed
  ultimately show ?thesis by (auto simp: chunks_ok_def)
qed

lemma push_free_ok:
  assumes ok: "region_ok ps r" and fit: "fits ps r a k" and fresh: "cover ps (a, k) \<inter> free_bytes ps r = {}"
  shows "\<exists>r'. push_free ps r a k = Some r' \<and> region_ok ps r' \<and> blocks r' = insert (a, k) (blocks r) \<and> same_area r r'"
proof -
  have area: "area_ok ps r" and lists: "lists_ok r" and chunks: "chunks_ok ps r" and heads: "heads_ok ps r"
    and count: "count_ok r" and p: "0 < ps"
    using ok by (auto simp: region_ok_def area_ok_def pow2_pos)
  note page = fits_page [OF area fit]
  let ?i = "page_index ps r a"
  have new: "a \<notin> fst ` blocks r"
  proof
    assume "a \<in> fst ` blocks r"
    then obtain l where "(a, l) \<in> blocks r" by force
    then have "a \<in> free_bytes ps r" using cover_start [OF p, of a l] block_in_free [of "(a, l)" r ps] by blast
    then show False using fresh cover_start [OF p, of a k] by blast
  qed
  then have nb: "(a, k) \<notin> blocks r" by force
  have k: "k \<le> MAX_ORDER" using fit by (simp add: fits_def)
  have head: "bm_contains (free_heads r) ?i = Some False"
    using heads page(3,4) new by (simp add: heads_ok_def)
  then have "?i div 64 < length (bm_words (free_heads r))" by (simp add: bm_contains_bit split: if_splits)
  then obtain fh where fh: "bm_set (free_heads r) ?i True = Some fh"
    "length (bm_words fh) = length (bm_words (free_heads r))"
    "\<And>i. bm_contains fh i = (if i = ?i then Some True else bm_contains (free_heads r) i)"
    using bm_set_effect by blast
  define r' where "r' = r\<lparr>node_order := (node_order r)(a := k),
    free_lists := (free_lists r)[k := a # free_lists r ! k], free_heads := fh,
    reg_free := reg_free r + order_pages k\<rparr>"
  have same: "same_area r r'" by (simp add: r'_def same_area_def)
  have push: "push_free ps r a k = Some r'"
    using fit head page fh(1) by (simp add: push_free_def r'_def fits_def)
  have bl: "blocks r' = insert (a, k) (blocks r)"
    using blocks_update [of r k r' "a # free_lists r ! k"] lists k
    by (auto simp: r'_def lists_ok_def blocks_def)
  have "chunks_ok ps r'"
    by (rule chunks_ok_insert [OF chunks bl same fit _ new fresh]) (simp add: r'_def)
  moreover have "heads_ok ps r'"
    unfolding heads_ok_def bl
  proof (intro allI impI)
    fix i assume "i < reg_total r'"
    then show "bm_contains (free_heads r') i = Some (heap_start r' + i * ps \<in> fst ` insert (a, k) (blocks r))"
      using heads page(4) fh(3) p by (auto simp: heads_ok_def r'_def)
  qed
  moreover have "lists_ok r'"
    using lists new k by (auto simp: lists_ok_def r'_def nth_list_update blocks_def image_iff)
  moreover have "reg_free r' = reg_free r + 2 ^ k" by (simp add: r'_def order_pages_def)
  then have "count_ok r'" using count nb by (simp add: count_ok_def bl)
  ultimately have "region_ok ps r'"
    using area_ok_update [OF area same] fh(2) by (simp add: region_ok_def r'_def)
  then show ?thesis using push bl same by blast
qed

lemma chunks_ok_subset:
  "\<lbrakk>chunks_ok ps r; blocks r' \<subseteq> blocks r; same_area r r'; node_order r' = node_order r\<rbrakk> \<Longrightarrow> chunks_ok ps r'"
  unfolding chunks_ok_def by (simp add: subset_eq)

lemma drop_block_ok:
  assumes ok: "region_ok ps r" and b: "(a, k) \<in> blocks r"
    and l: "set l = set (free_lists r ! k) - {a}" "distinct l"
  obtains fh where "bm_set (free_heads r) (page_index ps r a) False = Some fh" "order_pages k \<le> reg_free r"
    "region_ok ps (r\<lparr>free_lists := (free_lists r)[k := l], free_heads := fh, reg_free := reg_free r - order_pages k\<rparr>)"
    "blocks (r\<lparr>free_lists := (free_lists r)[k := l], free_heads := fh, reg_free := reg_free r - order_pages k\<rparr>)
      = blocks r - {(a, k)}"
proof -
  have area: "area_ok ps r" and lists: "lists_ok r" and chunks: "chunks_ok ps r" and heads: "heads_ok ps r"
    and count: "count_ok r" and p: "0 < ps"
    using ok by (auto simp: region_ok_def area_ok_def pow2_pos)
  have fit: "fits ps r a k" using block_fits [OF ok b] .
  have k: "k \<le> MAX_ORDER" using fit by (simp add: fits_def)
  note page = fits_page [OF area fit]
  let ?i = "page_index ps r a"
  have "bm_contains (free_heads r) ?i \<noteq> None" using heads page(3) by (simp add: heads_ok_def)
  then have "?i div 64 < length (bm_words (free_heads r))" by (simp add: bm_contains_bit split: if_splits)
  then obtain fh where fh: "bm_set (free_heads r) ?i False = Some fh"
    "length (bm_words fh) = length (bm_words (free_heads r))"
    "\<And>i. bm_contains fh i = (if i = ?i then Some False else bm_contains (free_heads r) i)"
    using bm_set_effect by blast
  define r' where "r' = r\<lparr>free_lists := (free_lists r)[k := l], free_heads := fh,
    reg_free := reg_free r - order_pages k\<rparr>"
  have same: "same_area r r'" by (simp add: r'_def same_area_def)
  have bl: "blocks r' = blocks r - {(a, k)}"
    using blocks_update [of r k r' l] lists k l(1)
    by (auto simp: r'_def lists_ok_def blocks_def)
  have sum: "(\<Sum>b \<in> blocks r. 2 ^ snd b) = 2 ^ k + (\<Sum>b \<in> blocks r'. (2::nat) ^ snd b)"
    using sum.remove [OF finite_blocks b, of "\<lambda>b. 2 ^ snd b"] by (simp add: bl)
  have starts: "fst ` blocks r' = fst ` blocks r - {a}"
  proof -
    have "inj_on fst (blocks r)" using blocks_fst_inj [OF chunks p] by (auto intro!: inj_onI)
    then show ?thesis using b by (simp add: bl inj_on_image_set_diff [of fst "blocks r"])
  qed
  have "heads_ok ps r'"
    unfolding heads_ok_def starts
  proof (intro allI impI)
    fix i assume "i < reg_total r'"
    then show "bm_contains (free_heads r') i = Some (heap_start r' + i * ps \<in> fst ` blocks r - {a})"
      using heads page(4) fh(3) p by (auto simp: heads_ok_def r'_def)
  qed
  moreover have "chunks_ok ps r'"
    by (rule chunks_ok_subset [OF chunks _ same]) (auto simp: bl, simp add: r'_def)
  moreover have "lists_ok r'"
    using lists l(2) k by (auto simp: lists_ok_def r'_def nth_list_update)
  moreover have "reg_free r' = reg_free r - 2 ^ k" by (simp add: r'_def order_pages_def)
  then have "count_ok r'" using count sum by (simp add: count_ok_def)
  ultimately have "region_ok ps r'"
    using area_ok_update [OF area same] fh(2) by (simp add: region_ok_def r'_def)
  moreover have "order_pages k \<le> reg_free r" using count sum by (simp add: count_ok_def order_pages_def)
  ultimately show thesis using that [OF fh(1)] bl unfolding r'_def by blast
qed

lemma remove_free_ok:
  assumes ok: "region_ok ps r" and b: "(a, k) \<in> blocks r"
  shows "\<exists>r'. remove_free ps r a k = Some r' \<and> region_ok ps r' \<and> blocks r' = blocks r - {(a, k)} \<and> same_area r r'"
proof -
  have "distinct (free_lists r ! k)" "a \<in> set (free_lists r ! k)"
    using ok b by (auto simp: region_ok_def lists_ok_def blocks_def)
  then have "set (remove1 a (free_lists r ! k)) = set (free_lists r ! k) - {a}" "distinct (remove1 a (free_lists r ! k))"
    by simp_all
  from drop_block_ok [OF ok b this] obtain fh where
    fh: "bm_set (free_heads r) (page_index ps r a) False = Some fh" "order_pages k \<le> reg_free r" and
    r': "region_ok ps (r\<lparr>free_lists := (free_lists r)[k := remove1 a (free_lists r ! k)], free_heads := fh,
        reg_free := reg_free r - order_pages k\<rparr>)" (is "region_ok ps ?r")
      "blocks (r\<lparr>free_lists := (free_lists r)[k := remove1 a (free_lists r ! k)], free_heads := fh,
        reg_free := reg_free r - order_pages k\<rparr>) = blocks r - {(a, k)}" .
  have "remove_free ps r a k = Some ?r"
    using fh is_free_iff [OF ok, of a k] b \<open>a \<in> set (free_lists r ! k)\<close> by (simp add: remove_free_def)
  moreover have "same_area r ?r" by (simp add: same_area_def)
  ultimately show ?thesis using r' by blast
qed

lemma pop_free_ok:
  assumes ok: "region_ok ps r" and k: "k \<le> MAX_ORDER" and l: "free_lists r ! k = a # l"
  shows "\<exists>r'. pop_free ps r k = Some (r', Some a) \<and> region_ok ps r' \<and> (a, k) \<in> blocks r
    \<and> blocks r' = blocks r - {(a, k)} \<and> same_area r r'"
proof -
  have "distinct (free_lists r ! k)" using ok k by (auto simp: region_ok_def lists_ok_def)
  then have "set l = set (free_lists r ! k) - {a}" "distinct l" using l by auto
  moreover have b: "(a, k) \<in> blocks r" using k l by (simp add: blocks_def)
  ultimately obtain fh where
    fh: "bm_set (free_heads r) (page_index ps r a) False = Some fh" "order_pages k \<le> reg_free r" and
    r': "region_ok ps (r\<lparr>free_lists := (free_lists r)[k := l], free_heads := fh,
        reg_free := reg_free r - order_pages k\<rparr>)" (is "region_ok ps ?r")
      "blocks (r\<lparr>free_lists := (free_lists r)[k := l], free_heads := fh,
        reg_free := reg_free r - order_pages k\<rparr>) = blocks r - {(a, k)}"
    using drop_block_ok [OF ok b] by blast
  have "pop_free ps r k = Some (?r, Some a)" using fh l by (simp add: pop_free_def)
  moreover have "same_area r ?r" by (simp add: same_area_def)
  ultimately show ?thesis using r' b by blast
qed

section \<open>Free bytes and merged buddies\<close>

lemma free_bytes_insert: "blocks r' = insert b (blocks r) \<Longrightarrow> free_bytes ps r' = cover ps b \<union> free_bytes ps r"
  by (simp add: free_bytes_def)

lemma free_bytes_remove:
  assumes "region_ok ps r" "b \<in> blocks r" "blocks r' = blocks r - {b}"
  shows "free_bytes ps r' = free_bytes ps r - cover ps b"
proof -
  have "cover ps c \<inter> cover ps b = {}" if "c \<in> blocks r - {b}" for c
    using that assms(2) blocks_disjoint [OF assms(1)] by blast
  then show ?thesis using assms(2,3) unfolding free_bytes_def by blast
qed

definition coalesced :: "nat \<Rightarrow> region \<Rightarrow> bool" where
  "coalesced ps r \<longleftrightarrow> (\<forall>(a, k) \<in> blocks r. k < MAX_ORDER \<longrightarrow> (a XOR order_size ps k, k) \<notin> blocks r)"

lemma coalescedD: "\<lbrakk>coalesced ps r; (a, k) \<in> blocks r; k < MAX_ORDER\<rbrakk> \<Longrightarrow> (a XOR order_size ps k, k) \<notin> blocks r"
  by (auto simp: coalesced_def)

lemma coalesced_subset: "\<lbrakk>coalesced ps r; blocks r' \<subseteq> blocks r\<rbrakk> \<Longrightarrow> coalesced ps r'"
  by (auto simp: coalesced_def)

lemma coalesced_insert:
  assumes co: "coalesced ps r" and p: "0 < ps" and bl: "blocks r' = insert (a, k) (blocks r)"
    and lone: "k < MAX_ORDER \<Longrightarrow> (a XOR order_size ps k, k) \<notin> blocks r"
  shows "coalesced ps r'"
proof -
  have False if b: "(b, l) \<in> blocks r'" and l: "l < MAX_ORDER" and other: "(b XOR order_size ps l, l) \<in> blocks r'"
    for b l
  proof -
  let ?n = "order_size ps l"
  have "?n = b XOR (b XOR ?n)" by (simp add: xor.assoc [symmetric])
  then have ne: "b XOR ?n \<noteq> b" using p order_size_pos [of ps l] by (metis less_numeral_extra(3) xor_self_eq)
  have inv: "(b XOR order_size ps l) XOR order_size ps l = b" by (simp add: xor.assoc)
  consider "(b, l) = (a, k)" | "(b XOR order_size ps l, l) = (a, k)" | "(b, l) \<in> blocks r" "(b XOR order_size ps l, l) \<in> blocks r"
    using b other unfolding bl by blast
  then show False
  proof cases
    case 1
    then show ?thesis using lone l other ne unfolding bl by auto
  next
    case 2
    then show ?thesis using lone l b inv ne unfolding bl by auto
  next
    case 3
    then show ?thesis using coalescedD [OF co] l by blast
  qed
  qed
  then show ?thesis by (auto simp: coalesced_def)
qed

text \<open>A chunk and its buddy are the two halves of a chunk of the next order.\<close>

lemma buddy_pair:
  assumes "is_pow2 ps" "order_size ps k dvd a"
  obtains m where "m = min a (a XOR order_size ps k)" "order_size ps (Suc k) dvd m"
    "cover ps (m, Suc k) = cover ps (a, k) \<union> cover ps (a XOR order_size ps k, k)"
    "m = a \<and> a XOR order_size ps k = a + order_size ps k \<or> m + order_size ps k = a \<and> a XOR order_size ps k = m"
proof (cases "order_size ps (Suc k) dvd a")
  case True
  then have "a XOR order_size ps k = a + order_size ps k" using buddy_xor [OF assms] by simp
  then show thesis using that [of a] True cover_halves(1) [of ps a k] by simp
next
  case False
  let ?n = "order_size ps k"
  have x: "a XOR ?n = a - ?n" using buddy_xor [OF assms] False by simp
  obtain q where q: "a = ?n * q" using assms(2) ..
  then have "odd q" using False by (auto simp: order_size_Suc)
  then obtain j where "q = 2 * j + 1" by (rule oddE)
  then have m: "order_size ps (Suc k) dvd a - ?n" "a = (a - ?n) + ?n"
    using q by (simp_all add: order_size_Suc algebra_simps)
  have "cover ps (a - ?n, Suc k) = cover ps (a, k) \<union> cover ps (a - ?n, k)"
    using cover_halves(1) [of ps "a - ?n" k] m(2) by (simp add: Un_commute)
  then show thesis
    using that [of "a - ?n"] x m by simp
qed

section \<open>Splitting and merging\<close>

text \<open>A chunk held by an operation: it fits the region and none of it is free.\<close>

definition held :: "nat \<Rightarrow> region \<Rightarrow> nat \<Rightarrow> nat \<Rightarrow> bool" where
  "held ps r a k \<longleftrightarrow> fits ps r a k \<and> cover ps (a, k) \<inter> free_bytes ps r = {}"

definition region_inv :: "nat \<Rightarrow> region \<Rightarrow> bool" where
  "region_inv ps r \<longleftrightarrow> region_ok ps r \<and> coalesced ps r"

lemma held_not_block:
  assumes "0 < ps" "cover ps (a, k) \<inter> free_bytes ps r = {}"
  shows "(a, l) \<notin> blocks r"
  using assms cover_start [of ps a] block_in_free [of "(a, l)" r ps] by blast

lemma push_free_inv:
  assumes inv: "region_inv ps r" and held: "held ps r a k"
    and lone: "k < MAX_ORDER \<Longrightarrow> (a XOR order_size ps k, k) \<notin> blocks r"
  obtains r' where "push_free ps r a k = Some r'" "region_inv ps r'" "same_area r r'"
    "free_bytes ps r' = cover ps (a, k) \<union> free_bytes ps r"
proof -
  obtain r' where r': "push_free ps r a k = Some r'" "region_ok ps r'" "blocks r' = insert (a, k) (blocks r)"
    "same_area r r'"
    using push_free_ok inv held by (metis held_def region_inv_def)
  moreover have "coalesced ps r'"
    using coalesced_insert [OF _ region_ok_pos r'(3) lone] inv by (auto simp: region_inv_def)
  ultimately show thesis using that free_bytes_insert [OF r'(3)] by (simp add: region_inv_def)
qed

lemma remove_free_inv:
  assumes inv: "region_inv ps r" and b: "(a, k) \<in> blocks r"
  obtains r' where "remove_free ps r a k = Some r'" "region_inv ps r'" "same_area r r'" "blocks r' = blocks r - {(a, k)}"
    "held ps r' a k" "free_bytes ps r = cover ps (a, k) \<union> free_bytes ps r'"
proof -
  have ok: "region_ok ps r" using inv by (simp add: region_inv_def)
  obtain r' where r': "remove_free ps r a k = Some r'" "region_ok ps r'" "blocks r' = blocks r - {(a, k)}"
    "same_area r r'"
    using remove_free_ok [OF ok b] by blast
  have fb: "free_bytes ps r' = free_bytes ps r - cover ps (a, k)" by (rule free_bytes_remove [OF ok b r'(3)])
  have "coalesced ps r'" using coalesced_subset [of ps r r'] inv r'(3) by (auto simp: region_inv_def)
  moreover have "held ps r' a k" using block_fits [OF ok b] r'(4) fb by (auto simp: held_def)
  moreover have "free_bytes ps r = cover ps (a, k) \<union> free_bytes ps r'"
    using block_in_free [OF b, of ps] fb by blast
  ultimately show thesis using that r' by (simp add: region_inv_def)
qed

lemma held_halves:
  assumes "held ps r a (Suc k)"
  shows "held ps r a k" "held ps r (a + order_size ps k) k"
  using assms cover_halves(1) [of ps a k] by (auto simp: held_def fits_def order_size_Suc)

lemma split_towards_inv:
  assumes "region_inv ps r" "held ps r a s" "order_size ps k dvd t" "cover ps (t, k) \<subseteq> cover ps (a, s)" "k \<le> s"
  shows "\<exists>r'. split_towards ps r a s t k = Some r' \<and> region_inv ps r' \<and> same_area r r'
    \<and> free_bytes ps r' = free_bytes ps r \<union> (cover ps (a, s) - cover ps (t, k))"
  using assms
proof (induction s arbitrary: r a)
  case 0
  then have "a = t" using cover_inj [of ps t 0 a] region_ok_pos by (auto simp: region_inv_def)
  then show ?case using 0 by (subst split_towards.simps) simp
next
  case (Suc s)
  have p: "0 < ps" and pow: "is_pow2 ps"
    using Suc.prems(1) by (auto simp: region_inv_def region_ok_def area_ok_def pow2_pos)
  let ?n = "order_size ps s"
  let ?b = "a + ?n"
  have al: "order_size ps (Suc s) dvd a" using Suc.prems(2) by (simp add: held_def fits_def)
  have sk: "order_size ps s dvd a" using al by (auto simp: order_size_Suc elim: dvd_mult_right)
  have x: "a XOR ?n = ?b" "?b XOR ?n = a"
    using buddy_xor [OF pow sk] al by (auto simp: xor.assoc [symmetric]) (metis xor.assoc xor_self_eq xor.right_neutral)
  note halves = held_halves [OF Suc.prems(2)]
  note cov = cover_halves [of ps a s]
  show ?case
  proof (cases "k = Suc s")
    case True
    then have "a = t" using cover_inj [of ps t k a] Suc.prems(4) p by simp
    then show ?thesis using True Suc.prems(1) by (subst split_towards.simps) simp
  next
    case False
    then have k: "k \<le> s" using Suc.prems(5) by simp
    show ?thesis
    proof (cases "?b \<le> t")
      case True
      have sub: "cover ps (t, k) \<subseteq> cover ps (?b, s)"
        using Suc.prems(4) True by (auto simp: cover_def order_size_Suc)
      obtain r1 where r1: "push_free ps r a s = Some r1" "region_inv ps r1" "same_area r r1"
        "free_bytes ps r1 = cover ps (a, s) \<union> free_bytes ps r"
        using push_free_inv [OF Suc.prems(1) halves(1)] held_not_block [OF p] halves(2) x(1)
        by (metis held_def)
      have "held ps r1 ?b s" using halves(2) r1(3,4) cov(2) by (auto simp: held_def)
      from Suc.IH [OF r1(2) this Suc.prems(3) sub k] obtain r' where
        "split_towards ps r1 ?b s t k = Some r'" "region_inv ps r'" "same_area r1 r'"
        "free_bytes ps r' = free_bytes ps r1 \<union> (cover ps (?b, s) - cover ps (t, k))" by blast
      then show ?thesis
        using r1 k True cov sub by (subst split_towards.simps) (auto simp: Let_def intro: same_area_trans)
    next
      case lt: False
      have "t \<in> cover ps (a, Suc s)" using Suc.prems(4) cover_start [OF p] by blast
      then have "t \<in> cover ps (a, s)" using lt by (auto simp: cover_def)
      then have sub: "cover ps (t, k) \<subseteq> cover ps (a, s)"
        using cover_nested [OF Suc.prems(3) sk k p] cover_start [OF p, of t k] by blast
      obtain r1 where r1: "push_free ps r ?b s = Some r1" "region_inv ps r1" "same_area r r1"
        "free_bytes ps r1 = cover ps (?b, s) \<union> free_bytes ps r"
        using push_free_inv [OF Suc.prems(1) halves(2)] held_not_block [OF p] halves(1) x(2)
        by (metis held_def)
      have "held ps r1 a s" using halves(1) r1(3,4) cov(2) by (auto simp: held_def)
      from Suc.IH [OF r1(2) this Suc.prems(3) sub k] obtain r' where
        "split_towards ps r1 a s t k = Some r'" "region_inv ps r'" "same_area r1 r'"
        "free_bytes ps r' = free_bytes ps r1 \<union> (cover ps (a, s) - cover ps (t, k))" by blast
      then show ?thesis
        using r1 k lt cov sub by (subst split_towards.simps) (auto simp: Let_def intro: same_area_trans)
    qed
  qed
qed

text \<open>
  With merged buddies, an aligned run of free memory lies inside one free chunk: if its two halves lay
  in different chunks, these would be the halves themselves, and buddies.
\<close>

lemma covered_by_block:
  assumes inv: "region_inv ps r" and "order_size ps k dvd a" "cover ps (a, k) \<subseteq> free_bytes ps r" "k \<le> MAX_ORDER"
  shows "\<exists>b s. (b, s) \<in> blocks r \<and> k \<le> s \<and> cover ps (a, k) \<subseteq> cover ps (b, s)"
  using assms(2-4)
proof (induction k arbitrary: a)
  case 0
  have ok: "region_ok ps r" and p: "0 < ps" using inv region_ok_pos by (auto simp: region_inv_def)
  have "a \<in> free_bytes ps r" using 0(2) cover_start [OF p] by blast
  then obtain b s where b: "(b, s) \<in> blocks r" "a \<in> cover ps (b, s)" by (force simp: free_bytes_def)
  have "order_size ps s dvd b" using block_fits [OF ok b(1)] by (simp add: fits_def)
  then have "cover ps (a, 0) \<subseteq> cover ps (b, s)"
    using cover_nested [OF 0(1), of s b] p b(2) cover_start [OF p, of a 0] by blast
  then show ?case using b(1) by blast
next
  case (Suc k)
  have ok: "region_ok ps r" and p: "0 < ps" and pow: "is_pow2 ps"
    using inv region_ok_pos by (auto simp: region_inv_def region_ok_def area_ok_def)
  let ?n = "order_size ps k"
  have dv: "?n dvd a" "?n dvd a + ?n" using Suc.prems(1) by (auto simp: order_size_Suc elim: dvd_mult_right)
  have sub: "cover ps (a, k) \<subseteq> free_bytes ps r" "cover ps (a + ?n, k) \<subseteq> free_bytes ps r"
    using Suc.prems(2) cover_halves(1) [of ps a k] by auto
  obtain b s where b: "(b, s) \<in> blocks r" "k \<le> s" "cover ps (a, k) \<subseteq> cover ps (b, s)"
    using Suc.IH [OF dv(1) sub(1)] Suc.prems(3) by auto
  obtain c q where c: "(c, q) \<in> blocks r" "k \<le> q" "cover ps (a + ?n, k) \<subseteq> cover ps (c, q)"
    using Suc.IH [OF dv(2) sub(2)] Suc.prems(3) by auto
  have whole: "cover ps (a, Suc k) \<subseteq> cover ps (b', s')"
    if "(b', s') \<in> blocks r" "Suc k \<le> s'" "x \<in> cover ps (a, Suc k)" "x \<in> cover ps (b', s')" for b' s' x
  proof -
    have "order_size ps s' dvd b'" using block_fits [OF ok that(1)] by (simp add: fits_def)
    then show ?thesis using cover_nested [OF Suc.prems(1) _ that(2) p] that(3,4) by blast
  qed
  consider "Suc k \<le> s" | "Suc k \<le> q" | "s = k" "q = k" using b(2) c(2) by linarith
  then show ?case
  proof cases
    case 1
    have "a \<in> cover ps (a, Suc k)" "a \<in> cover ps (b, s)" using cover_start [OF p] b(3) by blast+
    then show ?thesis using whole [OF b(1) 1] b(1) 1 by blast
  next
    case 2
    have "a + ?n \<in> cover ps (a, Suc k)" "a + ?n \<in> cover ps (c, q)"
      using cover_start [OF p, of "a + ?n" k] cover_halves(1) [of ps a k] c(3) by blast+
    then show ?thesis using whole [OF c(1) 2] c(1) 2 by blast
  next
    case 3
    then have "b = a" "c = a + ?n" using cover_inj [OF p] b(3) c(3) by blast+
    moreover have "a XOR ?n = a + ?n" using buddy_xor [OF pow dv(1)] Suc.prems(1) by simp
    ultimately have False using coalescedD [of ps r a k] inv b(1) c(1) 3 Suc.prems(3) by (simp add: region_inv_def)
    then show ?thesis ..
  qed
qed

section \<open>Allocation from a region\<close>

text \<open>
  The outcome of allocating \<open>2 ^ k\<close> pages with alignment \<open>al\<close>: an aligned run of free memory, which is
  no longer free, or nothing because no such run exists.
\<close>

definition run_free :: "nat \<Rightarrow> region \<Rightarrow> nat \<Rightarrow> nat \<Rightarrow> nat \<Rightarrow> bool" where
  "run_free ps r k al a \<longleftrightarrow> order_size ps k dvd a \<and> al dvd a \<and> cover ps (a, k) \<subseteq> free_bytes ps r"

definition took :: "nat \<Rightarrow> region \<Rightarrow> nat \<Rightarrow> nat \<Rightarrow> region \<Rightarrow> bool" where
  "took ps r a k r' \<longleftrightarrow> region_inv ps r' \<and> same_area r r' \<and> fits ps r a k
     \<and> free_bytes ps r' = free_bytes ps r - cover ps (a, k)"

lemma took_split:
  assumes inv: "region_inv ps r" and b: "(b, s) \<in> blocks r" and k: "k \<le> s"
    and t: "order_size ps k dvd t" "cover ps (t, k) \<subseteq> cover ps (b, s)"
    and r1: "region_inv ps r1" "same_area r r1" "held ps r1 b s" "free_bytes ps r = cover ps (b, s) \<union> free_bytes ps r1"
  obtains r' where "split_towards ps r1 b s t k = Some r'" "took ps r t k r'" "cover ps (t, k) \<subseteq> free_bytes ps r"
proof -
  obtain r' where r': "split_towards ps r1 b s t k = Some r'" "region_inv ps r'" "same_area r1 r'"
    "free_bytes ps r' = free_bytes ps r1 \<union> (cover ps (b, s) - cover ps (t, k))"
    using split_towards_inv [OF r1(1,3) t k] by blast
  have p: "0 < ps" using inv region_ok_pos by (auto simp: region_inv_def)
  have ok: "region_ok ps r" using inv by (simp add: region_inv_def)
  have fb: "fits ps r b s" by (rule block_fits [OF ok b])
  have pos: "order_size ps k \<noteq> 0" using p order_size_pos [of ps k] by linarith
  have "b \<le> t" "t + order_size ps k \<le> b + order_size ps s"
    using t(2) pos by (auto simp: cover_def)
  then have "fits ps r t k" using fb k t(1) by (simp add: fits_def)
  moreover have "cover ps (t, k) \<inter> free_bytes ps r1 = {}" using r1(3) t(2) by (auto simp: held_def)
  ultimately have "took ps r t k r'"
    using r' r1(2,4) t(2) by (auto simp: took_def intro: same_area_trans)
  then show thesis using that r'(1) t(2) r1(4) by blast
qed

lemma run_free_covered:
  assumes "region_inv ps r" "run_free ps r k al a" "k \<le> MAX_ORDER"
  obtains b s where "(b, s) \<in> blocks r" "k \<le> s" "s \<le> MAX_ORDER" "cover ps (a, k) \<subseteq> cover ps (b, s)"
  using covered_by_block [of ps r k a] assms unfolding run_free_def by (auto simp: blocks_def)

lemma alloc_order_inv:
  assumes inv: "region_inv ps r" and k: "k \<le> MAX_ORDER"
  shows "(\<exists>a r'. alloc_order ps r k = Some (r', Some a) \<and> took ps r a k r' \<and> run_free ps r k (order_size ps k) a)
    \<or> alloc_order ps r k = Some (r, None) \<and> (\<forall>a. \<not> run_free ps r k 1 a)"
proof (cases "find (\<lambda>i. free_lists r ! i \<noteq> []) [k..<Suc MAX_ORDER]")
  case None
  then have empty: "free_lists r ! i = []" if "k \<le> i" "i \<le> MAX_ORDER" for i
    using that by (auto simp: find_None_iff)
  have "\<not> run_free ps r k 1 a" for a
  proof
    assume "run_free ps r k 1 a"
    then obtain b s where "(b, s) \<in> blocks r" "k \<le> s" "s \<le> MAX_ORDER"
      using run_free_covered [OF inv _ k] by blast
    then show False using empty by (auto simp: blocks_def)
  qed
  then show ?thesis using None by (simp add: alloc_order_def)
next
  case (Some s)
  then have s: "k \<le> s" "s \<le> MAX_ORDER" "free_lists r ! s \<noteq> []" by (auto simp: find_Some_iff)
  then obtain b l where bl: "free_lists r ! s = b # l" by (cases "free_lists r ! s") auto
  have ok: "region_ok ps r" using inv by (simp add: region_inv_def)
  obtain r1 where r1: "pop_free ps r s = Some (r1, Some b)" "region_ok ps r1" "(b, s) \<in> blocks r"
    "blocks r1 = blocks r - {(b, s)}" "same_area r r1"
    using pop_free_ok [OF ok s(2) bl] by blast
  have fb: "free_bytes ps r1 = free_bytes ps r - cover ps (b, s)" by (rule free_bytes_remove [OF ok r1(3,4)])
  have fit: "fits ps r b s" by (rule block_fits [OF ok r1(3)])
  have inv1: "region_inv ps r1" using r1(2,4) inv coalesced_subset [of ps r r1] by (auto simp: region_inv_def)
  have h: "held ps r1 b s" using fit fb r1(5) by (auto simp: held_def)
  have d: "order_size ps k dvd b" using fit order_size_dvd [OF s(1)] by (auto simp: fits_def elim: dvd_trans)
  have sub: "cover ps (b, k) \<subseteq> cover ps (b, s)" using order_size_mono [OF s(1), of ps] by (auto simp: cover_def)
  obtain r' where "split_towards ps r1 b s b k = Some r'" "took ps r b k r'" "cover ps (b, k) \<subseteq> free_bytes ps r"
    using took_split [OF inv r1(3) s(1) d sub inv1 r1(5) h] fb block_in_free [OF r1(3), of ps] by blast
  then show ?thesis using Some r1(1) d by (auto simp: alloc_order_def run_free_def)
qed

text \<open>The chunk that contains an aligned address starts at a multiple of any coarser power of two.\<close>

lemma aligned_chunk_start:
  assumes pow: "is_pow2 ps" "is_pow2 al" and b: "order_size ps s dvd b" and a: "al dvd a" "a \<in> cover ps (b, s)"
  shows "al dvd b"
proof -
  have p: "0 < ps" by (rule pow2_pos [OF pow(1)])
  obtain i j where ij: "order_size ps s = 2 ^ i" "al = 2 ^ j"
    using order_size_pow2 [OF pow(1), of s] pow(2) by (auto simp: is_pow2_iff)
  show ?thesis
  proof (cases "j \<le> i")
    case True
    then have "al dvd order_size ps s" by (simp add: ij le_imp_power_dvd)
    then show ?thesis using b by (rule dvd_trans)
  next
    case False
    then have "order_size ps s dvd al" by (simp add: ij le_imp_power_dvd)
    then have "order_size ps s dvd a" using a(1) by (rule dvd_trans)
    then have "cover ps (a, s) \<subseteq> cover ps (b, s)"
      using cover_nested [OF _ b le_refl p, of a] a(2) cover_start [OF p, of a s] by blast
    then show ?thesis using cover_inj [OF p] a(1) by blast
  qed
qed

lemma alloc_aligned_from_inv:
  assumes inv: "region_inv ps r" and srcs: "\<forall>s \<in> set srcs. k \<le> s \<and> s \<le> MAX_ORDER"
  shows "(\<exists>a r'. alloc_aligned_from ps r k n srcs = Some (r', Some a) \<and> took ps r a k r' \<and> run_free ps r k (n * ps) a)
    \<or> alloc_aligned_from ps r k n srcs = Some (r, None)
      \<and> (\<forall>(b, s) \<in> blocks r. s \<in> set srcs \<longrightarrow> \<not> n * ps dvd b)"
  using srcs
proof (induction srcs)
  case Nil
  then show ?case by auto
next
  case (Cons s srcs)
  show ?case
  proof (cases "find (\<lambda>addr. is_multiple_of addr (n * ps)) (free_lists r ! s)")
    case None
    then have "\<not> n * ps dvd b" if "b \<in> set (free_lists r ! s)" for b
      using that by (auto simp: find_None_iff)
    then have no: "\<not> n * ps dvd b" if "(b, s) \<in> blocks r" for b using that by (simp add: blocks_def)
    have eq: "alloc_aligned_from ps r k n (s # srcs) = alloc_aligned_from ps r k n srcs" using None by simp
    have "\<forall>s \<in> set srcs. k \<le> s \<and> s \<le> MAX_ORDER" using Cons.prems by simp
    from Cons.IH [OF this] show ?thesis unfolding eq using no by auto
  next
    case (Some b)
    then have b: "b \<in> set (free_lists r ! s)" "n * ps dvd b" by (auto simp: find_Some_iff)
    have s: "k \<le> s" "s \<le> MAX_ORDER" using Cons.prems by auto
    have bl: "(b, s) \<in> blocks r" using b(1) s(2) by (simp add: blocks_def)
    have ok: "region_ok ps r" using inv by (simp add: region_inv_def)
    obtain r1 where r1: "remove_free ps r b s = Some r1" "region_inv ps r1" "same_area r r1"
      "held ps r1 b s" "free_bytes ps r = cover ps (b, s) \<union> free_bytes ps r1"
      using remove_free_inv [OF inv bl] by metis
    have d: "order_size ps k dvd b"
      using block_fits [OF ok bl] order_size_dvd [OF s(1)] by (auto simp: fits_def elim: dvd_trans)
    have sub: "cover ps (b, k) \<subseteq> cover ps (b, s)" using order_size_mono [OF s(1), of ps] by (auto simp: cover_def)
    obtain r' where "split_towards ps r1 b s b k = Some r'" "took ps r b k r'" "cover ps (b, k) \<subseteq> free_bytes ps r"
      using took_split [OF inv bl s(1) d sub r1(2-5)] .
    then show ?thesis using Some r1(1) d b(2) by (auto simp: run_free_def)
  qed
qed

lemma alloc_aligned_inv:
  assumes inv: "region_inv ps r" and k: "k \<le> MAX_ORDER" and al: "is_pow2 al" "ps dvd al"
  shows "(\<exists>a r'. alloc_aligned ps r k (al div ps) = Some (r', Some a) \<and> took ps r a k r' \<and> run_free ps r k al a)
    \<or> alloc_aligned ps r k (al div ps) = Some (r, None) \<and> (\<forall>a. \<not> run_free ps r k al a)"
proof (cases "al div ps \<le> order_pages k")
  case True
  have pow: "is_pow2 ps" using inv by (simp add: region_inv_def region_ok_def area_ok_def)
  obtain i j where ij: "order_size ps k = 2 ^ i" "al = 2 ^ j"
    using order_size_pow2 [OF pow, of k] al(1) by (auto simp: is_pow2_iff)
  have "al div ps * ps \<le> order_size ps k" using True by (simp add: order_size_def)
  then have "al \<le> order_size ps k" using al(2) by simp
  then have "al dvd order_size ps k" by (simp add: ij le_imp_power_dvd)
  then have weak: "run_free ps r k (order_size ps k) a \<Longrightarrow> run_free ps r k al a" for a
    by (auto simp: run_free_def elim: dvd_trans)
  have "run_free ps r k al a \<Longrightarrow> run_free ps r k 1 a" for a by (simp add: run_free_def)
  then show ?thesis using alloc_order_inv [OF inv k] True weak by (auto simp: alloc_aligned_def)
next
  case False
  have pow: "is_pow2 ps" and ok: "region_ok ps r"
    using inv by (simp_all add: region_inv_def region_ok_def area_ok_def)
  have none: "\<not> run_free ps r k al a" if no: "\<forall>(b, s) \<in> blocks r. s \<in> {k..<Suc MAX_ORDER} \<longrightarrow> \<not> al dvd b" for a
  proof
    assume run: "run_free ps r k al a"
    then obtain b s where b: "(b, s) \<in> blocks r" "k \<le> s" "s \<le> MAX_ORDER" "cover ps (a, k) \<subseteq> cover ps (b, s)"
      using run_free_covered [OF inv _ k] by blast
    have "a \<in> cover ps (b, s)" using b(4) cover_start [OF pow2_pos [OF pow]] by blast
    then have "al dvd b"
      using aligned_chunk_start [OF pow al(1)] block_fits [OF ok b(1)] run by (auto simp: fits_def run_free_def)
    then show False using no b by auto
  qed
  have "\<forall>s \<in> set [k..<Suc MAX_ORDER]. k \<le> s \<and> s \<le> MAX_ORDER" by auto
  from alloc_aligned_from_inv [OF inv this, of "al div ps"] show ?thesis
    using False al(2) none by (simp add: alloc_aligned_def del: upt_Suc) blast
qed

lemma and_not_eq:
  assumes "a < 2 ^ 64" "is_pow2 n"
  shows "and_not a (n - 1) = a div n * n"
proof -
  obtain j where n: "n = 2 ^ j" using assms(2) by (auto simp: is_pow2_iff)
  have "(of_nat (n - 1) :: usize) = mask j"
    by (simp add: n mask_eq_exp_minus_1 of_nat_diff)
  moreover have "unat (of_nat a :: usize) = a" using assms(1) by (simp add: unat_of_nat)
  ultimately show ?thesis by (simp add: and_not_def unat_and_not_mask n)
qed

lemma chunk_start_eq:
  assumes "order_size ps s dvd b" "t \<in> cover ps (b, s)"
  shows "t div order_size ps s * order_size ps s = b"
proof -
  obtain q where q: "b = order_size ps s * q" using assms(1) ..
  have "t div order_size ps s = q"
    using assms(2) q by (intro div_nat_eqI) (auto simp: cover_def algebra_simps)
  then show ?thesis using q by simp
qed

lemma alloc_at_from_inv:
  assumes inv: "region_inv ps r" and t: "order_size ps k dvd t" "t < 2 ^ 64"
    and srcs: "\<forall>s \<in> set srcs. k \<le> s \<and> s \<le> MAX_ORDER"
  shows "(\<exists>r'. alloc_at_from ps r t k srcs = Some (r', Some t) \<and> took ps r t k r' \<and> run_free ps r k 1 t)
    \<or> alloc_at_from ps r t k srcs = Some (r, None)
      \<and> (\<forall>(b, s) \<in> blocks r. s \<in> set srcs \<longrightarrow> t \<notin> cover ps (b, s))"
  using srcs
proof (induction srcs)
  case Nil
  then show ?case by auto
next
  case (Cons s srcs)
  have ok: "region_ok ps r" and pow: "is_pow2 ps"
    using inv by (simp_all add: region_inv_def region_ok_def area_ok_def)
  have p: "0 < ps" by (rule pow2_pos [OF pow])
  let ?b = "t div order_size ps s * order_size ps s"
  have an: "and_not t (order_size ps s - Suc 0) = ?b"
    using and_not_eq [OF t(2)] order_size_pow2 [OF pow, of s] by (auto simp: is_pow2_iff)
  have s: "k \<le> s" "s \<le> MAX_ORDER" using Cons.prems by auto
  show ?case
  proof (cases "(?b, s) \<in> blocks r")
    case False
    then have no: "t \<notin> cover ps (b, s)" if "(b, s) \<in> blocks r" for b
      using that chunk_start_eq [of ps s b t] block_fits [OF ok that] by (auto simp: fits_def)
    have eq: "alloc_at_from ps r t k (s # srcs) = alloc_at_from ps r t k srcs"
      using False by (simp add: an is_free_iff [OF ok])
    have "\<forall>s \<in> set srcs. k \<le> s \<and> s \<le> MAX_ORDER" using Cons.prems by simp
    from Cons.IH [OF this] show ?thesis unfolding eq using no by auto
  next
    case bl: True
    obtain r1 where r1: "remove_free ps r ?b s = Some r1" "region_inv ps r1" "same_area r r1"
      "held ps r1 ?b s" "free_bytes ps r = cover ps (?b, s) \<union> free_bytes ps r1"
      using remove_free_inv [OF inv bl] by metis
    have "t \<in> cover ps (?b, s)"
      using p dividend_less_div_times [of "order_size ps s" t] by (simp add: cover_def div_times_less_eq_dividend)
    then have sub: "cover ps (t, k) \<subseteq> cover ps (?b, s)"
      using cover_nested [OF t(1) _ s(1) p, of ?b] cover_start [OF p, of t k] by auto
    obtain r' where "split_towards ps r1 ?b s t k = Some r'" "took ps r t k r'" "cover ps (t, k) \<subseteq> free_bytes ps r"
      using took_split [OF inv bl s(1) t(1) sub r1(2-5)] .
    then show ?thesis using r1(1) t(1) bl by (auto simp: run_free_def an is_free_iff [OF ok])
  qed
qed

lemma alloc_at_inv:
  assumes inv: "region_inv ps r" and k: "k \<le> MAX_ORDER"
  shows "(\<exists>r'. alloc_at ps r t k = Some (r', Some t) \<and> took ps r t k r' \<and> run_free ps r k 1 t)
    \<or> alloc_at ps r t k = Some (r, None) \<and> \<not> run_free ps r k 1 t"
proof (cases "reg_contains ps r t \<and> order_size ps k dvd t")
  case False
  have "\<not> run_free ps r k 1 t"
  proof
    assume run: "run_free ps r k 1 t"
    have ok: "region_ok ps r" using inv by (simp add: region_inv_def)
    have p: "0 < ps" by (rule region_ok_pos [OF ok])
    obtain b s where b: "(b, s) \<in> blocks r" "cover ps (t, k) \<subseteq> cover ps (b, s)"
      using run_free_covered [OF inv run k] by blast
    have "t \<in> cover ps (b, s)" using b(2) cover_start [OF p] by blast
    then have "reg_contains ps r t"
      using block_fits [OF ok b(1)] by (auto simp: fits_def cover_def reg_contains_def)
    then show False using False run by (simp add: run_free_def)
  qed
  then show ?thesis using False by (auto simp: alloc_at_def)
next
  case True
  have "t < 2 ^ 64" using True inv by (simp add: reg_contains_def region_inv_def region_ok_def area_ok_def)
  moreover have "\<forall>s \<in> set [k..<Suc MAX_ORDER]. k \<le> s \<and> s \<le> MAX_ORDER" by auto
  moreover have "\<not> run_free ps r k 1 t"
    if no: "\<forall>(b, s) \<in> blocks r. s \<in> {k..<Suc MAX_ORDER} \<longrightarrow> t \<notin> cover ps (b, s)"
  proof
    assume run: "run_free ps r k 1 t"
    have p: "0 < ps" using inv region_ok_pos by (auto simp: region_inv_def)
    obtain b s where b: "(b, s) \<in> blocks r" "k \<le> s" "s \<le> MAX_ORDER" "cover ps (t, k) \<subseteq> cover ps (b, s)"
      using run_free_covered [OF inv run k] .
    then have "t \<in> cover ps (b, s)" using cover_start [OF p] by blast
    then show False using no b(1-3) by auto
  qed
  ultimately show ?thesis
    using alloc_at_from_inv [OF inv _ _, of k t "[k..<Suc MAX_ORDER]"] True
    by (simp add: alloc_at_def del: upt_Suc) blast
qed

section \<open>Freeing into a region\<close>

lemma coalesce_inv:
  assumes "region_inv ps r" "held ps r a k"
  shows "\<exists>r' a' k'. coalesce ps r a k = Some (r', a', k') \<and> region_inv ps r' \<and> same_area r r' \<and> held ps r' a' k'
    \<and> free_bytes ps r' \<union> cover ps (a', k') = free_bytes ps r \<union> cover ps (a, k)
    \<and> (k' < MAX_ORDER \<longrightarrow> (a' XOR order_size ps k', k') \<notin> blocks r')"
  using assms
proof (induction "MAX_ORDER - k" arbitrary: r a k)
  case 0
  then show ?case by (subst coalesce.simps) simp
next
  case (Suc n)
  let ?n = "order_size ps k"
  let ?o = "a XOR ?n"
  have ok: "region_ok ps r" and pow: "is_pow2 ps"
    using Suc.prems(1) by (simp_all add: region_inv_def region_ok_def area_ok_def)
  have k: "k < MAX_ORDER" using Suc.hyps(2) by simp
  show ?case
  proof (cases "(?o, k) \<in> blocks r")
    case False
    then have "coalesce ps r a k = Some (r, a, k)"
      using k by (subst coalesce.simps) (simp add: is_free_iff [OF ok])
    then show ?thesis using False Suc.prems by auto
  next
    case True
    obtain r1 where r1: "remove_free ps r ?o k = Some r1" "region_inv ps r1" "same_area r r1"
      "held ps r1 ?o k" "free_bytes ps r = cover ps (?o, k) \<union> free_bytes ps r1"
      using remove_free_inv [OF Suc.prems(1) True] by metis
    have fa: "fits ps r a k" and apart: "cover ps (a, k) \<inter> free_bytes ps r = {}"
      using Suc.prems(2) by (simp_all add: held_def)
    have fo: "fits ps r ?o k" by (rule block_fits [OF ok True])
    have "order_size ps k dvd a" using fa by (simp add: fits_def)
    from buddy_pair [OF pow this] obtain m where m: "m = min a ?o" "order_size ps (Suc k) dvd m"
      "cover ps (m, Suc k) = cover ps (a, k) \<union> cover ps (?o, k)"
      "m = a \<and> ?o = a + ?n \<or> m + ?n = a \<and> ?o = m" by metis
    have "fits ps r m (Suc k)"
      using m(2,4) fa fo k unfolding fits_def by (auto simp: order_size_Suc)
    moreover have "cover ps (m, Suc k) \<inter> free_bytes ps r1 = {}"
      using m(3) apart r1(4,5) by (auto simp: held_def)
    ultimately have "held ps r1 m (Suc k)" using r1(3) by (simp add: held_def)
    from Suc.hyps(1) [OF _ r1(2) this] Suc.hyps(2) obtain r' a' k' where
      r': "coalesce ps r1 m (Suc k) = Some (r', a', k')" "region_inv ps r'" "same_area r1 r'" "held ps r' a' k'"
      "free_bytes ps r' \<union> cover ps (a', k') = free_bytes ps r1 \<union> cover ps (m, Suc k)"
      "k' < MAX_ORDER \<longrightarrow> (a' XOR order_size ps k', k') \<notin> blocks r'" by (metis Suc_diff_Suc diff_Suc_1 k)
    have "coalesce ps r a k = Some (r', a', k')"
      using k r1(1) r'(1) True m(1) by (subst coalesce.simps) (simp add: is_free_iff [OF ok])
    moreover have "free_bytes ps r' \<union> cover ps (a', k') = free_bytes ps r \<union> cover ps (a, k)"
      using r'(5) r1(5) m(3) by blast
    ultimately show ?thesis using r' r1(3) same_area_trans by blast
  qed
qed

lemma free_in_region_inv:
  assumes "region_inv ps r" "held ps r a k"
  obtains r' where "free_in_region ps r a k = Some r'" "region_inv ps r'" "same_area r r'"
    "free_bytes ps r' = free_bytes ps r \<union> cover ps (a, k)"
proof -
  obtain r1 a1 k1 where c: "coalesce ps r a k = Some (r1, a1, k1)" "region_inv ps r1" "same_area r r1" "held ps r1 a1 k1"
    "free_bytes ps r1 \<union> cover ps (a1, k1) = free_bytes ps r \<union> cover ps (a, k)"
    "k1 < MAX_ORDER \<longrightarrow> (a1 XOR order_size ps k1, k1) \<notin> blocks r1"
    using coalesce_inv [OF assms] by blast
  obtain r' where r': "push_free ps r1 a1 k1 = Some r'" "region_inv ps r'" "same_area r1 r'"
    "free_bytes ps r' = cover ps (a1, k1) \<union> free_bytes ps r1"
    using push_free_inv [OF c(2,4)] c(6) by blast
  show thesis
    using that [of r'] c(1,3,5) r' same_area_trans [OF c(3) r'(3)] by (simp add: free_in_region_def Un_commute)
qed

end
