(* ===== verification/BuddySpec.thy ===== *)
theory BuddySpec
  imports BuddyInv
begin

text \<open>
  The allocator level of the buddy page allocator: carving a region into free chunks, the invariant
  over all regions, the contract of a page allocator as a locale with its client lemmas, and the
  interpretation of that contract on the buddy allocator.
\<close>

unbundle bit_operations_syntax

section \<open>Carving a new region\<close>

lemma pick_order_0: "pick_order ps hs pages offset 0 = 0"
  by (simp add: pick_order.simps)

lemma pick_order_Suc:
  "pick_order ps hs pages offset (Suc k) =
     (if 2 ^ Suc k \<le> pages - offset \<and> order_size ps (Suc k) dvd hs + offset * ps then Suc k
      else pick_order ps hs pages offset k)"
  by (subst pick_order.simps) (simp add: Let_def)

lemma pick_order_fits:
  assumes "offset < pages" "ps dvd hs + offset * ps"
  shows "pick_order ps hs pages offset k \<le> k \<and> 2 ^ pick_order ps hs pages offset k \<le> pages - offset
    \<and> order_size ps (pick_order ps hs pages offset k) dvd hs + offset * ps"
  using assms by (induction k) (auto simp: pick_order_0 pick_order_Suc)

lemma pick_order_greatest:
  "\<lbrakk>pick_order ps hs pages offset k < j; j \<le> k; 2 ^ j \<le> pages - offset\<rbrakk> \<Longrightarrow> \<not> order_size ps j dvd hs + offset * ps"
  by (induction k) (auto simp: pick_order_Suc le_Suc_eq split: if_splits)

text \<open>No free chunk could have been taken one order larger.\<close>

definition greedy :: "nat \<Rightarrow> region \<Rightarrow> bool" where
  "greedy ps r \<longleftrightarrow> (\<forall>(a, k) \<in> blocks r.
     k < MAX_ORDER \<and> order_size ps (Suc k) dvd a \<longrightarrow> heap_end ps r < a + order_size ps (Suc k))"

lemma carve_step:
  assumes inv: "region_inv ps r" and gr: "greedy ps r" and off: "offset < reg_total r"
    and fb: "free_bytes ps r = {heap_start r..<heap_start r + offset * ps}"
  defines "k \<equiv> pick_order ps (heap_start r) (reg_total r) offset MAX_ORDER"
  obtains r' where "push_free ps r (heap_start r + offset * ps) k = Some r'" "region_inv ps r'" "same_area r r'"
    "greedy ps r'" "free_bytes ps r' = {heap_start r..<heap_start r + (offset + 2 ^ k) * ps}"
    "offset + 2 ^ k \<le> reg_total r"
proof -
  have ok: "region_ok ps r" and pow: "is_pow2 ps" and hs: "ps dvd heap_start r"
    using inv by (simp_all add: region_inv_def region_ok_def area_ok_def)
  have p: "0 < ps" by (rule pow2_pos [OF pow])
  let ?a = "heap_start r + offset * ps" and ?n = "order_size ps k"
  have k: "k \<le> MAX_ORDER" "2 ^ k \<le> reg_total r - offset" "?n dvd ?a"
    using pick_order_fits [OF off, of ps "heap_start r" MAX_ORDER] hs unfolding k_def by auto
  have len: "offset + 2 ^ k \<le> reg_total r" using k(2) off by linarith
  have "(offset + 2 ^ k) * ps \<le> reg_total r * ps" using len by (rule mult_le_mono1)
  then have top: "?a + ?n \<le> heap_end ps r"
    by (simp add: heap_end_def order_size_def order_pages_def algebra_simps)
  have cov: "cover ps (?a, k) = {?a..<heap_start r + (offset + 2 ^ k) * ps}"
    by (simp add: cover_def order_size_def order_pages_def algebra_simps)
  have held: "held ps r ?a k" using k(1,3) top fb by (auto simp: held_def fits_def cover_def)
  have below: "c < ?a" if "(c, j) \<in> blocks r" for c j
    using block_in_free [OF that, of ps] cover_start [OF p, of c j] fb by auto
  have lone: "(?a XOR ?n, k) \<notin> blocks r" if "k < MAX_ORDER"
  proof
    assume other: "(?a XOR ?n, k) \<in> blocks r"
    from buddy_pair [OF pow k(3)] obtain m where m: "order_size ps (Suc k) dvd m"
      "m = ?a \<and> ?a XOR ?n = ?a + ?n \<or> m + ?n = ?a \<and> ?a XOR ?n = m" by metis
    then have "?a XOR ?n = m" "m + ?n = ?a" using below [OF other] by auto
    then show False using gr other m(1) that top by (fastforce simp: greedy_def order_size_Suc)
  qed
  obtain r' where r': "push_free ps r ?a k = Some r'" "region_ok ps r'" "blocks r' = insert (?a, k) (blocks r)" "same_area r r'"
    using push_free_ok [OF ok, of ?a k] held unfolding held_def by blast
  have "region_inv ps r'"
    using r'(2) coalesced_insert [OF _ p r'(3) lone] inv by (auto simp: region_inv_def)
  moreover have "heap_end ps r < ?a + order_size ps (Suc k)"
    if "k < MAX_ORDER" "order_size ps (Suc k) dvd ?a"
  proof -
    have "\<not> 2 ^ Suc k \<le> reg_total r - offset"
      using pick_order_greatest [of ps "heap_start r" "reg_total r" offset MAX_ORDER "Suc k"] that
      unfolding k_def by auto
    then have "reg_total r < offset + 2 ^ Suc k" by linarith
    then have "reg_total r * ps < (offset + 2 ^ Suc k) * ps" using p by (rule mult_less_mono1)
    then show ?thesis by (simp add: heap_end_def order_size_def order_pages_def algebra_simps)
  qed
  then have "greedy ps r'" using gr r'(3,4) by (auto simp: greedy_def)
  moreover have "free_bytes ps r' = {heap_start r..<heap_start r + (offset + 2 ^ k) * ps}"
    unfolding free_bytes_insert [OF r'(3)] cov fb by (auto simp: algebra_simps)
  ultimately show thesis using that r'(1,4) len by blast
qed

lemma carve_inv:
  assumes "region_inv ps r" "greedy ps r" "offset \<le> reg_total r"
    "free_bytes ps r = {heap_start r..<heap_start r + offset * ps}"
  shows "\<exists>r'. carve ps r (heap_start r) (reg_total r) offset = Some r' \<and> region_inv ps r' \<and> same_area r r'
    \<and> free_bytes ps r' = {heap_start r..<heap_end ps r}"
  using assms
proof (induction "reg_total r - offset" arbitrary: r offset rule: less_induct)
  case less
  show ?case
  proof (cases "offset < reg_total r")
    case False
    then have "offset = reg_total r" using less.prems(3) by simp
    then show ?thesis using less.prems by (subst carve.simps) (simp add: heap_end_def)
  next
    case True
    let ?k = "pick_order ps (heap_start r) (reg_total r) offset MAX_ORDER"
    obtain r1 where r1: "push_free ps r (heap_start r + offset * ps) ?k = Some r1" "region_inv ps r1" "same_area r r1"
      "greedy ps r1" "free_bytes ps r1 = {heap_start r..<heap_start r + (offset + 2 ^ ?k) * ps}"
      "offset + 2 ^ ?k \<le> reg_total r"
      using carve_step [OF less.prems(1,2) True less.prems(4)] .
    have eq: "heap_start r1 = heap_start r" "reg_total r1 = reg_total r" using r1(3) by (simp_all add: same_area_def)
    have "reg_total r1 - (offset + 2 ^ ?k) < reg_total r - offset"
      using eq(2) True by (simp add: diff_less_mono2)
    from less.hyps [OF this r1(2,4)] r1(5,6) eq obtain r' where
      "carve ps r1 (heap_start r1) (reg_total r1) (offset + 2 ^ ?k) = Some r'" "region_inv ps r'" "same_area r1 r'"
      "free_bytes ps r' = {heap_start r1..<heap_end ps r1}" by auto
    then show ?thesis
      using True r1(1,3) eq same_area_trans [OF r1(3)] by (subst carve.simps) (auto simp: Let_def)
  qed
qed

section \<open>Registering regions\<close>

lemma div_ceil_bounds: "0 < n \<Longrightarrow> a \<le> div_ceil a n * n" "0 < n \<Longrightarrow> div_ceil a n \<le> a"
proof -
  assume n: "0 < n"
  show "a \<le> div_ceil a n * n"
    using dividend_less_div_times [OF n, of "a + (n - 1)"] n unfolding div_ceil_def by linarith
  show "div_ceil a n \<le> a"
  proof (cases a)
    case 0
    then show ?thesis using n by (simp add: div_ceil_def)
  next
    case (Suc m)
    have "(a + (n - 1)) div n \<le> (a * n) div n"
      using Suc n by (intro div_le_mono) (cases n; simp)
    then show ?thesis using n by (simp add: div_ceil_def)
  qed
qed

lemma metadata_pages_le: "0 < ps \<Longrightarrow> metadata_pages ps n \<le> n"
  using div_ceil_bounds(2) [of ps "div_ceil n 8"] div_ceil_bounds(2) [of 8 n] by (simp add: metadata_pages_def)

text \<open>The bitmap has a bit for every page, inline or in the reserved prefix.\<close>

lemma bitmap_large_enough:
  assumes "is_pow2 ps" "8 \<le> ps" "0 < base"
  shows "reg_total (empty_region ps base n mem) \<le> 64 * length (bm_words (free_heads (empty_region ps base n mem)))"
proof (cases "metadata_pages ps n = 0")
  case True
  have "n \<le> 256"
  proof (rule ccontr)
    assume "\<not> n \<le> 256"
    then have "n \<le> div_ceil n 8 * 8" "div_ceil n 8 \<le> metadata_pages ps n * ps"
      using assms(2) div_ceil_bounds(1) [of 8 n] div_ceil_bounds(1) [of ps "div_ceil n 8"]
      by (simp_all add: metadata_pages_def)
    then show False using True \<open>\<not> n \<le> 256\<close> by simp
  qed
  then show ?thesis using True by (simp add: empty_region_def bm_words_def Let_def)
next
  case False
  have d: "8 dvd ps"
    using assms(1,2) power_increasing_iff [of "2::nat" 3] by (auto simp: is_pow2_iff intro!: le_imp_power_dvd [of 3 _ "2::nat", simplified])
  have "n \<le> div_ceil n 8 * 8" by (rule div_ceil_bounds(1)) simp
  moreover have "div_ceil n 8 \<le> metadata_pages ps n * ps"
    using False assms(2) div_ceil_bounds(1) [of ps "div_ceil n 8"] by (simp add: metadata_pages_def split: if_splits)
  ultimately have "n \<le> 8 * (metadata_pages ps n * ps)" by linarith
  also have "8 * (metadata_pages ps n * ps) = 64 * (metadata_pages ps n * ps div 8)"
    using d by (auto simp: dvd_def)
  finally show ?thesis using False assms(3) by (simp add: empty_region_def bm_words_def Let_def)
qed

lemma empty_region_inv:
  assumes "is_pow2 ps" "8 \<le> ps" "0 < base" "ps dvd base" "base + n * ps < 2 ^ 64"
  shows "region_inv ps (empty_region ps base n mem)" "blocks (empty_region ps base n mem) = {}"
    and "heap_end ps (empty_region ps base n mem) = base + n * ps"
proof -
  let ?r = "empty_region ps base n mem" and ?m = "metadata_pages ps n"
  have le: "?m \<le> n" using metadata_pages_le assms(2) by simp
  have "?m * ps + (n - ?m) * ps = n * ps" using le by (metis add_mult_distrib le_add_diff_inverse)
  then show he: "heap_end ps ?r = base + n * ps" by (simp add: empty_region_def Let_def heap_end_def)
  show bl: "blocks ?r = {}" by (auto simp: blocks_def empty_region_def Let_def nth_replicate simp del: replicate_Suc)
  have area: "area_ok ps ?r"
    using assms he bitmap_large_enough [OF assms(1-3)] by (simp add: area_ok_def) (simp add: empty_region_def Let_def)
  have head: "bm_contains (free_heads ?r) i = Some False" if "i < reg_total ?r" for i
  proof -
    have "\<forall>w \<in> set (bm_words (free_heads ?r)). w = 0" by (simp add: empty_region_def bm_words_def Let_def)
    moreover have "i div 64 < length (bm_words (free_heads ?r))"
      using that area by (simp add: area_ok_def less_mult_imp_div_less mult.commute)
    ultimately show ?thesis using nth_mem by (fastforce simp: bm_contains_bit)
  qed
  have "lists_ok ?r" by (simp add: lists_ok_def empty_region_def Let_def nth_replicate del: replicate_Suc)
  moreover have "count_ok ?r" using bl by (simp add: count_ok_def) (simp add: empty_region_def Let_def)
  ultimately show "region_inv ps ?r"
    using area head bl by (simp add: region_inv_def region_ok_def chunks_ok_def heads_ok_def coalesced_def)
qed

section \<open>The allocator invariant\<close>

text \<open>Every region satisfies its invariant, and regions, reserved prefixes included, do not overlap.\<close>

definition area :: "nat \<Rightarrow> region \<Rightarrow> nat set" where
  "area ps r = {region_start r..<heap_end ps r}"

definition buddy_inv :: "nat \<Rightarrow> buddy \<Rightarrow> bool" where
  "buddy_inv ps b \<longleftrightarrow> is_pow2 ps \<and> length (regions b) \<le> MAX_REGIONS \<and> (\<forall>r \<in> set (regions b). region_inv ps r)
     \<and> sorted_wrt (\<lambda>r s. area ps r \<inter> area ps s = {}) (regions b)"

definition free_all :: "nat \<Rightarrow> buddy \<Rightarrow> nat set" where
  "free_all ps b = (\<Union>r \<in> set (regions b). free_bytes ps r)"

lemma same_area_area: "same_area r r' \<Longrightarrow> area ps r' = area ps r"
  by (simp add: area_def same_area_def heap_end_def)

lemma free_in_heap:
  assumes "region_ok ps r"
  shows "free_bytes ps r \<subseteq> {heap_start r..<heap_end ps r}"
  using block_fits [OF assms] by (fastforce simp: free_bytes_def cover_def fits_def)

lemma free_in_area:
  assumes "region_ok ps r"
  shows "free_bytes ps r \<subseteq> area ps r"
  using free_in_heap [OF assms] assms by (fastforce simp: area_def region_ok_def area_ok_def)

lemma regions_apart:
  assumes "buddy_inv ps b" "regions b = pre @ r # post" "s \<in> set pre \<union> set post"
  shows "area ps r \<inter> free_bytes ps s = {}"
proof -
  have "area ps r \<inter> area ps s = {}"
    using assms by (auto simp: buddy_inv_def sorted_wrt_append)
  moreover have "region_ok ps s" using assms by (auto simp: buddy_inv_def region_inv_def)
  ultimately show ?thesis using free_in_area by blast
qed

lemma free_all_split:
  "regions b = pre @ r # post \<Longrightarrow> free_all ps b = free_bytes ps r \<union> (\<Union>s \<in> set pre \<union> set post. free_bytes ps s)"
  by (auto simp: free_all_def)

lemma buddy_replace:
  assumes inv: "buddy_inv ps b" and rs: "regions b = pre @ r # post" and r': "region_inv ps r'" "same_area r r'"
  shows "buddy_inv ps (b\<lparr>regions := pre @ r' # post\<rparr>)"
  using inv rs r' same_area_area [OF r'(2), of ps]
  by (auto simp: buddy_inv_def sorted_wrt_append)

lemma fits_in_area: "\<lbrakk>region_ok ps r; fits ps r a k\<rbrakk> \<Longrightarrow> cover ps (a, k) \<subseteq> area ps r"
  by (auto simp: fits_def cover_def area_def region_ok_def area_ok_def)

lemma free_all_took:
  assumes inv: "buddy_inv ps b" and rs: "regions b = pre @ r # post" and t: "took ps r a k r'"
  shows "free_all ps (b\<lparr>regions := pre @ r' # post\<rparr>) = free_all ps b - cover ps (a, k)"
proof -
  have "region_ok ps r" using inv rs by (simp add: buddy_inv_def region_inv_def)
  then have "cover ps (a, k) \<subseteq> area ps r" using fits_in_area t by (auto simp: took_def)
  then have "cover ps (a, k) \<inter> free_bytes ps s = {}" if "s \<in> set pre \<union> set post" for s
    using regions_apart [OF inv rs that] by blast
  then have "cover ps (a, k) \<inter> (\<Union>s \<in> set pre \<union> set post. free_bytes ps s) = {}" by blast
  moreover have "free_bytes ps r' = free_bytes ps r - cover ps (a, k)" using t by (simp add: took_def)
  moreover have "free_all ps (b\<lparr>regions := pre @ r' # post\<rparr>)
    = free_bytes ps r' \<union> (\<Union>s \<in> set pre \<union> set post. free_bytes ps s)"
    by (rule free_all_split) simp
  ultimately show ?thesis unfolding free_all_split [OF rs] by blast
qed

lemma alloc_in_spec:
  assumes "\<forall>r \<in> set rs. (\<exists>a r'. f r = Some (r', Some a) \<and> took ps r a k r' \<and> Q r a) \<or> f r = Some (r, None) \<and> N r"
  shows "(\<exists>pre r post a r'. rs = pre @ r # post \<and> alloc_in f rs = Some (pre @ r' # post, Some a)
      \<and> took ps r a k r' \<and> Q r a)
    \<or> alloc_in f rs = Some (rs, None) \<and> (\<forall>r \<in> set rs. N r)"
  using assms
proof (induction rs)
  case Nil
  then show ?case by simp
next
  case (Cons r rs)
  consider (got) a r' where "f r = Some (r', Some a)" "took ps r a k r'" "Q r a" | (none) "f r = Some (r, None)" "N r"
    using Cons.prems by auto
  then show ?case
  proof cases
    case got
    then have "alloc_in f (r # rs) = Some ([] @ r' # rs, Some a)" by simp
    then show ?thesis using got by blast
  next
    case none
    have rest: "\<forall>r \<in> set rs. (\<exists>a r'. f r = Some (r', Some a) \<and> took ps r a k r' \<and> Q r a) \<or> f r = Some (r, None) \<and> N r"
      using Cons.prems by simp
    from Cons.IH [OF rest] show ?thesis
    proof
      assume "\<exists>pre r post a r'. rs = pre @ r # post \<and> alloc_in f rs = Some (pre @ r' # post, Some a)
        \<and> took ps r a k r' \<and> Q r a"
      then obtain pre s post a s' where s: "rs = pre @ s # post" "alloc_in f rs = Some (pre @ s' # post, Some a)"
        "took ps s a k s'" "Q s a" by blast
      then have "r # rs = (r # pre) @ s # post" "alloc_in f (r # rs) = Some ((r # pre) @ s' # post, Some a)"
        using none by simp_all
      then show ?thesis using s by blast
    qed (simp add: none)
  qed
qed

lemma count_order_bound:
  assumes "count_order n \<le> MAX_ORDER"
  shows "n \<le> 2 ^ count_order n" "\<And>k. k < count_order n \<Longrightarrow> 2 ^ k < n"
proof -
  let ?P = "\<lambda>k. 2 ^ k < n"
  have lt: "count_order n < length [0..<64]" using assms by simp
  then have "\<not> ?P ([0..<64] ! count_order n)"
    unfolding count_order_def by (rule nth_length_takeWhile)
  then show "n \<le> 2 ^ count_order n" using lt by simp
  fix k assume k: "k < count_order n"
  then have "[0..<64] ! k = takeWhile ?P [0..<64] ! k" unfolding count_order_def by (simp add: takeWhile_nth)
  moreover have "takeWhile ?P [0..<64] ! k \<in> set (takeWhile ?P [0..<64])" using k unfolding count_order_def by simp
  ultimately show "2 ^ k < n" using k lt by (auto dest: set_takeWhileD)
qed

section \<open>Allocation and release\<close>

definition eff_align :: "nat \<Rightarrow> nat \<Rightarrow> nat" where
  "eff_align ps al = (if al = 0 then ps else al)"

definition valid_request :: "nat \<Rightarrow> nat \<Rightarrow> nat \<Rightarrow> bool" where
  "valid_request ps n al \<longleftrightarrow> n \<noteq> 0 \<and> is_pow2 (eff_align ps al) \<and> ps \<le> eff_align ps al \<and> count_order n \<le> MAX_ORDER"

lemma pow2_le_dvd: "\<lbrakk>is_pow2 m; is_pow2 n; m \<le> n\<rbrakk> \<Longrightarrow> m dvd n"
  by (auto simp: is_pow2_iff le_imp_power_dvd)

lemma allocate_pages_cases:
  assumes inv: "buddy_inv ps b"
  obtains (got) a b' pre r post r' where "valid_request ps n al" "allocate_pages ps b n al = Some (b', Inr a)"
      "regions b = pre @ r # post" "b' = b\<lparr>regions := pre @ r' # post\<rparr>" "took ps r a (count_order n) r'"
      "run_free ps r (count_order n) (eff_align ps al) a"
    | (full) "valid_request ps n al" "allocate_pages ps b n al = Some (b, Inl NoMemory)"
      "\<forall>r \<in> set (regions b). \<forall>a. \<not> run_free ps r (count_order n) (eff_align ps al) a"
    | (bad) "\<not> valid_request ps n al" "allocate_pages ps b n al = Some (b, Inl InvalidInput)"
proof (cases "valid_request ps n al")
  case False
  then show thesis using bad by (auto simp: valid_request_def eff_align_def allocate_pages_def Let_def split: if_splits)
next
  case True
  let ?k = "count_order n" and ?al = "eff_align ps al"
  have v: "n \<noteq> 0" "is_pow2 ?al" "ps \<le> ?al" "?k \<le> MAX_ORDER" using True by (simp_all add: valid_request_def)
  have d: "ps dvd ?al" using pow2_le_dvd v(2,3) inv by (auto simp: buddy_inv_def)
  let ?f = "\<lambda>r. alloc_aligned ps r ?k (?al div ps)"
  have eq: "allocate_pages ps b n al = do { (rs, found) \<leftarrow> alloc_in ?f (regions b);
      Some (b\<lparr>regions := rs\<rparr>, case found of Some addr \<Rightarrow> Inr addr | None \<Rightarrow> Inl NoMemory) }"
    using v by (simp add: allocate_pages_def eff_align_def Let_def)
  have "\<forall>r \<in> set (regions b). (\<exists>a r'. ?f r = Some (r', Some a) \<and> took ps r a ?k r' \<and> run_free ps r ?k ?al a)
      \<or> ?f r = Some (r, None) \<and> (\<forall>a. \<not> run_free ps r ?k ?al a)"
    using inv alloc_aligned_inv [OF _ v(4,2) d] by (simp add: buddy_inv_def)
  from alloc_in_spec [OF this] show thesis
  proof
    assume "\<exists>pre r post a r'. regions b = pre @ r # post \<and> alloc_in ?f (regions b) = Some (pre @ r' # post, Some a)
      \<and> took ps r a ?k r' \<and> run_free ps r ?k ?al a"
    then obtain pre r post a r' where s: "regions b = pre @ r # post"
      "alloc_in ?f (regions b) = Some (pre @ r' # post, Some a)" "took ps r a ?k r'" "run_free ps r ?k ?al a" by blast
    from s(2) have "allocate_pages ps b n al = Some (b\<lparr>regions := pre @ r' # post\<rparr>, Inr a)" by (simp add: eq)
    from got [OF True this s(1) refl s(3,4)] show thesis .
  next
    assume "alloc_in ?f (regions b) = Some (regions b, None) \<and> (\<forall>r \<in> set (regions b). \<forall>a. \<not> run_free ps r ?k ?al a)"
    then show thesis using full [OF True] by (simp add: eq)
  qed
qed

lemma allocate_pages_at_cases:
  assumes inv: "buddy_inv ps b"
  obtains (got) b' pre r post r' where "allocate_pages_at ps b base n al = Some (b', Inr base)"
      "n \<noteq> 0" "eff_align ps al dvd base" "count_order n \<le> MAX_ORDER"
      "regions b = pre @ r # post" "b' = b\<lparr>regions := pre @ r' # post\<rparr>" "took ps r base (count_order n) r'"
      "run_free ps r (count_order n) 1 base"
    | (full) "allocate_pages_at ps b base n al = Some (b, Inl NoMemory)"
      "n \<noteq> 0" "eff_align ps al dvd base" "count_order n \<le> MAX_ORDER"
      "\<forall>r \<in> set (regions b). \<not> run_free ps r (count_order n) 1 base"
    | (bad) "allocate_pages_at ps b base n al = Some (b, Inl InvalidInput)"
      "n = 0 \<or> \<not> eff_align ps al dvd base \<or> MAX_ORDER < count_order n"
proof (cases "n \<noteq> 0 \<and> eff_align ps al dvd base \<and> count_order n \<le> MAX_ORDER")
  case False
  then show thesis using bad by (auto simp: eff_align_def allocate_pages_at_def Let_def split: if_splits)
next
  case True
  let ?k = "count_order n" and ?f = "\<lambda>r. alloc_at ps r base (count_order n)"
  have eq: "allocate_pages_at ps b base n al = do { (rs, found) \<leftarrow> alloc_in ?f (regions b);
      Some (b\<lparr>regions := rs\<rparr>, case found of Some addr \<Rightarrow> Inr addr | None \<Rightarrow> Inl NoMemory) }"
    using True by (simp add: allocate_pages_at_def eff_align_def Let_def)
  have "(\<exists>a r'. ?f r = Some (r', Some a) \<and> took ps r a ?k r' \<and> a = base \<and> run_free ps r ?k 1 a)
      \<or> ?f r = Some (r, None) \<and> \<not> run_free ps r ?k 1 base" if "r \<in> set (regions b)" for r
    using inv that alloc_at_inv [of ps r ?k base] True by (auto simp: buddy_inv_def)
  then have "\<forall>r \<in> set (regions b). (\<exists>a r'. ?f r = Some (r', Some a) \<and> took ps r a ?k r' \<and> a = base \<and> run_free ps r ?k 1 a)
      \<or> ?f r = Some (r, None) \<and> \<not> run_free ps r ?k 1 base" by blast
  from alloc_in_spec [OF this] show thesis
  proof
    assume "\<exists>pre r post a r'. regions b = pre @ r # post \<and> alloc_in ?f (regions b) = Some (pre @ r' # post, Some a)
      \<and> took ps r a ?k r' \<and> a = base \<and> run_free ps r ?k 1 a"
    then obtain pre r post r' where s: "regions b = pre @ r # post"
      "alloc_in ?f (regions b) = Some (pre @ r' # post, Some base)" "took ps r base ?k r'" "run_free ps r ?k 1 base" by blast
    from s(2) have "allocate_pages_at ps b base n al = Some (b\<lparr>regions := pre @ r' # post\<rparr>, Inr base)" by (simp add: eq)
    from got [OF this _ _ _ s(1) refl s(3,4)] True show thesis by blast
  next
    assume "alloc_in ?f (regions b) = Some (regions b, None) \<and> (\<forall>r \<in> set (regions b). \<not> run_free ps r ?k 1 base)"
    then show thesis using full True by (simp add: eq)
  qed
qed

text \<open>An extent that fits a region, and the bytes an allocation of \<open>n\<close> pages occupies.\<close>

definition owned :: "nat \<Rightarrow> buddy \<Rightarrow> nat \<Rightarrow> nat \<Rightarrow> bool" where
  "owned ps b a n \<longleftrightarrow> n \<noteq> 0 \<and> (\<exists>r \<in> set (regions b). fits ps r a (count_order n))"

definition extent :: "nat \<Rightarrow> nat \<Rightarrow> nat \<Rightarrow> nat set" where
  "extent ps a n = cover ps (a, count_order n)"

lemma update_region_spec:
  "\<lbrakk>\<forall>s \<in> set pre. \<not> here s; here r; f r = Some r'\<rbrakk> \<Longrightarrow> update_region here f (pre @ r # post) = Some (pre @ r' # post)"
  by (induction pre) simp_all

lemma deallocate_pages_inv:
  assumes inv: "buddy_inv ps b" and own: "owned ps b a n" and live: "extent ps a n \<inter> free_all ps b = {}"
  obtains b' pre r post r' where "deallocate_pages ps b a n = Some b'" "buddy_inv ps b'"
    "free_all ps b' = free_all ps b \<union> extent ps a n"
    "regions b = pre @ r # post" "regions b' = pre @ r' # post" "same_area r r'"
proof -
  let ?k = "count_order n"
  obtain r where r: "r \<in> set (regions b)" "fits ps r a ?k" and n: "n \<noteq> 0" using own by (auto simp: owned_def)
  obtain pre post where rs: "regions b = pre @ r # post" using split_list [OF r(1)] by blast
  have rinv: "region_inv ps r" using inv r(1) by (simp add: buddy_inv_def)
  have ok: "region_ok ps r" using rinv by (simp add: region_inv_def)
  have "free_bytes ps r \<subseteq> free_all ps b" using r(1) by (auto simp: free_all_def)
  then have "held ps r a ?k" using r(2) live by (auto simp: held_def extent_def)
  from free_in_region_inv [OF rinv this] obtain r' where r': "free_in_region ps r a ?k = Some r'" "region_inv ps r'"
    "same_area r r'" "free_bytes ps r' = free_bytes ps r \<union> cover ps (a, ?k)" .
  have here: "reg_contains ps r a" using fits_page(1) [OF _ r(2)] ok by (simp add: region_ok_def)
  have "\<not> reg_contains ps s a" if "s \<in> set pre" for s
  proof -
    have "region_ok ps s" using inv rs that by (auto simp: buddy_inv_def region_inv_def)
    then have "a \<in> area ps s" if "reg_contains ps s a"
      using that by (auto simp: area_def reg_contains_def region_ok_def area_ok_def)
    moreover have "a \<in> area ps r" using here ok by (auto simp: area_def reg_contains_def region_ok_def area_ok_def)
    moreover have "area ps s \<inter> area ps r = {}" using inv rs that by (auto simp: buddy_inv_def sorted_wrt_append)
    ultimately show ?thesis by blast
  qed
  then have "deallocate_pages ps b a n = Some (b\<lparr>regions := pre @ r' # post\<rparr>)"
    using update_region_spec [of pre "\<lambda>r. reg_contains ps r a" r "\<lambda>r. free_in_region ps r a ?k" r' post] here r'(1) n rs
    by (simp add: deallocate_pages_def)
  moreover have "free_all ps (b\<lparr>regions := pre @ r' # post\<rparr>) = free_all ps b \<union> extent ps a n"
    using free_all_split [OF rs, of ps] free_all_split [of "b\<lparr>regions := pre @ r' # post\<rparr>" pre r' post ps] r'(4)
    by (auto simp: extent_def)
  ultimately show thesis using that buddy_replace [OF inv rs r'(2,3)] rs r'(3) by simp
qed

end
