(* ===== verification/PageAllocator.thy ===== *)
theory PageAllocator
  imports BuddySpec
begin

unbundle bit_operations_syntax

declare same_area_heap [simp del] same_area_fits [simp del]

text \<open>
  The contract of a page allocator (the trait \<open>PageAllocator\<close> of \<open>src/mm/alloc-engine/src/lib.rs\<close>) as a
  locale, what it guarantees to a client that allocates and frees in any order, its interpretation on
  the buddy allocator, and the properties of that allocator.
\<close>

section \<open>The contract\<close>

text \<open>
  A client holds the set of its live allocations, given by address and page count. It sends requests,
  keeps what they return, and frees only what it holds.
\<close>

inductive page_use ::
  "('s \<Rightarrow> 'q \<Rightarrow> ('s \<times> (alloc_error + nat)) option) \<Rightarrow> ('q \<Rightarrow> nat) \<Rightarrow> ('s \<Rightarrow> nat \<Rightarrow> nat \<Rightarrow> 's option)
     \<Rightarrow> 's \<times> (nat \<times> nat) set \<Rightarrow> 's \<times> (nat \<times> nat) set \<Rightarrow> bool"
  for alloc npages dealloc where
  take: "alloc s q = Some (s', Inr a) \<Longrightarrow> page_use alloc npages dealloc (s, L) (s', insert (a, npages q) L)"
| fail: "alloc s q = Some (s', Inl e) \<Longrightarrow> page_use alloc npages dealloc (s, L) (s', L)"
| give: "\<lbrakk>(a, n) \<in> L; dealloc s a n = Some s'\<rbrakk> \<Longrightarrow> page_use alloc npages dealloc (s, L) (s', L - {(a, n)})"

inductive_cases page_useE: "page_use alloc npages dealloc x y"

locale page_allocator =
  fixes good :: "'s \<Rightarrow> bool" and free :: "'s \<Rightarrow> nat set" and ext :: "nat \<Rightarrow> nat \<Rightarrow> nat set"
    and own :: "'s \<Rightarrow> nat \<Rightarrow> nat \<Rightarrow> bool"
    and alloc :: "'s \<Rightarrow> 'q \<Rightarrow> ('s \<times> (alloc_error + nat)) option" and npages :: "'q \<Rightarrow> nat"
    and dealloc :: "'s \<Rightarrow> nat \<Rightarrow> nat \<Rightarrow> 's option"
  assumes alloc_returns: "good s \<Longrightarrow> alloc s q \<noteq> None"
    and alloc_got: "\<lbrakk>good s; alloc s q = Some (s', Inr a)\<rbrakk> \<Longrightarrow>
      good s' \<and> own s' a (npages q) \<and> ext a (npages q) \<subseteq> free s \<and> free s' = free s - ext a (npages q)"
    and alloc_err: "\<lbrakk>good s; alloc s q = Some (s', Inl e)\<rbrakk> \<Longrightarrow> good s' \<and> free s' = free s"
    and alloc_own: "\<lbrakk>good s; alloc s q = Some (s', res); own s b m\<rbrakk> \<Longrightarrow> own s' b m"
    and dealloc_ok: "\<lbrakk>good s; own s a n; ext a n \<inter> free s = {}\<rbrakk> \<Longrightarrow>
      \<exists>s'. dealloc s a n = Some s' \<and> good s' \<and> free s' = free s \<union> ext a n \<and> (\<forall>b m. own s b m \<longrightarrow> own s' b m)"
begin

abbreviation bytes :: "nat \<times> nat \<Rightarrow> nat set" where
  "bytes p \<equiv> ext (fst p) (snd p)"

definition accounted :: "nat set \<Rightarrow> 's \<Rightarrow> (nat \<times> nat) set \<Rightarrow> bool" where
  "accounted F s L \<longleftrightarrow>
     good s \<and> (\<forall>p \<in> L. own s (fst p) (snd p)) \<and> (\<forall>p \<in> L. bytes p \<inter> free s = {})
     \<and> (\<forall>p \<in> L. \<forall>q \<in> L. p \<noteq> q \<longrightarrow> bytes p \<inter> bytes q = {}) \<and> free s \<union> \<Union> (bytes ` L) = F"

lemma accountedI:
  assumes "good s" "\<And>p. p \<in> L \<Longrightarrow> own s (fst p) (snd p)" "\<And>p. p \<in> L \<Longrightarrow> bytes p \<inter> free s = {}"
    "\<And>p q. \<lbrakk>p \<in> L; q \<in> L; p \<noteq> q\<rbrakk> \<Longrightarrow> bytes p \<inter> bytes q = {}" "free s \<union> \<Union> (bytes ` L) = F"
  shows "accounted F s L"
  using assms by (simp add: accounted_def)

lemma accountedD:
  assumes "accounted F s L"
  shows "good s" "\<And>p. p \<in> L \<Longrightarrow> own s (fst p) (snd p)" "\<And>p. p \<in> L \<Longrightarrow> bytes p \<inter> free s = {}"
    "\<And>p q. \<lbrakk>p \<in> L; q \<in> L; p \<noteq> q\<rbrakk> \<Longrightarrow> bytes p \<inter> bytes q = {}" "free s \<union> \<Union> (bytes ` L) = F"
  using assms by (simp_all add: accounted_def)

lemma accounted_take:
  assumes acc: "accounted F s L" and al: "alloc s q = Some (s', Inr a)"
  shows "accounted F s' (insert (a, npages q) L)"
proof -
  let ?x = "(a, npages q)"
  note old = accountedD [OF acc]
  have got: "good s'" "own s' a (npages q)" "bytes ?x \<subseteq> free s" "free s' = free s - bytes ?x"
    using alloc_got [OF old(1) al] by simp_all
  have apart: "bytes ?x \<inter> bytes p = {}" if "p \<in> L" for p using old(3) [OF that] got(3) by blast
  show ?thesis
  proof (rule accountedI)
    fix p assume "p \<in> insert ?x L"
    then show "own s' (fst p) (snd p)" using got(2) old(2) alloc_own [OF old(1) al] by auto
  next
    fix p assume "p \<in> insert ?x L"
    then show "bytes p \<inter> free s' = {}" using old(3) got(4) by blast
  next
    fix p r assume "p \<in> insert ?x L" "r \<in> insert ?x L" "p \<noteq> r"
    then show "bytes p \<inter> bytes r = {}" using old(4) apart by blast
  next
    show "free s' \<union> \<Union> (bytes ` insert ?x L) = F" using old(5) got(3,4) by blast
  qed (rule got(1))
qed

lemma accounted_give:
  assumes acc: "accounted F s L" and x: "(a, n) \<in> L"
  obtains s' where "dealloc s a n = Some s'" "accounted F s' (L - {(a, n)})"
proof -
  note old = accountedD [OF acc]
  have pre: "own s a n" "ext a n \<inter> free s = {}" using old(2,3) [OF x] by simp_all
  obtain s' where s': "dealloc s a n = Some s'" "good s'" "free s' = free s \<union> ext a n" "\<forall>b m. own s b m \<longrightarrow> own s' b m"
    using dealloc_ok [OF old(1) pre] by blast
  have apart: "bytes p \<inter> ext a n = {}" if "p \<in> L - {(a, n)}" for p
    using old(4) [of p "(a, n)"] x that by auto
  have "accounted F s' (L - {(a, n)})"
  proof (rule accountedI)
    fix p assume "p \<in> L - {(a, n)}"
    then show "own s' (fst p) (snd p)" using old(2) s'(4) by blast
  next
    fix p assume p: "p \<in> L - {(a, n)}"
    show "bytes p \<inter> free s' = {}" using apart [OF p] old(3) [of p] p s'(3) by blast
  next
    fix p q assume "p \<in> L - {(a, n)}" "q \<in> L - {(a, n)}" "p \<noteq> q"
    then show "bytes p \<inter> bytes q = {}" using old(4) by blast
  next
    have "\<Union> (bytes ` L) = ext a n \<union> \<Union> (bytes ` (L - {(a, n)}))" using x by force
    then show "free s' \<union> \<Union> (bytes ` (L - {(a, n)})) = F" using old(5) s'(3) by blast
  qed (rule s'(2))
  then show thesis using that s'(1) by blast
qed

lemma accounted_fail:
  assumes acc: "accounted F s L" and al: "alloc s q = Some (s', Inl e)"
  shows "accounted F s' L"
proof -
  note old = accountedD [OF acc]
  have "good s'" "free s' = free s" using alloc_err [OF old(1) al] by simp_all
  then show ?thesis using old alloc_own [OF old(1) al] by (intro accountedI) auto
qed

lemma use_accounted:
  assumes "(page_use alloc npages dealloc)\<^sup>*\<^sup>* x y" "accounted F (fst x) (snd x)"
  shows "accounted F (fst y) (snd y)"
  using assms
proof (induction rule: rtranclp_induct)
  case (step y z)
  from step.hyps(2) step.IH [OF step.prems] show ?case
  proof (induction rule: page_use.induct)
    case (give a n L s s')
    then show ?case using accounted_give [of F s L a n] by (metis fst_conv snd_conv option.inject)
  qed (auto intro: accounted_take accounted_fail)
qed

lemma no_overlap:
  assumes "(page_use alloc npages dealloc)\<^sup>*\<^sup>* (s0, {}) (s, L)" "good s0"
  shows "pairwise (\<lambda>p q. bytes p \<inter> bytes q = {}) L"
    and "\<Union> (bytes ` L) \<inter> free s = {}" and "free s \<union> \<Union> (bytes ` L) = free s0"
    and "p \<in> L \<Longrightarrow> dealloc s (fst p) (snd p) \<noteq> None" and "alloc s q \<noteq> None"
proof -
  have acc: "accounted (free s0) s L"
    using use_accounted [OF assms(1)] assms(2) by (simp add: accounted_def)
  note now = accountedD [OF acc]
  show "pairwise (\<lambda>p q. bytes p \<inter> bytes q = {}) L" using now(4) by (simp add: pairwise_def)
  show "\<Union> (bytes ` L) \<inter> free s = {}" using now(3) by blast
  show "free s \<union> \<Union> (bytes ` L) = free s0" by (rule now(5))
  show "dealloc s (fst p) (snd p) \<noteq> None" if "p \<in> L"
    using accounted_give [OF acc, of "fst p" "snd p"] that by auto
  show "alloc s q \<noteq> None" by (rule alloc_returns [OF now(1)])
qed

end

section \<open>The buddy allocator keeps the contract\<close>

datatype page_request = AnyPages nat nat | PagesAt nat nat nat

fun request_pages :: "page_request \<Rightarrow> nat" where
  "request_pages (AnyPages n al) = n"
| "request_pages (PagesAt base n al) = n"

fun serve :: "nat \<Rightarrow> buddy \<Rightarrow> page_request \<Rightarrow> (buddy \<times> (alloc_error + nat)) option" where
  "serve ps b (AnyPages n al) = allocate_pages ps b n al"
| "serve ps b (PagesAt base n al) = allocate_pages_at ps b base n al"

text \<open>The areas of the regions never change, so what fits keeps fitting.\<close>

lemma owned_same:
  assumes "regions b = pre @ r # post" "regions b' = pre @ r' # post" "same_area r r'" "owned ps b a n"
  shows "owned ps b' a n"
  using assms same_area_fits [OF assms(3)] by (auto simp: owned_def)

lemma serve_cases:
  assumes inv: "buddy_inv ps b"
  obtains (got) a b' pre r post r' where "serve ps b q = Some (b', Inr a)" "request_pages q \<noteq> 0"
      "regions b = pre @ r # post" "b' = b\<lparr>regions := pre @ r' # post\<rparr>"
      "took ps r a (count_order (request_pages q)) r'" "cover ps (a, count_order (request_pages q)) \<subseteq> free_bytes ps r"
    | (err) e where "serve ps b q = Some (b, Inl e)"
proof (cases q)
  case (AnyPages n al)
  from inv show thesis
  proof (cases rule: allocate_pages_cases [where n = n and al = al])
    case (got a b' pre r post r')
    then show thesis
      using that(1) [OF _ _ got(3,4)] AnyPages by (simp add: run_free_def valid_request_def)
  qed (use that(2) AnyPages in simp_all)
next
  case (PagesAt base n al)
  from inv show thesis
  proof (cases rule: allocate_pages_at_cases [where base = base and n = n and al = al])
    case (got b' pre r post r')
    then show thesis using that(1) [OF _ _ got(5,6)] PagesAt by (simp add: run_free_def)
  qed (use that(2) PagesAt in simp_all)
qed

lemma took_facts:
  assumes inv: "buddy_inv ps b" and rs: "regions b = pre @ r # post" and b': "b' = b\<lparr>regions := pre @ r' # post\<rparr>"
    and t: "took ps r a (count_order n) r'" and n: "n \<noteq> 0"
    and c: "cover ps (a, count_order n) \<subseteq> free_bytes ps r"
  shows "buddy_inv ps b'" "owned ps b' a n" "extent ps a n \<subseteq> free_all ps b" "free_all ps b' = free_all ps b - extent ps a n"
    and "owned ps b x m \<Longrightarrow> owned ps b' x m"
proof -
  have same: "same_area r r'" "region_inv ps r'" "fits ps r a (count_order n)" using t by (simp_all add: took_def)
  show "buddy_inv ps b'" using buddy_replace [OF inv rs same(2,1)] b' by simp
  show "free_all ps b' = free_all ps b - extent ps a n" using free_all_took [OF inv rs t] b' by (simp add: extent_def)
  show "extent ps a n \<subseteq> free_all ps b" using c rs by (auto simp: extent_def free_all_def)
  show "owned ps b' a n" using same n b' same_area_fits [OF same(1)] by (auto simp: owned_def)
  show "owned ps b' x m" if "owned ps b x m" using owned_same [OF rs _ same(1) that] b' by simp
qed

interpretation buddy_pages: page_allocator "buddy_inv ps" "free_all ps" "extent ps" "owned ps" "serve ps" request_pages
  "deallocate_pages ps" for ps
proof (unfold_locales)
  show "serve ps b q \<noteq> None" if "buddy_inv ps b" for b q
    using that by (cases rule: serve_cases [where q = q]) simp_all
  show "buddy_inv ps b' \<and> owned ps b' a (request_pages q) \<and> extent ps a (request_pages q) \<subseteq> free_all ps b
      \<and> free_all ps b' = free_all ps b - extent ps a (request_pages q)"
    if inv: "buddy_inv ps b" and res: "serve ps b q = Some (b', Inr a)" for b q b' a
    using inv
  proof (cases rule: serve_cases [where q = q])
    case (got x c pre r post r')
    then have "x = a" "c = b'" using res by simp_all
    with took_facts [OF inv got(3,4)] got show ?thesis by simp
  qed (use res in simp)
  show "buddy_inv ps b' \<and> free_all ps b' = free_all ps b"
    if inv: "buddy_inv ps b" and res: "serve ps b q = Some (b', Inl e)" for b q b' e
    using inv by (cases rule: serve_cases [where q = q]) (use inv res in simp_all)
  show "owned ps b' x m"
    if inv: "buddy_inv ps b" and res: "serve ps b q = Some (b', out)" and own: "owned ps b x m" for b q b' out x m
    using inv
  proof (cases rule: serve_cases [where q = q])
    case (got y c pre r post r')
    then have "c = b'" using res by simp
    with took_facts(5) [OF inv got(3,4)] got own show ?thesis by simp
  qed (use res own in simp)
  show "\<exists>b'. deallocate_pages ps b a n = Some b' \<and> buddy_inv ps b' \<and> free_all ps b' = free_all ps b \<union> extent ps a n
      \<and> (\<forall>x m. owned ps b x m \<longrightarrow> owned ps b' x m)"
    if inv: "buddy_inv ps b" and own: "owned ps b a n" and live: "extent ps a n \<inter> free_all ps b = {}" for b a n
  proof -
    obtain b' pre r post r' where d: "deallocate_pages ps b a n = Some b'" "buddy_inv ps b'"
      "free_all ps b' = free_all ps b \<union> extent ps a n"
      "regions b = pre @ r # post" "regions b' = pre @ r' # post" "same_area r r'"
      using deallocate_pages_inv [OF inv own live] .
    then show ?thesis using owned_same [OF d(4-6)] by blast
  qed
qed

section \<open>Initialisation\<close>

lemma buddy_inv_new: "is_pow2 ps \<Longrightarrow> buddy_inv ps buddy_new"
  by (simp add: buddy_inv_def buddy_new_def)

lemma add_region_inv:
  assumes inv: "buddy_inv ps b" and node: "8 \<le> node_size" and res: "add_region node_size ps mem b base sz = Some (b', Inr ())"
  shows "buddy_inv ps b'"
    and "free_all ps b' = free_all ps b \<union> {base + metadata_pages ps (sz div ps) * ps..<base + sz div ps * ps}"
    and "\<exists>r. regions b' = regions b @ [r] \<and> region_start r = base \<and> heap_end ps r = base + sz div ps * ps"
    and "ps \<le> sz" "0 < base" "ps dvd base" "base + sz div ps * ps < 2 ^ 64"
proof -
  let ?n = "sz div ps" and ?hs = "sz - sz mod ps"
  have ch: "length (regions b) < MAX_REGIONS" "node_size \<le> ps" "base \<noteq> 0" "ps \<le> sz" "ps dvd base" "base + ?hs < 2 ^ 64"
    and apart: "\<forall>r \<in> set (regions b). \<not> (base < heap_end ps r \<and> region_start r < base + ?hs)"
    using res by (auto simp: add_region_def Let_def split: if_splits)
  have pow: "is_pow2 ps" using inv by (simp add: buddy_inv_def)
  have hs: "?hs = ?n * ps" "?hs div ps = ?n"
    using pow2_pos [OF pow] by (simp_all add: minus_mod_eq_div_mult)
  let ?e = "empty_region ps base ?n mem"
  have e: "region_inv ps ?e" "blocks ?e = {}" "heap_end ps ?e = base + ?n * ps"
    using empty_region_inv [of ps base ?n mem] pow ch node hs by auto
  have "greedy ps ?e" "free_bytes ps ?e = {}" using e(2) by (simp_all add: greedy_def free_bytes_def)
  then obtain r where r: "carve ps ?e (heap_start ?e) (reg_total ?e) 0 = Some r" "region_inv ps r" "same_area ?e r"
    "free_bytes ps r = {heap_start ?e..<heap_end ps ?e}"
    using carve_inv [OF e(1), of 0] by auto
  have "add_region node_size ps mem b base sz = Some (b\<lparr>regions := regions b @ [r]\<rparr>, Inr ())"
    using ch apart pow r(1) hs by (auto simp: add_region_def Let_def not_le)
  then have b': "b' = b\<lparr>regions := regions b @ [r]\<rparr>" using res by simp
  have st: "region_start ?e = base" "heap_start ?e = base + metadata_pages ps ?n * ps"
    by (simp_all add: empty_region_def Let_def)
  have ar: "area ps r = {base..<base + ?n * ps}"
    using same_area_area [OF r(3), of ps] e(3) st(1) by (simp add: area_def)
  have "area ps s \<inter> area ps r = {}" if "s \<in> set (regions b)" for s
    using apart that hs(1) unfolding ar by (fastforce simp: area_def)
  then show "buddy_inv ps b'"
    using inv r(2) ch(1) by (simp add: b' buddy_inv_def sorted_wrt_append)
  show "free_all ps b' = free_all ps b \<union> {base + metadata_pages ps ?n * ps..<base + ?n * ps}"
    using r(4) st(2) e(3) by (auto simp: b' free_all_def)
  show "\<exists>r. regions b' = regions b @ [r] \<and> region_start r = base \<and> heap_end ps r = base + ?n * ps"
    using r(3) st(1) e(3) b' by (intro exI [of _ r]) (simp add: same_area_def, simp add: heap_end_def)
  show "ps \<le> sz" "0 < base" "ps dvd base" "base + sz div ps * ps < 2 ^ 64" using ch hs(1) by auto
qed

lemma add_region_total:
  assumes inv: "buddy_inv ps b" and node: "8 \<le> node_size"
  shows "add_region node_size ps mem b base sz \<noteq> None"
    and "add_region node_size ps mem b base sz = Some (b', Inl e) \<Longrightarrow> b' = b"
proof -
  show "b' = b" if "add_region node_size ps mem b base sz = Some (b', Inl e)"
    using that by (auto simp: add_region_def Let_def split: if_splits bind_splits)
  let ?n = "(sz - sz mod ps) div ps" and ?e = "empty_region ps base ((sz - sz mod ps) div ps) mem"
  have pow: "is_pow2 ps" using inv by (simp add: buddy_inv_def)
  have "carve ps ?e (heap_start ?e) (reg_total ?e) 0 \<noteq> None"
    if "node_size \<le> ps" "base \<noteq> 0" "ps dvd base" "base + (sz - sz mod ps) < 2 ^ 64"
  proof -
    have "?n * ps = sz - sz mod ps" using pow2_pos [OF pow] by (simp add: minus_mod_eq_div_mult)
    then have e: "region_inv ps ?e" "blocks ?e = {}" using empty_region_inv [of ps base ?n mem] pow that node by auto
    have "greedy ps ?e" "free_bytes ps ?e = {}" using e(2) by (simp_all add: greedy_def free_bytes_def)
    then show ?thesis using carve_inv [OF e(1), of 0] by auto
  qed
  then show "add_region node_size ps mem b base sz \<noteq> None"
    by (auto simp: add_region_def Let_def not_le split: bind_splits)
qed


text \<open>Allocators built by registering regions.\<close>

inductive buddy_setup :: "nat \<Rightarrow> nat \<Rightarrow> buddy \<Rightarrow> bool" for node_size ps where
  new: "is_pow2 ps \<Longrightarrow> buddy_setup node_size ps buddy_new"
| add: "\<lbrakk>buddy_setup node_size ps b; add_region node_size ps mem b base sz = Some (b', res)\<rbrakk> \<Longrightarrow> buddy_setup node_size ps b'"

lemma buddy_setup_inv: "\<lbrakk>buddy_setup node_size ps b; 8 \<le> node_size\<rbrakk> \<Longrightarrow> buddy_inv ps b"
proof (induction rule: buddy_setup.induct)
  case new
  then show ?case using buddy_inv_new by blast
next
  case (add b mem base sz b' res)
  show ?case
  proof (cases res)
    case (Inl e)
    then show ?thesis using add add_region_total(2) by blast
  next
    case (Inr u)
    then show ?thesis using add add_region_inv(1) by (metis (full_types) old.unit.exhaust)
  qed
qed

section \<open>Chunks and counts are determined by the free memory\<close>

lemma blocks_from_free:
  assumes inv: "region_inv ps r" "region_inv ps r'" and eq: "free_bytes ps r = free_bytes ps r'"
  shows "blocks r \<subseteq> blocks r'"
proof
  fix x assume x: "x \<in> blocks r"
  obtain a k where ak: "x = (a, k)" by (cases x)
  have ok: "region_ok ps r" "region_ok ps r'" using inv by (simp_all add: region_inv_def)
  have p: "0 < ps" by (rule region_ok_pos [OF ok(1)])
  have fit: "order_size ps k dvd a" "k \<le> MAX_ORDER" using block_fits [OF ok(1)] x ak by (auto simp: fits_def)
  have "cover ps (a, k) \<subseteq> free_bytes ps r'" using block_in_free [OF x, of ps] ak eq by simp
  then obtain b s where b: "(b, s) \<in> blocks r'" "k \<le> s" "cover ps (a, k) \<subseteq> cover ps (b, s)"
    using covered_by_block [OF inv(2) fit(1)] fit(2) by blast
  have fit': "order_size ps s dvd b" "s \<le> MAX_ORDER" using block_fits [OF ok(2) b(1)] by (auto simp: fits_def)
  have "cover ps (b, s) \<subseteq> free_bytes ps r" using block_in_free [OF b(1), of ps] eq by simp
  then obtain c t where c: "(c, t) \<in> blocks r" "s \<le> t" "cover ps (b, s) \<subseteq> cover ps (c, t)"
    using covered_by_block [OF inv(1) fit'(1)] fit'(2) by blast
  have "a \<in> cover ps (a, k)" "a \<in> cover ps (c, t)" using cover_start [OF p] b(3) c(3) by blast+
  then have "(a, k) = (c, t)" using blocks_disjoint [OF ok(1)] x ak c(1) by blast
  then have "k = s" "cover ps (a, k) \<subseteq> cover ps (b, k)" using b(2,3) c(2) by auto
  then show "x \<in> blocks r'" using cover_inj [OF p] b(1) ak by blast
qed

lemma blocks_determined:
  "\<lbrakk>region_inv ps r; region_inv ps r'; free_bytes ps r = free_bytes ps r'\<rbrakk> \<Longrightarrow> blocks r = blocks r'"
  using blocks_from_free [of ps r r'] blocks_from_free [of ps r' r] by auto

lemma free_count:
  assumes "region_ok ps r"
  shows "card (free_bytes ps r) = reg_free r * ps"
proof -
  have "card (free_bytes ps r) = (\<Sum>b \<in> blocks r. card (cover ps b))"
    unfolding free_bytes_def
    by (rule card_UN_disjoint) (use blocks_disjoint [OF assms] in \<open>auto simp: cover_def\<close>)
  also have "\<dots> = (\<Sum>b \<in> blocks r. 2 ^ snd b * ps)"
    by (simp add: cover_def order_size_def order_pages_def)
  also have "\<dots> = reg_free r * ps"
    using assms by (simp add: region_ok_def count_ok_def sum_distrib_right)
  finally show ?thesis .
qed

lemma free_bytes_area:
  assumes inv: "buddy_inv ps b" and r: "r \<in> set (regions b)"
  shows "free_bytes ps r = free_all ps b \<inter> area ps r"
proof -
  obtain pre post where rs: "regions b = pre @ r # post" using split_list [OF r] by blast
  have "region_ok ps r" using inv r by (simp add: buddy_inv_def region_inv_def)
  then show ?thesis
    using regions_apart [OF inv rs] free_in_area [of ps r] unfolding free_all_split [OF rs] by blast
qed

lemma free_all_count:
  assumes "buddy_inv ps b"
  shows "card (free_all ps b) = free_pages b * ps" "free_pages b \<le> total_pages b"
proof -
  have *: "card (\<Union>r \<in> set rs. free_bytes ps r) = sum_list (map reg_free rs) * ps
      \<and> finite (\<Union>r \<in> set rs. free_bytes ps r) \<and> sum_list (map reg_free rs) \<le> sum_list (map reg_total rs)"
    if "\<forall>r \<in> set rs. region_ok ps r" "sorted_wrt (\<lambda>r s. area ps r \<inter> area ps s = {}) rs" for rs
    using that
  proof (induction rs)
    case (Cons r rs)
    have ok: "region_ok ps r" using Cons.prems by simp
    have fin: "finite (free_bytes ps r)" using free_in_heap [OF ok] finite_subset by blast
    have "free_bytes ps r \<inter> (\<Union>s \<in> set rs. free_bytes ps s) = {}"
      using Cons.prems free_in_area by (fastforce simp: disjoint_iff)
    moreover have "reg_free r * ps \<le> reg_total r * ps"
      using card_mono [OF _ free_in_heap [OF ok]] free_count [OF ok] by (simp add: heap_end_def)
    then have "reg_free r \<le> reg_total r" using region_ok_pos [OF ok] by simp
    ultimately show ?case using Cons fin free_count [OF ok] by (simp add: card_Un_disjoint algebra_simps)
  qed simp
  have "\<forall>r \<in> set (regions b). region_ok ps r" using assms by (simp add: buddy_inv_def region_inv_def)
  then show "card (free_all ps b) = free_pages b * ps" "free_pages b \<le> total_pages b"
    using * [of "regions b"] assms by (simp_all add: buddy_inv_def free_all_def free_pages_def total_pages_def)
qed

subsection \<open>Regions keep their place\<close>

lemma push_free_area: "push_free ps r a k = Some r' \<Longrightarrow> same_area r r'"
  unfolding push_free_def same_area_def
  by (cases "bm_set (free_heads r) (page_index ps r a) True") (auto split: if_split_asm)

lemma remove_free_area: "remove_free ps r a k = Some r' \<Longrightarrow> same_area r r'"
  unfolding remove_free_def same_area_def
  by (cases "bm_set (free_heads r) (page_index ps r a) False") (auto split: if_split_asm)

lemma coalesce_area: "coalesce ps r a k = Some (r', a', k') \<Longrightarrow> same_area r r'"
proof (induction ps r a k rule: coalesce.induct)
  case (1 ps r a k)
  let ?o = "a XOR order_size ps k"
  from "1.prems" consider "r' = r"
    | r1 where "k < MAX_ORDER" "is_free ps r ?o k = Some True" "remove_free ps r ?o k = Some r1"
      "coalesce ps r1 (min a ?o) (k + 1) = Some (r', a', k')"
    by (subst (asm) coalesce.simps) (auto simp: Let_def split: if_splits bind_splits)
  then show ?case
  proof cases
    case (2 r1)
    then have "same_area r1 r'" using "1.IH" [OF _ refl _ _ , of True r1] by simp
    then show ?thesis using remove_free_area [OF 2(3)] same_area_trans by blast
  qed simp
qed

lemma update_region_area:
  assumes "\<And>r r'. f r = Some r' \<Longrightarrow> same_area r r'"
  shows "update_region here f rs = Some rs' \<Longrightarrow> list_all2 same_area rs rs'"
proof (induction rs arbitrary: rs')
  case (Cons r rs)
  then show ?case
    by (auto simp: list.rel_refl assms split: if_splits bind_splits)
qed simp

lemma deallocate_area: "deallocate_pages ps b a n = Some b' \<Longrightarrow> list_all2 same_area (regions b) (regions b')"
  using update_region_area [of "\<lambda>r. free_in_region ps r a (count_order n)" "\<lambda>r. reg_contains ps r a" "regions b"]
  by (fastforce simp: deallocate_pages_def free_in_region_def list.rel_refl
      split: if_splits bind_splits dest: coalesce_area push_free_area intro: same_area_trans)

lemma serve_area:
  assumes inv: "buddy_inv ps b" and res: "serve ps b q = Some (b', out)"
  shows "list_all2 same_area (regions b) (regions b')"
  using inv
proof (cases rule: serve_cases [where q = q])
  case (got a c pre r post r')
  then show ?thesis using res by (auto simp: took_def list.rel_refl intro!: list_all2_appendI)
qed (use res in \<open>simp add: list.rel_refl\<close>)

lemma use_area:
  assumes "(page_use (serve ps) request_pages (deallocate_pages ps))\<^sup>*\<^sup>* x y" "buddy_pages.accounted ps F (fst x) (snd x)"
  shows "list_all2 same_area (regions (fst x)) (regions (fst y))"
  using assms
proof (induction rule: rtranclp_induct)
  case base
  then show ?case by (simp add: list.rel_refl)
next
  case (step y z)
  have inv: "buddy_inv ps (fst y)"
    using buddy_pages.use_accounted [OF step.hyps(1) step.prems] by (simp add: buddy_pages.accounted_def)
  have "list_all2 same_area (regions (fst y)) (regions (fst z))"
    using step.hyps(2) inv by (cases rule: page_use.cases) (auto dest: serve_area deallocate_area)
  then show ?case using step.IH [OF step.prems] list_all2_trans [of same_area same_area same_area] same_area_trans by blast
qed

section \<open>A concrete allocator\<close>

text \<open>One mebibyte of 4 KiB pages at address \<open>0x100000\<close>, used by the instances below.\<close>

lemma pow2_4096: "is_pow2 4096"
  unfolding is_pow2_iff by (rule exI [of _ 12]) simp

lemma demo_setup:
  obtains b r where "buddy_setup 24 4096 b" "regions b = [r]" "free_all 4096 b = {0x100000..<0x200000}"
proof -
  have inv: "buddy_inv 4096 buddy_new" by (rule buddy_inv_new [OF pow2_4096])
  let ?add = "add_region 24 4096 (\<lambda>_. 0) buddy_new 0x100000 0x100000"
  have "?add \<noteq> None" by (rule add_region_total(1) [OF inv]) simp
  then obtain b where b: "?add = Some (b, Inr ())"
    using pow2_4096 by (auto simp: add_region_def buddy_new_def Let_def is_multiple_of_def split: bind_splits)
  have "8 \<le> (24 :: nat)" by simp
  note facts = add_region_inv(2,3) [OF inv this b]
  have "buddy_setup 24 4096 b" using buddy_setup.add [OF buddy_setup.new [OF pow2_4096] b] .
  moreover obtain r where "regions b = [r]" using facts(2) by (auto simp: buddy_new_def)
  moreover have "free_all 4096 b = {0x100000..<0x200000}"
    using facts(1) by (simp add: buddy_new_def metadata_pages_def) (simp add: free_all_def)
  ultimately show thesis using that by blast
qed

lemma count_order_eq: "\<lbrakk>k \<le> MAX_ORDER; n \<le> 2 ^ k; \<forall>j < k. 2 ^ j < n\<rbrakk> \<Longrightarrow> count_order n = k"
proof -
  assume a: "k \<le> MAX_ORDER" "n \<le> 2 ^ k" "\<forall>j < k. 2 ^ j < n"
  have "[0..<64] = [0..<k] @ [k..<64]" using a(1) upt_add_eq_append [of 0 k "64 - k"] by simp
  moreover have "takeWhile (\<lambda>j. 2 ^ j < n) [k..<64] = []" using a(1,2) by (simp add: upt_conv_Cons)
  ultimately have "takeWhile (\<lambda>j. 2 ^ j < n) [0..<64] = [0..<k]"
    using a(3) takeWhile_append2 [of "[0..<k]" "\<lambda>j. 2 ^ j < n" "[k..<64]"] by simp
  then show ?thesis by (simp add: count_order_def)
qed

lemma count_order_3: "count_order 3 = 2"
proof (rule count_order_eq)
  show "\<forall>j < 2. 2 ^ j < (3::nat)" by (simp add: less_Suc_eq numeral_eq_Suc)
qed simp_all

lemma demo_alloc:
  assumes "buddy_setup 24 4096 b" "regions b = [r]" "free_all 4096 b = {0x100000..<0x200000}"
  obtains b' a where "serve 4096 b (AnyPages 3 0) = Some (b', Inr a)"
proof -
  have inv: "buddy_inv 4096 b" using buddy_setup_inv [OF assms(1)] by simp
  have "run_free 4096 r 2 4096 0x100000"
    using assms(2,3) by (simp add: run_free_def free_all_def cover_def order_size_def order_pages_def)
  from inv show thesis
  proof (cases rule: allocate_pages_cases [where n = 3 and al = 0])
    case (full)
    then show thesis using \<open>run_free 4096 r 2 4096 0x100000\<close> assms(2) by (simp add: eff_align_def count_order_3)
  next
    case bad
    then show thesis using pow2_4096 by (simp add: valid_request_def eff_align_def count_order_3)
  qed (use that in simp)
qed

section \<open>Properties\<close>

text \<open>
  C3. Whatever sequence of allocations, placed allocations and releases a client makes on an allocator
  set up by registering regions, live allocations never overlap each other or free memory, no memory
  is lost, every live allocation can be released without a panic, and no request panics.
\<close>

theorem live_allocations_disjoint:
  assumes "8 \<le> node_size" "buddy_setup node_size ps b0"
    and "(page_use (serve ps) request_pages (deallocate_pages ps))\<^sup>*\<^sup>* (b0, {}) (b, L)"
  shows "pairwise (\<lambda>p q. extent ps (fst p) (snd p) \<inter> extent ps (fst q) (snd q) = {}) L
    \<and> (\<Union>p \<in> L. extent ps (fst p) (snd p)) \<inter> free_all ps b = {}
    \<and> free_all ps b \<union> (\<Union>p \<in> L. extent ps (fst p) (snd p)) = free_all ps b0
    \<and> (\<forall>p \<in> L. deallocate_pages ps b (fst p) (snd p) \<noteq> None) \<and> (\<forall>q. serve ps b q \<noteq> None)"
  using buddy_pages.no_overlap [OF assms(3) buddy_setup_inv [OF assms(2,1)]] by blast

theorem live_allocations_disjoint_witness:
  "\<exists>b0 b a. buddy_setup 24 4096 b0 \<and> serve 4096 b0 (AnyPages 3 0) = Some (b, Inr a)
     \<and> extent 4096 a 3 \<inter> free_all 4096 b = {} \<and> deallocate_pages 4096 b a 3 \<noteq> None"
proof -
  obtain b0 r where b0: "buddy_setup 24 4096 b0" "regions b0 = [r]" "free_all 4096 b0 = {0x100000..<0x200000}"
    by (rule demo_setup)
  obtain b a where b: "serve 4096 b0 (AnyPages 3 0) = Some (b, Inr a)" using demo_alloc [OF b0] .
  have "(page_use (serve 4096) request_pages (deallocate_pages 4096))\<^sup>*\<^sup>* (b0, {}) (b, {(a, 3)})"
    using page_use.take [of "serve 4096" b0 "AnyPages 3 0" b a request_pages "deallocate_pages 4096" "{}"] b by auto
  then show ?thesis using live_allocations_disjoint [of 24 4096 b0 b "{(a, 3)}"] b0(1) b by auto
qed

text \<open>
  C14. A valid request for pages returns an aligned run of free memory of the rounded-up size and takes
  exactly that run out of the free memory; it reports that memory is exhausted only when no region has
  such a run free, so fragmentation never hides one. An invalid request changes nothing.
\<close>

theorem allocate_pages_exact:
  assumes "buddy_inv ps b"
  shows "case allocate_pages ps b n al of
      None \<Rightarrow> False
    | Some (b', Inr a) \<Rightarrow> valid_request ps n al \<and> buddy_inv ps b' \<and> n * ps \<le> card (extent ps a n)
        \<and> order_size ps (count_order n) dvd a \<and> eff_align ps al dvd a
        \<and> extent ps a n \<subseteq> free_all ps b \<and> free_all ps b' = free_all ps b - extent ps a n
    | Some (b', Inl e) \<Rightarrow> b' = b \<and> (if valid_request ps n al then e = NoMemory
          \<and> (\<forall>r \<in> set (regions b). \<forall>a. eff_align ps al dvd a \<and> order_size ps (count_order n) dvd a
               \<longrightarrow> \<not> extent ps a n \<subseteq> free_bytes ps r)
        else e = InvalidInput)"
  using assms
proof (cases rule: allocate_pages_cases [where n = n and al = al])
  case (got a b' pre r post r')
  have k: "count_order n \<le> MAX_ORDER" "n \<noteq> 0" using got(1) by (simp_all add: valid_request_def)
  have "n * ps \<le> card (extent ps a n)"
    using count_order_bound(1) [OF k(1)] by (simp add: extent_def cover_def order_size_def order_pages_def)
  then show ?thesis
    using took_facts [OF assms got(3,4,5) k(2)] got by (simp add: run_free_def)
next
  case full
  then show ?thesis by (auto simp: run_free_def extent_def)
next
  case bad
  then show ?thesis by simp
qed

theorem allocate_pages_exact_witness:
  "\<exists>b b' a. allocate_pages 4096 b 3 0 = Some (b', Inr a) \<and> 16384 dvd a \<and> free_all 4096 b' = free_all 4096 b - extent 4096 a 3"
proof -
  obtain b r where b: "buddy_setup 24 4096 b" "regions b = [r]" "free_all 4096 b = {0x100000..<0x200000}"
    by (rule demo_setup)
  obtain b' a where a: "serve 4096 b (AnyPages 3 0) = Some (b', Inr a)" using demo_alloc [OF b] .
  have "buddy_inv 4096 b" using buddy_setup_inv [OF b(1)] by simp
  from allocate_pages_exact [OF this, of 3 0] a show ?thesis
    by (auto simp: count_order_3 order_size_def order_pages_def)
qed

text \<open>
  C13. Fragmentation is never permanent: once a client has released everything it allocated, in any
  order, every region has exactly the free chunks it had before.
\<close>

theorem released_memory_merges:
  assumes "8 \<le> node_size" "buddy_setup node_size ps b0"
    and "(page_use (serve ps) request_pages (deallocate_pages ps))\<^sup>*\<^sup>* (b0, {}) (b, {})"
  shows "map blocks (regions b) = map blocks (regions b0)"
proof -
  have inv0: "buddy_inv ps b0" by (rule buddy_setup_inv [OF assms(2,1)])
  have acc0: "buddy_pages.accounted ps (free_all ps b0) (fst (b0, {})) (snd (b0, {} :: (nat \<times> nat) set))"
    using inv0 by (simp add: buddy_pages.accounted_def)
  have acc: "buddy_inv ps b" "free_all ps b = free_all ps b0"
    using buddy_pages.use_accounted [OF assms(3) acc0] by (simp_all add: buddy_pages.accounted_def)
  have areas: "list_all2 same_area (regions b0) (regions b)" using use_area [OF assms(3) acc0] by simp
  show ?thesis
  proof (rule nth_equalityI)
    show len: "length (map blocks (regions b)) = length (map blocks (regions b0))"
      using list_all2_lengthD [OF areas] by simp
    fix i assume "i < length (map blocks (regions b))"
    then have i: "i < length (regions b0)" "i < length (regions b)" using len by simp_all
    let ?r = "regions b ! i" and ?s = "regions b0 ! i"
    have in_set: "?r \<in> set (regions b)" "?s \<in> set (regions b0)" using i by simp_all
    have "area ps ?r = area ps ?s" using list_all2_nthD [OF areas i(1)] by (rule same_area_area)
    then have "free_bytes ps ?r = free_bytes ps ?s"
      using free_bytes_area [OF acc(1) in_set(1)] free_bytes_area [OF inv0 in_set(2)] acc(2) by simp
    moreover have "region_inv ps ?r" "region_inv ps ?s" using acc(1) inv0 in_set by (simp_all add: buddy_inv_def)
    ultimately have "blocks ?r = blocks ?s" by (intro blocks_determined)
    then show "map blocks (regions b) ! i = map blocks (regions b0) ! i" using i by simp
  qed
qed

theorem released_memory_merges_witness:
  "\<exists>b0 b1 b2 a. serve 4096 b0 (AnyPages 3 0) = Some (b1, Inr a) \<and> deallocate_pages 4096 b1 a 3 = Some b2
     \<and> map blocks (regions b2) = map blocks (regions b0)"
proof -
  obtain b0 r where b0: "buddy_setup 24 4096 b0" "regions b0 = [r]" "free_all 4096 b0 = {0x100000..<0x200000}"
    by (rule demo_setup)
  obtain b1 a where b1: "serve 4096 b0 (AnyPages 3 0) = Some (b1, Inr a)" using demo_alloc [OF b0] .
  let ?use = "page_use (serve 4096) request_pages (deallocate_pages 4096)"
  have s1: "?use (b0, {}) (b1, {(a, 3)})"
    using page_use.take [of "serve 4096" b0 "AnyPages 3 0" b1 a request_pages "deallocate_pages 4096" "{}"] b1 by simp
  have "buddy_inv 4096 b0" using buddy_setup_inv [OF b0(1)] by simp
  from buddy_pages.no_overlap(4) [OF r_into_rtranclp [of ?use, OF s1] this, of "(a, 3)"]
  obtain b2 where b2: "deallocate_pages 4096 b1 a 3 = Some b2" by auto
  have "?use (b1, {(a, 3)}) (b2, {(a, 3)} - {(a, 3)})" by (rule page_use.give) (use b2 in simp_all)
  then have "?use\<^sup>*\<^sup>* (b0, {}) (b2, {})" using s1 by (simp add: converse_rtranclp_into_rtranclp r_into_rtranclp)
  then show ?thesis using released_memory_merges [of 24 4096 b0 b2] b0(1) b1 b2 by auto
qed

text \<open>
  The statistics are exact: the free-page counter is the number of free bytes in pages, and used
  and free pages add up to the total.
\<close>

theorem statistics_exact:
  assumes "buddy_inv ps b"
  shows "card (free_all ps b) = free_pages b * ps \<and> used_pages b + free_pages b = total_pages b
    \<and> allocated_bytes ps b + card (free_all ps b) = managed_bytes ps b"
  using free_all_count [OF assms]
  by (simp add: used_pages_def allocated_bytes_def managed_bytes_def add_mult_distrib [symmetric])

theorem statistics_exact_witness:
  "\<exists>b. buddy_setup 24 4096 b \<and> free_pages b = 256"
proof -
  obtain b r where b: "buddy_setup 24 4096 b" "regions b = [r]" "free_all 4096 b = {0x100000..<0x200000}"
    by (rule demo_setup)
  have "buddy_inv 4096 b" using buddy_setup_inv [OF b(1)] by simp
  from statistics_exact [OF this] b show ?thesis by (intro exI [of _ b]) simp
qed



end
