(* ===== verification/Pcp.thy ===== *)
theory Pcp
  imports PageAllocator
begin

text \<open>
  The per-CPU page cache of \<open>src/mm/kalloc/src/pcp.rs\<close> in front of the buddy allocator, and the page
  entry points \<open>alloc_pages\<close>, \<open>dealloc_pages\<close>, \<open>alloc_pages_at\<close> and their DMA variants of
  \<open>src/mm/kalloc/src/lib.rs\<close>, on one CPU: the caches are exclusively owned with interrupts disabled and
  the buddy allocator is used under its lock. Usage counters are diagnostics and have no effect here.
\<close>

abbreviation (input) PAGE_SIZE :: nat where "PAGE_SIZE \<equiv> 4096"
abbreviation (input) PCP_MAX_PAGES :: nat where "PCP_MAX_PAGES \<equiv> 4"

section \<open>One cache\<close>

record pcp_cache =
  addrs :: "nat list"
  cached :: nat

definition cache_new :: "nat \<Rightarrow> pcp_cache" where
  "cache_new cnt = \<lparr>addrs = replicate cnt 0, cached = 0\<rparr>"

definition block_bytes :: "nat \<Rightarrow> nat" where
  "block_bytes nr = nr * PAGE_SIZE"

definition try_pop :: "pcp_cache \<Rightarrow> pcp_cache \<times> nat option" where
  "try_pop c =
     (if cached c = 0 then (c, None)
      else (c\<lparr>cached := cached c - 1\<rparr>, Some (addrs c ! (cached c - 1))))"

definition try_push :: "nat \<Rightarrow> pcp_cache \<Rightarrow> nat \<Rightarrow> pcp_cache \<times> (nat + unit)" where
  "try_push cnt c addr =
     (if cached c \<ge> cnt then (c, Inl addr)
      else (c\<lparr>addrs := (addrs c)[cached c := addr], cached := cached c + 1\<rparr>, Inr ()))"

text \<open>Hand a list of chunks to the buddy allocator.\<close>

fun free_chunks :: "buddy \<Rightarrow> (nat \<times> nat) list \<Rightarrow> buddy option" where
  "free_chunks b [] = Some b"
| "free_chunks b ((addr, order) # cs) = do {
     b \<leftarrow> deallocate_pages PAGE_SIZE b addr (2 ^ order);
     free_chunks b cs
   }"

definition free_range :: "buddy \<Rightarrow> nat \<Rightarrow> nat \<Rightarrow> buddy option" where
  "free_range b addr bytes = do {
     cs \<leftarrow> split_to_chunks PAGE_SIZE addr bytes;
     free_chunks b cs
   }"

definition return_slack :: "buddy \<Rightarrow> nat \<Rightarrow> nat \<Rightarrow> buddy option" where
  "return_slack b block_addr pages =
     (let slack_pages = 2 ^ count_order pages - pages in
      if slack_pages = 0 then Some b
      else free_range b (block_addr + pages * PAGE_SIZE) (slack_pages * PAGE_SIZE))"

text \<open>The fallback of \<open>refill\<close>: up to \<open>n\<close> further blocks, one request each, stopping at the first failure.\<close>

fun refill_each :: "nat \<Rightarrow> nat \<Rightarrow> nat \<Rightarrow> buddy \<Rightarrow> pcp_cache \<Rightarrow> (buddy \<times> pcp_cache) option" where
  "refill_each nr cnt 0 b c = Some (b, c)"
| "refill_each nr cnt (Suc n) b c = do {
     (b, res) \<leftarrow> allocate_pages PAGE_SIZE b nr PAGE_SIZE;
     case res of
       Inl _ \<Rightarrow> Some (b, c)
     | Inr addr \<Rightarrow> do {
         b \<leftarrow> return_slack b addr nr;
         refill_each nr cnt n b (fst (try_push cnt c addr))
       }
   }"

definition refill :: "nat \<Rightarrow> nat \<Rightarrow> buddy \<Rightarrow> pcp_cache \<Rightarrow> (buddy \<times> pcp_cache \<times> (alloc_error + nat)) option" where
  "refill nr cnt b c =
     (let nr_to_alloc = cnt * 2 div 3; pages = nr_to_alloc * nr in do {
        (b, batch) \<leftarrow> allocate_pages PAGE_SIZE b pages PAGE_SIZE;
        case batch of
          Inr base \<Rightarrow> do {
            b \<leftarrow> return_slack b base pages;
            Some (b, fold (\<lambda>i c. fst (try_push cnt c (base + i * block_bytes nr))) [1..<nr_to_alloc] c, Inr base)
          }
        | Inl _ \<Rightarrow> do {
            (b, first) \<leftarrow> allocate_pages PAGE_SIZE b nr PAGE_SIZE;
            case first of
              Inl e \<Rightarrow> Some (b, c, Inl e)
            | Inr base \<Rightarrow> do {
                b \<leftarrow> return_slack b base nr;
                (b, c) \<leftarrow> refill_each nr cnt (nr_to_alloc - 1) b c;
                Some (b, c, Inr base)
              }
          }
      })"

definition cache_alloc :: "nat \<Rightarrow> nat \<Rightarrow> buddy \<Rightarrow> pcp_cache \<Rightarrow> (buddy \<times> pcp_cache \<times> (alloc_error + nat)) option" where
  "cache_alloc nr cnt b c =
     (case try_pop c of
        (c, Some addr) \<Rightarrow> Some (b, c, Inr addr)
      | (c, None) \<Rightarrow> refill nr cnt b c)"

text \<open>\<open>drain\<close>: pop up to \<open>n\<close> blocks, merge adjacent blocks in address order, free each range.\<close>

fun pop_some :: "nat \<Rightarrow> pcp_cache \<Rightarrow> pcp_cache \<times> nat list" where
  "pop_some 0 c = (c, [])"
| "pop_some (Suc n) c =
     (case try_pop c of
        (c, Some addr) \<Rightarrow> (let (c, as) = pop_some n c in (c, addr # as))
      | (c, None) \<Rightarrow> (c, []))"

fun extend_run :: "nat \<Rightarrow> nat \<Rightarrow> nat list \<Rightarrow> nat \<times> nat list" where
  "extend_run blk run_end [] = (run_end, [])"
| "extend_run blk run_end (a # as) = (if a = run_end then extend_run blk (a + blk) as else (run_end, a # as))"

lemma extend_run_length [termination_simp]: "(e, rest) = extend_run blk run_end as \<Longrightarrow> length rest \<le> length as"
  by (induction blk run_end as rule: extend_run.induct) (auto split: if_splits)

fun free_runs :: "nat \<Rightarrow> buddy \<Rightarrow> nat list \<Rightarrow> buddy option" where
  "free_runs blk b [] = Some b"
| "free_runs blk b (a # as) =
     (let (run_end, rest) = extend_run blk (a + blk) as in do {
        b \<leftarrow> free_range b a (run_end - a);
        free_runs blk b rest
      })"

definition pcp_drain :: "nat \<Rightarrow> nat \<Rightarrow> buddy \<Rightarrow> pcp_cache \<Rightarrow> nat \<Rightarrow> (buddy \<times> pcp_cache) option" where
  "pcp_drain nr cnt b c free_addr =
     (let (c, popped) = pop_some (cnt * 2 div 3) c in do {
        b \<leftarrow> free_runs (block_bytes nr) b (sort (free_addr # popped));
        Some (b, c)
      })"

definition cache_dealloc :: "nat \<Rightarrow> nat \<Rightarrow> buddy \<Rightarrow> pcp_cache \<Rightarrow> nat \<Rightarrow> (buddy \<times> pcp_cache) option" where
  "cache_dealloc nr cnt b c addr =
     (case try_push cnt c addr of
        (c, Inr _) \<Rightarrow> Some (b, c)
      | (c, Inl _) \<Rightarrow> pcp_drain nr cnt b c addr)"

section \<open>The page set and the page entry points\<close>

record page_set =
  cache1 :: pcp_cache
  cache2 :: pcp_cache
  cache3 :: pcp_cache
  cache4 :: pcp_cache

definition page_set_new :: page_set where
  "page_set_new = \<lparr>cache1 = cache_new 12, cache2 = cache_new 6, cache3 = cache_new 6, cache4 = cache_new 6\<rparr>"

text \<open>The capacities \<open>C1\<close> to \<open>C4\<close>, and selecting or replacing the cache of a block size.\<close>

definition cache_count :: "nat \<Rightarrow> nat" where
  "cache_count nr = (if nr = 1 then 12 else 6)"

definition get_cache :: "page_set \<Rightarrow> nat \<Rightarrow> pcp_cache" where
  "get_cache s nr = (if nr = 1 then cache1 s else if nr = 2 then cache2 s else if nr = 3 then cache3 s else cache4 s)"

definition put_cache :: "nat \<Rightarrow> pcp_cache \<Rightarrow> page_set \<Rightarrow> page_set" where
  "put_cache nr c s =
     (if nr = 1 then s\<lparr>cache1 := c\<rparr> else if nr = 2 then s\<lparr>cache2 := c\<rparr>
      else if nr = 3 then s\<lparr>cache3 := c\<rparr> else s\<lparr>cache4 := c\<rparr>)"

record kalloc =
  palloc :: buddy
  pageset :: page_set

definition small :: "nat \<Rightarrow> bool" where
  "small n \<longleftrightarrow> 1 \<le> n \<and> n \<le> PCP_MAX_PAGES"

definition pcp_try_alloc :: "kalloc \<Rightarrow> nat \<Rightarrow> kalloc \<times> nat option" where
  "pcp_try_alloc k n =
     (if small n then
        let (c, found) = try_pop (get_cache (pageset k) n) in (k\<lparr>pageset := put_cache n c (pageset k)\<rparr>, found)
      else (k, None))"

definition pcp_try_free :: "kalloc \<Rightarrow> nat \<Rightarrow> nat \<Rightarrow> kalloc \<times> bool" where
  "pcp_try_free k n addr =
     (if small n then
        let (c, res) = try_push (cache_count n) (get_cache (pageset k) n) addr in
        (k\<lparr>pageset := put_cache n c (pageset k)\<rparr>, res = Inr ())
      else (k, False))"

text \<open>Other block sizes reach \<open>unreachable!\<close>.\<close>

definition fill_cache :: "kalloc \<Rightarrow> nat \<Rightarrow> (kalloc \<times> (alloc_error + nat)) option" where
  "fill_cache k n =
     (if small n then do {
        (b, c, res) \<leftarrow> cache_alloc n (cache_count n) (palloc k) (get_cache (pageset k) n);
        Some (k\<lparr>palloc := b, pageset := put_cache n c (pageset k)\<rparr>, res)
      }
      else None)"

definition drain_cache :: "kalloc \<Rightarrow> nat \<Rightarrow> nat \<Rightarrow> kalloc option" where
  "drain_cache k n addr =
     (if small n then do {
        (b, c) \<leftarrow> cache_dealloc n (cache_count n) (palloc k) (get_cache (pageset k) n) addr;
        Some (k\<lparr>palloc := b, pageset := put_cache n c (pageset k)\<rparr>)
      }
      else None)"

definition alloc_pages :: "kalloc \<Rightarrow> nat \<Rightarrow> nat \<Rightarrow> (kalloc \<times> (alloc_error + nat)) option" where
  "alloc_pages k n align_pow2 =
     (if small n \<and> align_pow2 \<le> PAGE_SIZE then
        case pcp_try_alloc k n of
          (k, Some addr) \<Rightarrow> Some (k, Inr addr)
        | (k, None) \<Rightarrow> fill_cache k n
      else do {
        (b, res) \<leftarrow> allocate_pages PAGE_SIZE (palloc k) n align_pow2;
        Some (k\<lparr>palloc := b\<rparr>, res)
      })"

definition dealloc_pages :: "kalloc \<Rightarrow> nat \<Rightarrow> nat \<Rightarrow> kalloc option" where
  "dealloc_pages k va n =
     (if small n then
        case pcp_try_free k n va of
          (k, True) \<Rightarrow> Some k
        | (k, False) \<Rightarrow> drain_cache k n va
      else do {
        b \<leftarrow> deallocate_pages PAGE_SIZE (palloc k) va n;
        Some (k\<lparr>palloc := b\<rparr>)
      })"

definition alloc_pages_at :: "kalloc \<Rightarrow> nat \<Rightarrow> nat \<Rightarrow> nat \<Rightarrow> (kalloc \<times> (alloc_error + nat)) option" where
  "alloc_pages_at k va n align_pow2 = do {
     (b, res) \<leftarrow> allocate_pages_at PAGE_SIZE (palloc k) va n align_pow2;
     Some (k\<lparr>palloc := b\<rparr>, res)
   }"

text \<open>\<open>v2p\<close> is the kernel's address translation. DMA memory must lie below 4 GiB.\<close>

definition alloc_dma_pages ::
  "(nat \<Rightarrow> nat) \<Rightarrow> kalloc \<Rightarrow> nat \<Rightarrow> nat \<Rightarrow> (kalloc \<times> (alloc_error + nat)) option" where
  "alloc_dma_pages v2p k n align_pow2 = do {
     (b, res) \<leftarrow> allocate_pages PAGE_SIZE (palloc k) n align_pow2;
     case res of
       Inl e \<Rightarrow> Some (k\<lparr>palloc := b\<rparr>, Inl e)
     | Inr addr \<Rightarrow>
         if v2p addr + n * PAGE_SIZE > 0x100000000 then do {
           b \<leftarrow> deallocate_pages PAGE_SIZE b addr n;
           Some (k\<lparr>palloc := b\<rparr>, Inl NoMemory)
         }
         else Some (k\<lparr>palloc := b\<rparr>, Inr addr)
   }"

definition dealloc_dma_pages :: "kalloc \<Rightarrow> nat \<Rightarrow> nat \<Rightarrow> kalloc option" where
  "dealloc_dma_pages k va n = do {
     b \<leftarrow> deallocate_pages PAGE_SIZE (palloc k) va n;
     Some (k\<lparr>palloc := b\<rparr>)
   }"

end
