(* ===== verification/PcpInv.thy ===== *)
theory PcpInv
  imports Pcp "HOL-Library.Multiset"
begin

text \<open>
  The per-CPU page cache keeps the contract of a page allocator: range splitting tiles a range with
  aligned chunks, refilling and draining move whole blocks between the buddy allocator and the cache,
  and the page entry points on top of both satisfy the laws of \<open>page_allocator\<close>.
\<close>

unbundle bit_operations_syntax

section \<open>Tiling a range\<close>

lemma bit_unat_eq: "bit (unat (w :: usize)) i = bit w i"
  by (simp add: bit_unsigned_iff)

lemma trailing_zeros_4096: "trailing_zeros (4096 :: usize) = 12"
proof -
  have b: "bit (4096 :: usize) i \<longleftrightarrow> i = 12" for i
  proof -
    have "(4096 :: usize) = 2 ^ 12" by simp
    then show ?thesis by (simp only: bit_exp_iff) auto
  qed
  have "(4096 :: usize) \<noteq> 0" by simp
  from trailing_zeros_first(2) [OF this] show ?thesis by (simp only: b)
qed

lemma trailing_zeros_dvd:
  assumes "a < 2 ^ 64" "a \<noteq> 0" "j \<le> trailing_zeros (of_nat a :: usize)"
  shows "2 ^ j dvd a"
proof -
  let ?w = "of_nat a :: usize"
  have u: "unat ?w = a" using assms(1) by (simp add: unat_of_nat)
  then have nz: "?w \<noteq> 0" using assms(2) by (metis unat_0)
  have "\<not> bit a i" if "i < j" for i
    using trailing_zeros_first(3) [OF nz, of i] that assms(3) u bit_unat_eq [of ?w i] by simp
  then have "take_bit j a = 0" by (intro bit_eqI) (simp add: bit_take_bit_iff)
  then show ?thesis by (simp add: take_bit_eq_0_iff)
qed

lemma trailing_zeros_ge:
  assumes "a < 2 ^ 64" "a \<noteq> 0" "2 ^ j dvd a"
  shows "j \<le> trailing_zeros (of_nat a :: usize)"
proof (rule ccontr)
  let ?w = "of_nat a :: usize"
  assume "\<not> j \<le> trailing_zeros ?w"
  moreover have u: "unat ?w = a" using assms(1) by (simp add: unat_of_nat)
  then have nz: "?w \<noteq> 0" using assms(2) by (metis unat_0)
  have "bit a (trailing_zeros ?w)" using trailing_zeros_first(2) [OF nz] u bit_unat_eq [of ?w] by simp
  moreover have "take_bit j a = 0" using assms(3) by (simp add: take_bit_eq_0_iff)
  ultimately show False by (metis bit_0_eq bit_take_bit_iff bot_apply bot_bool_def not_le)
qed

lemma leading_zeros_bound:
  assumes "a < 2 ^ 64" "a \<noteq> 0" "j \<le> 64 - (leading_zeros (of_nat a :: usize) + 1)"
  shows "2 ^ j \<le> a"
proof -
  let ?w = "of_nat a :: usize"
  have u: "unat ?w = a" using assms(1) by (simp add: unat_of_nat)
  then have nz: "?w \<noteq> 0" using assms(2) by (metis unat_0)
  let ?k = "64 - 1 - leading_zeros ?w"
  have "bit a ?k" using leading_zeros_last(2) [OF nz] u bit_unat_eq [of ?w] by simp
  then have "2 ^ ?k \<le> a" by (rule contrapos_pp) (simp add: bit_iff_odd not_le)
  moreover have "(2::nat) ^ j \<le> 2 ^ ?k" using assms(3) by (intro power_increasing) simp_all
  ultimately show ?thesis by (rule order_trans [rotated])
qed

text \<open>The chunks of a range cover it without gaps or overlaps, each aligned to its own size.\<close>

fun tiles :: "nat \<Rightarrow> nat \<Rightarrow> (nat \<times> nat) list \<Rightarrow> bool" where
  "tiles lo hi [] \<longleftrightarrow> lo = hi"
| "tiles lo hi ((a, k) # cs) \<longleftrightarrow>
     a = lo \<and> k \<le> MAX_ORDER \<and> order_size PAGE_SIZE k dvd a \<and> a + order_size PAGE_SIZE k \<le> hi
     \<and> tiles (a + order_size PAGE_SIZE k) hi cs"

lemma order_size_4096: "order_size 4096 k = 2 ^ (12 + k)"
  by (simp add: order_size_def order_pages_def power_add)

lemma chunk_order_fits:
  assumes "4096 dvd lo" "4096 dvd sz" "0 < sz" "lo + sz < 2 ^ 64"
  shows "order_size 4096 (chunk_order 4096 lo sz) dvd lo" "order_size 4096 (chunk_order 4096 lo sz) \<le> sz"
proof -
  let ?k = "chunk_order 4096 lo sz"
  have pow: "(4096 :: nat) = 2 ^ 12" by simp
  show "order_size 4096 ?k dvd lo"
  proof (cases "lo = 0")
    case False
    have lt: "lo < 2 ^ 64" using assms(4) by simp
    from this have "12 \<le> trailing_zeros (of_nat lo :: usize)"
      by (rule trailing_zeros_ge) (use False assms(1) in simp_all)
    then have "12 + ?k \<le> trailing_zeros (of_nat lo :: usize)" by (simp add: chunk_order_def trailing_zeros_4096)
    from trailing_zeros_dvd [OF lt False this] show ?thesis unfolding order_size_4096 .
  qed simp
  let ?n = "sz div 4096"
  have sz: "sz = ?n * 4096" using assms(2) by simp
  have "2 ^ ?k \<le> ?n"
    by (rule leading_zeros_bound) (use assms(3,4) sz in \<open>auto simp: chunk_order_def\<close>)
  then have "2 ^ ?k * 4096 \<le> ?n * 4096" by simp
  then show "order_size 4096 ?k \<le> sz" using sz by (simp add: order_size_def order_pages_def)
qed

lemma order_size_bound: "order_size 4096 k \<le> 2 ^ 32 \<Longrightarrow> k \<le> MAX_ORDER"
proof -
  assume "order_size 4096 k \<le> 2 ^ 32"
  then have "12 + k \<le> (32 :: nat)" unfolding order_size_4096 by (rule power_le_imp_le_exp [rotated]) simp
  then show ?thesis by simp
qed

lemma chunks_tile:
  assumes "4096 dvd lo" "4096 dvd sz" "lo + sz < 2 ^ 64" "sz \<le> 2 ^ 32"
  shows "tiles lo (lo + sz) (chunks_from 4096 lo sz)"
  using assms
proof (induction sz arbitrary: lo rule: less_induct)
  case (less sz)
  let ?k = "chunk_order 4096 lo sz"
  show ?case
  proof (cases "sz = 0")
    case True
    then show ?thesis by (simp add: chunks_from.simps)
  next
    case False
    let ?c = "order_size 4096 ?k"
    have fit: "?c dvd lo" "?c \<le> sz" using chunk_order_fits less.prems(1-3) False by auto
    have d: "4096 dvd ?c" by (simp add: order_size_def)
    have "0 < ?c" by (simp add: order_size_4096)
    then have dec: "sz - ?c < sz" by (rule diff_less) (use False in simp)
    have k: "?k \<le> MAX_ORDER" by (rule order_size_bound) (use fit(2) less.prems(4) in simp)
    have "tiles (lo + ?c) (lo + ?c + (sz - ?c)) (chunks_from 4096 (lo + ?c) (sz - ?c))"
      by (rule less.IH [OF dec]) (use fit(2) d less.prems in \<open>auto intro: dvd_diff_nat\<close>)
    moreover have "(lo + ?c) mod 2 ^ 64 = lo + ?c" using fit(2) less.prems(3) by simp
    moreover have "2 ^ ?k * 4096 = ?c" by (simp add: order_size_def order_pages_def)
    ultimately have "chunks_from 4096 lo sz = (lo, ?k) # chunks_from 4096 (lo + ?c) (sz - ?c)"
      using False by (subst chunks_from.simps) (simp add: Let_def)
    then show ?thesis using fit k \<open>tiles (lo + ?c) _ _\<close> by simp
  qed
qed

section \<open>Freeing a range\<close>

text \<open>Where the regions lie never changes; \<open>in_heap\<close> says that a range lies inside one of them.\<close>

definition layout :: "buddy \<Rightarrow> (nat \<times> nat) list" where
  "layout b = map (\<lambda>r. (heap_start r, heap_end 4096 r)) (regions b)"

definition in_heap :: "buddy \<Rightarrow> nat \<Rightarrow> nat \<Rightarrow> bool" where
  "in_heap b lo hi \<longleftrightarrow> (\<exists>h \<in> set (layout b). fst h \<le> lo \<and> hi \<le> snd h)"

lemma layout_same: "list_all2 same_area (regions b) (regions b') \<Longrightarrow> layout b' = layout b"
  unfolding layout_def by (induction rule: list_all2_induct) (simp_all add: same_area_def heap_end_def)

lemma in_heap_layout: "layout b' = layout b \<Longrightarrow> in_heap b' lo hi = in_heap b lo hi"
  by (simp add: in_heap_def)

lemma in_heap_sub: "\<lbrakk>in_heap b lo hi; lo \<le> lo'; hi' \<le> hi\<rbrakk> \<Longrightarrow> in_heap b lo' hi'"
  by (force simp: in_heap_def)

lemma in_heap_bound:
  assumes "buddy_inv 4096 b" "in_heap b lo hi"
  shows "hi < 2 ^ 64"
  using assms by (fastforce simp: in_heap_def layout_def buddy_inv_def region_inv_def region_ok_def area_ok_def)

lemma owned_iff:
  "owned 4096 b a n \<longleftrightarrow> n \<noteq> 0 \<and> count_order n \<le> MAX_ORDER \<and> order_size 4096 (count_order n) dvd a
     \<and> in_heap b a (a + order_size 4096 (count_order n))"
  by (auto simp: owned_def fits_def in_heap_def layout_def)

lemma count_order_pow2: "k \<le> MAX_ORDER \<Longrightarrow> count_order (2 ^ k) = k"
  by (rule count_order_eq) (simp_all add: power_strict_increasing)

lemma free_chunks_inv:
  assumes "buddy_inv 4096 b" "tiles lo hi cs" "in_heap b lo hi" "{lo..<hi} \<inter> free_all 4096 b = {}"
  shows "\<exists>b'. free_chunks b cs = Some b' \<and> buddy_inv 4096 b' \<and> layout b' = layout b
    \<and> free_all 4096 b' = free_all 4096 b \<union> {lo..<hi}"
  using assms
proof (induction cs arbitrary: b lo)
  case (Cons x cs)
  obtain a k where x: "x = (a, k)" by (cases x)
  let ?c = "order_size 4096 k"
  have t: "a = lo" "k \<le> MAX_ORDER" "?c dvd lo" "lo + ?c \<le> hi" "tiles (lo + ?c) hi cs" using Cons.prems(2) x by auto
  have n: "count_order (2 ^ k) = k" by (rule count_order_pow2 [OF t(2)])
  have own: "owned 4096 b lo (2 ^ k)"
    using t in_heap_sub [OF Cons.prems(3) order_refl t(4)] by (simp add: owned_iff n)
  have e: "extent 4096 lo (2 ^ k) = {lo..<lo + ?c}" by (simp add: extent_def n cover_def)
  have "{lo..<lo + ?c} \<inter> free_all 4096 b = {}" using Cons.prems(4) t(4) by fastforce
  then obtain b1 where b1: "deallocate_pages 4096 b lo (2 ^ k) = Some b1" "buddy_inv 4096 b1"
    "free_all 4096 b1 = free_all 4096 b \<union> {lo..<lo + ?c}"
    using buddy_pages.dealloc_ok [OF Cons.prems(1) own] unfolding e by blast
  have lay: "layout b1 = layout b" by (rule layout_same [OF deallocate_area [OF b1(1)]])
  have "in_heap b1 (lo + ?c) hi"
    using in_heap_sub [OF Cons.prems(3) le_add1 order_refl] in_heap_layout [OF lay] by simp
  moreover have "{lo + ?c..<hi} \<subseteq> {lo..<hi}" "{lo + ?c..<hi} \<inter> {lo..<lo + ?c} = {}" by auto
  then have "{lo + ?c..<hi} \<inter> free_all 4096 b1 = {}" using Cons.prems(4) unfolding b1(3) by blast
  ultimately obtain b' where b': "free_chunks b1 cs = Some b'" "buddy_inv 4096 b'" "layout b' = layout b1"
    "free_all 4096 b' = free_all 4096 b1 \<union> {lo + ?c..<hi}"
    using Cons.IH [OF b1(2) t(5)] by blast
  moreover have "{lo..<lo + ?c} \<union> {lo + ?c..<hi} = {lo..<hi}" by (rule ivl_disj_un_two(3)) (use t(4) in simp_all)
  ultimately show ?case using b1 lay x t(1) by (simp add: Un_assoc)
qed simp

lemma free_range_inv:
  assumes "buddy_inv 4096 b" "4096 dvd lo" "4096 dvd sz" "sz \<le> 2 ^ 32" "in_heap b lo (lo + sz)"
    "{lo..<lo + sz} \<inter> free_all 4096 b = {}"
  obtains b' where "free_range b lo sz = Some b'" "buddy_inv 4096 b'" "layout b' = layout b"
    "free_all 4096 b' = free_all 4096 b \<union> {lo..<lo + sz}"
proof -
  have "tiles lo (lo + sz) (chunks_from 4096 lo sz)"
    by (rule chunks_tile [OF assms(2,3) in_heap_bound [OF assms(1,5)] assms(4)])
  from free_chunks_inv [OF assms(1) this assms(5,6)] show thesis
    using that assms(2,3) by (auto simp: free_range_def split_to_chunks_def is_multiple_of_def)
qed

section \<open>Exact blocks\<close>

text \<open>A request whose rounding slack is returned takes exactly the pages asked for.\<close>

definition blk :: "nat \<Rightarrow> nat \<Rightarrow> nat set" where
  "blk n a = {a..<a + n * 4096}"

definition block_at :: "buddy \<Rightarrow> nat \<Rightarrow> nat \<Rightarrow> bool" where
  "block_at b n a \<longleftrightarrow> 4096 dvd a \<and> in_heap b a (a + n * 4096)"

lemma block_at_layout: "layout b' = layout b \<Longrightarrow> block_at b' n a = block_at b n a"
  by (simp add: block_at_def in_heap_def)

lemma allocate_pages_layout: "\<lbrakk>buddy_inv 4096 b; allocate_pages 4096 b n al = Some (b', res)\<rbrakk> \<Longrightarrow> layout b' = layout b"
  using serve_area [of 4096 b "AnyPages n al"] layout_same by simp

lemma request_block:
  assumes inv: "buddy_inv 4096 b" and n: "n \<le> 2 ^ 20" and res: "allocate_pages 4096 b n 4096 = Some (b1, Inr a)"
  obtains b2 where "return_slack b1 a n = Some b2" "buddy_inv 4096 b2" "layout b2 = layout b"
    "block_at b n a" "blk n a \<subseteq> free_all 4096 b" "free_all 4096 b2 = free_all 4096 b - blk n a"
proof -
  note blk_def [simp]
  have q: "serve 4096 b (AnyPages n 4096) = Some (b1, Inr a)" using res by simp
  note got = buddy_pages.alloc_got [OF inv q]
  let ?k = "count_order n" and ?e = "a + order_size 4096 (count_order n)"
  have b1: "buddy_inv 4096 b1" "owned 4096 b1 a n" using got by simp_all
  have lay: "layout b1 = layout b" by (rule allocate_pages_layout [OF inv res])
  have ext: "extent 4096 a n = {a..<?e}" by (simp add: extent_def cover_def)
  have fr: "{a..<?e} \<subseteq> free_all 4096 b" "free_all 4096 b1 = free_all 4096 b - {a..<?e}" using got ext by simp_all
  have k: "?k \<le> MAX_ORDER" "n \<le> 2 ^ ?k" using b1(2) count_order_bound(1) by (simp_all add: owned_iff)
  have sz: "order_size 4096 ?k = n * 4096 + (2 ^ ?k - n) * 4096"
    using k(2) by (simp add: order_size_def order_pages_def diff_mult_distrib)
  have al: "4096 dvd a" using b1(2) by (auto simp: owned_iff order_size_def elim: dvd_mult_left [of 4096] dvd_mult_right)
  have heap: "in_heap b a ?e" using b1(2) lay by (simp add: owned_iff in_heap_def)
  then have at: "block_at b n a" using al in_heap_sub [OF heap order_refl, of "a + n * 4096"] sz by (simp add: block_at_def)
  have sub: "blk n a \<subseteq> {a..<?e}" using sz by auto
  show thesis
  proof (cases "2 ^ ?k - n = 0")
    case True
    then have "return_slack b1 a n = Some b1" by (simp add: return_slack_def Let_def)
    moreover have "{a..<?e} = blk n a" using sz True by simp
    ultimately show thesis using that b1(1) lay at fr by simp
  next
    case False
    let ?lo = "a + n * 4096" and ?sl = "(2 ^ ?k - n) * 4096"
    have e: "?lo + ?sl = ?e" using sz by simp
    have "2 ^ ?k \<le> (2::nat) ^ 20" using k(1) by (intro power_increasing) simp_all
    then have "2 ^ ?k - n \<le> 2 ^ 20" by linarith
    then have "?sl \<le> 2 ^ 20 * 4096" by (rule mult_right_mono) simp
    then have small: "?sl \<le> 2 ^ 32" by simp
    have d: "4096 dvd ?lo" "4096 dvd ?sl" using al by simp_all
    have "in_heap b1 ?lo (?lo + ?sl)" unfolding in_heap_layout [OF lay] e by (rule in_heap_sub [OF heap]) simp_all
    moreover have "{?lo..<?lo + ?sl} \<inter> free_all 4096 b1 = {}" unfolding fr(2) e by auto
    ultimately obtain b2 where b2: "free_range b1 ?lo ?sl = Some b2" "buddy_inv 4096 b2" "layout b2 = layout b1"
      "free_all 4096 b2 = free_all 4096 b1 \<union> {?lo..<?e}"
      using free_range_inv [OF b1(1) d small] unfolding e by metis
    have "return_slack b1 a n = Some b2" using b2(1) False by (simp add: return_slack_def Let_def)
    moreover have "{a..<?e} = blk n a \<union> {?lo..<?e}" "blk n a \<inter> {?lo..<?e} = {}" using sz by auto
    then have "free_all 4096 b2 = free_all 4096 b - blk n a" unfolding b2(4) fr(2) using fr(1) by blast
    moreover have "blk n a \<subseteq> free_all 4096 b" using sub fr(1) by (rule order_trans)
    ultimately show thesis using that b2(2,3) lay at by simp
  qed
qed

section \<open>One cache\<close>

definition content :: "pcp_cache \<Rightarrow> nat list" where
  "content c = take (cached c) (addrs c)"

definition cache_ok :: "nat \<Rightarrow> pcp_cache \<Rightarrow> bool" where
  "cache_ok cnt c \<longleftrightarrow> length (addrs c) = cnt \<and> cached c \<le> cnt"

lemma content_length: "cache_ok cnt c \<Longrightarrow> length (content c) = cached c"
  by (simp add: cache_ok_def content_def)

lemma try_pop_empty: "cached c = 0 \<Longrightarrow> try_pop c = (c, None)"
  by (simp add: try_pop_def)

lemma try_pop_some:
  assumes "cache_ok cnt c" "0 < cached c"
  obtains c' x where "try_pop c = (c', Some x)" "cache_ok cnt c'" "content c = content c' @ [x]"
proof
  let ?n = "cached c - 1"
  have n: "cached c = Suc ?n" "?n < length (addrs c)" using assms by (auto simp: cache_ok_def)
  show "try_pop c = (c\<lparr>cached := ?n\<rparr>, Some (addrs c ! ?n))" using assms by (simp add: try_pop_def)
  show "cache_ok cnt (c\<lparr>cached := ?n\<rparr>)" using assms by (auto simp: cache_ok_def)
  show "content c = content (c\<lparr>cached := ?n\<rparr>) @ [addrs c ! ?n]"
    using take_Suc_conv_app_nth [OF n(2)] n(1) by (simp add: content_def)
qed

lemma try_push_full: "cnt \<le> cached c \<Longrightarrow> try_push cnt c a = (c, Inl a)"
  by (simp add: try_push_def)

lemma try_push_room:
  assumes "cache_ok cnt c" "cached c < cnt"
  obtains c' where "try_push cnt c a = (c', Inr ())" "cache_ok cnt c'" "content c' = content c @ [a]"
proof
  let ?c = "c\<lparr>addrs := (addrs c)[cached c := a], cached := cached c + 1\<rparr>"
  show "try_push cnt c a = (?c, Inr ())" using assms by (simp add: try_push_def)
  show "cache_ok cnt ?c" using assms by (simp add: cache_ok_def)
  show "content ?c = content c @ [a]"
    using assms by (simp add: content_def cache_ok_def take_Suc_conv_app_nth)
qed

text \<open>
  The invariant of one cache of \<open>n\<close>-page blocks beside the buddy allocator: cached blocks are page
  aligned, lie inside a region, and are disjoint from each other and from the free memory.
\<close>

definition apart :: "nat \<Rightarrow> nat list \<Rightarrow> bool" where
  "apart n as \<longleftrightarrow> sorted_wrt (\<lambda>x y. blk n x \<inter> blk n y = {}) as"

definition bytes_of :: "nat \<Rightarrow> nat list \<Rightarrow> nat set" where
  "bytes_of n as = (\<Union>a \<in> set as. blk n a)"

definition stocked :: "nat \<Rightarrow> buddy \<Rightarrow> nat list \<Rightarrow> bool" where
  "stocked n b as \<longleftrightarrow> (\<forall>a \<in> set as. block_at b n a) \<and> apart n as \<and> bytes_of n as \<inter> free_all 4096 b = {}"

definition separated :: "buddy \<Rightarrow> bool" where
  "separated b \<longleftrightarrow> (\<forall>g \<in> set (layout b). \<forall>h \<in> set (layout b). snd g \<noteq> fst h)"

definition pcp_inv :: "nat \<Rightarrow> nat \<Rightarrow> buddy \<Rightarrow> pcp_cache \<Rightarrow> bool" where
  "pcp_inv n cnt b c \<longleftrightarrow> buddy_inv 4096 b \<and> separated b \<and> cache_ok cnt c \<and> stocked n b (content c)"

definition pcp_free :: "nat \<Rightarrow> buddy \<Rightarrow> pcp_cache \<Rightarrow> nat set" where
  "pcp_free n b c = free_all 4096 b \<union> bytes_of n (content c)"

lemma bytes_of_simps [simp]:
  "bytes_of n [] = {}" "bytes_of n (a # as) = blk n a \<union> bytes_of n as" "bytes_of n (as @ bs) = bytes_of n as \<union> bytes_of n bs"
  by (simp_all add: bytes_of_def)

lemma apart_snoc: "apart n (as @ [x]) \<longleftrightarrow> apart n as \<and> bytes_of n as \<inter> blk n x = {}"
  by (auto simp: apart_def bytes_of_def sorted_wrt_append)

lemma apart_Cons: "apart n (x # as) \<longleftrightarrow> blk n x \<inter> bytes_of n as = {} \<and> apart n as"
  by (auto simp: apart_def bytes_of_def)

lemma apart_append: "apart n (as @ bs) \<longleftrightarrow> apart n as \<and> apart n bs \<and> bytes_of n as \<inter> bytes_of n bs = {}"
  by (auto simp: apart_def bytes_of_def sorted_wrt_append disjoint_iff)

lemma stocked_Nil [simp]: "stocked n b []"
  by (simp add: stocked_def apart_def)

lemma stocked_snoc:
  "stocked n b (as @ [x]) \<longleftrightarrow> stocked n b as \<and> block_at b n x \<and> blk n x \<inter> (free_all 4096 b \<union> bytes_of n as) = {}"
  by (auto simp: stocked_def apart_snoc)

lemma separated_layout: "layout b' = layout b \<Longrightarrow> separated b' = separated b"
  by (simp add: separated_def)

text \<open>Taking free memory away keeps a stock.\<close>

lemma stocked_mono: "\<lbrakk>stocked n b as; layout b' = layout b; free_all 4096 b' \<subseteq> free_all 4096 b\<rbrakk> \<Longrightarrow> stocked n b' as"
  using block_at_layout [of b' b n] by (auto simp: stocked_def)

subsection \<open>Refilling\<close>

lemma run_of_blocks:
  "bytes_of n (map (\<lambda>i. a + i * block_bytes n) [0..<t]) = blk (t * n) a
   \<and> apart n (map (\<lambda>i. a + i * block_bytes n) [0..<t])"
proof (induction t)
  case 0
  then show ?case by (simp add: blk_def apart_def)
next
  case (Suc t)
  have "blk (Suc t * n) a = blk (t * n) a \<union> blk n (a + t * block_bytes n)"
    by (auto simp: blk_def block_bytes_def algebra_simps)
  moreover have "blk (t * n) a \<inter> blk n (a + t * block_bytes n) = {}"
    by (auto simp: blk_def block_bytes_def algebra_simps)
  ultimately show ?case using Suc by (simp add: apart_snoc)
qed

lemma fold_push:
  assumes "cache_ok cnt c" "cached c + length xs \<le> cnt"
  shows "cache_ok cnt (fold (\<lambda>i c. fst (try_push cnt c (f i))) xs c)
    \<and> content (fold (\<lambda>i c. fst (try_push cnt c (f i))) xs c) = content c @ map f xs"
  using assms
proof (induction xs arbitrary: c)
  case (Cons i xs)
  have "cached c < cnt" using Cons.prems(2) by simp
  from try_push_room [OF Cons.prems(1) this, of "f i"] obtain c' where
    c': "try_push cnt c (f i) = (c', Inr ())" "cache_ok cnt c'" "content c' = content c @ [f i]" .
  have "cached c' = Suc (cached c)" using content_length [OF c'(2)] content_length [OF Cons.prems(1)] c'(3) by simp
  then have "cached c' + length xs \<le> cnt" using Cons.prems(2) by simp
  from Cons.IH [OF c'(2) this] show ?case using c' by simp
qed simp

text \<open>What an allocation through the cache promises.\<close>

definition gave :: "nat \<Rightarrow> nat \<Rightarrow> buddy \<Rightarrow> pcp_cache \<Rightarrow> buddy \<Rightarrow> pcp_cache \<Rightarrow> nat \<Rightarrow> bool" where
  "gave n cnt b c b' c' a \<longleftrightarrow> pcp_inv n cnt b' c' \<and> layout b' = layout b \<and> block_at b n a
     \<and> blk n a \<subseteq> pcp_free n b c \<and> pcp_free n b' c' = pcp_free n b c - blk n a"

lemma pcp_inv_after:
  assumes "pcp_inv n cnt b c" "buddy_inv 4096 b'" "layout b' = layout b" "cache_ok cnt c'" "stocked n b' (content c')"
  shows "pcp_inv n cnt b' c'"
  using assms separated_layout [of b' b] by (simp add: pcp_inv_def)

lemma request_gave:
  assumes inv: "pcp_inv n cnt b c" and n: "n \<le> 2 ^ 20" and res: "allocate_pages 4096 b n 4096 = Some (b1, Inr a)"
  obtains b2 where "return_slack b1 a n = Some b2" "gave n cnt b c b2 c a"
proof -
  have b: "buddy_inv 4096 b" "cache_ok cnt c" "stocked n b (content c)" using inv by (simp_all add: pcp_inv_def)
  obtain b2 where b2: "return_slack b1 a n = Some b2" "buddy_inv 4096 b2" "layout b2 = layout b"
    "block_at b n a" "blk n a \<subseteq> free_all 4096 b" "free_all 4096 b2 = free_all 4096 b - blk n a"
    using request_block [OF b(1) n res] .
  have "stocked n b2 (content c)" using stocked_mono [OF b(3) b2(3)] b2(6) by blast
  then have "pcp_inv n cnt b2 c" using pcp_inv_after [OF inv b2(2,3)] b(2) by simp
  moreover have "bytes_of n (content c) \<inter> blk n a = {}" using b(3) b2(5) by (auto simp: stocked_def)
  then have "pcp_free n b2 c = pcp_free n b c - blk n a" unfolding pcp_free_def b2(6) by blast
  ultimately have "gave n cnt b c b2 c a" using b2(3-5) by (auto simp: gave_def pcp_free_def)
  then show thesis using that b2(1) by blast
qed

lemma gave_push:
  assumes g: "gave n cnt b c b' c' a" and room: "cached c' < cnt"
  shows "pcp_inv n cnt b' (fst (try_push cnt c' a))" "pcp_free n b' (fst (try_push cnt c' a)) = pcp_free n b c"
    and "cached (fst (try_push cnt c' a)) = Suc (cached c')"
proof -
  have inv: "pcp_inv n cnt b' c'" and ok: "cache_ok cnt c'" and lay: "layout b' = layout b" and at: "block_at b n a"
    and fr: "blk n a \<subseteq> pcp_free n b c" "pcp_free n b' c' = pcp_free n b c - blk n a"
    using g by (simp_all add: gave_def pcp_inv_def)
  obtain c2 where c2: "try_push cnt c' a = (c2, Inr ())" "cache_ok cnt c2" "content c2 = content c' @ [a]"
    using try_push_room [OF ok room] .
  have "blk n a \<inter> pcp_free n b' c' = {}" unfolding fr(2) by blast
  then have "stocked n b' (content c2)"
    using inv at unfolding c2(3) stocked_snoc block_at_layout [OF lay] pcp_inv_def pcp_free_def by simp
  then show "pcp_inv n cnt b' (fst (try_push cnt c' a))" using inv c2 by (simp add: pcp_inv_def)
  have "pcp_free n b' c2 = pcp_free n b' c' \<union> blk n a" by (auto simp: pcp_free_def c2(3))
  then show "pcp_free n b' (fst (try_push cnt c' a)) = pcp_free n b c" using fr(1) unfolding c2(1) fst_conv fr(2) by blast
  show "cached (fst (try_push cnt c' a)) = Suc (cached c')"
    using content_length [OF c2(2)] content_length [OF ok] c2 by simp
qed

lemma refill_each_inv:
  assumes "pcp_inv n cnt b c" "n \<le> 2 ^ 20" "cached c + m \<le> cnt"
  shows "\<exists>b' c'. refill_each n cnt m b c = Some (b', c') \<and> pcp_inv n cnt b' c' \<and> layout b' = layout b
    \<and> pcp_free n b' c' = pcp_free n b c"
  using assms
proof (induction m arbitrary: b c)
  case (Suc m)
  have b: "buddy_inv 4096 b" using Suc.prems(1) by (simp add: pcp_inv_def)
  from b show ?case
  proof (cases rule: allocate_pages_cases [where n = n and al = 4096])
    case (got a b1 pre r post r')
    obtain b2 where b2: "return_slack b1 a n = Some b2" "gave n cnt b c b2 c a"
      using request_gave [OF Suc.prems(1,2) got(2)] .
    let ?c = "fst (try_push cnt c a)"
    have room: "cached c < cnt" using Suc.prems(3) by simp
    note p = gave_push [OF b2(2) room]
    have "cached ?c + m \<le> cnt" using p(3) Suc.prems(3) by simp
    from Suc.IH [OF p(1) Suc.prems(2) this] show ?thesis using got(2) b2 p(2) by (auto simp: gave_def)
  qed (use Suc.prems in simp_all)
qed simp

text \<open>A refill whose batch request is served: the first block goes to the caller, the others into the cache.\<close>

lemma refill_batch:
  assumes inv: "pcp_inv n cnt b c" and emp: "cached c = 0" and t: "t = cnt * 2 div 3" "1 \<le> t" "t \<le> cnt" "t * n \<le> 2 ^ 20"
    and got: "allocate_pages 4096 b (t * n) 4096 = Some (b1, Inr a)"
  shows "\<exists>b2 c'. refill n cnt b c = Some (b2, c', Inr a) \<and> gave n cnt b c b2 c' a"
proof -
  have b: "buddy_inv 4096 b" and co: "cache_ok cnt c" and e: "content c = []" using inv emp by (simp_all add: pcp_inv_def content_def)
  obtain b2 where b2: "return_slack b1 a (t * n) = Some b2" "buddy_inv 4096 b2" "layout b2 = layout b"
    "block_at b (t * n) a" "blk (t * n) a \<subseteq> free_all 4096 b" "free_all 4096 b2 = free_all 4096 b - blk (t * n) a"
    using request_block [OF b t(4) got] .
  let ?f = "\<lambda>i. a + i * block_bytes n"
  define c' where "c' = fold (\<lambda>i c. fst (try_push cnt c (?f i))) [1..<t] c"
  have c': "cache_ok cnt c'" "content c' = map ?f [1..<t]"
    using fold_push [OF co, of "[1..<t]" ?f] emp t(3) e by (simp_all add: c'_def)
  have call: "refill n cnt b c = Some (b2, c', Inr a)"
    using got b2(1) unfolding refill_def c'_def t(1) by (simp add: Let_def)
  have "[0..<t] = 0 # [1..<t]" using t(2) by (simp add: upt_conv_Cons)
  then have runs: "blk n a \<union> bytes_of n (content c') = blk (t * n) a" "blk n a \<inter> bytes_of n (content c') = {}" "apart n (content c')"
    using run_of_blocks [of n a t] by (simp_all add: c'(2) apart_Cons)
  have at: "block_at b n (?f i)" if "i < t" for i
  proof -
    have "(i + 1) * n \<le> t * n" using that by (intro mult_right_mono) simp_all
    then have "?f i + n * 4096 \<le> a + t * n * 4096" by (simp add: block_bytes_def algebra_simps)
    then show ?thesis using b2(4) in_heap_sub [of b a "a + t * n * 4096" "?f i" "?f i + n * 4096"]
      by (simp add: block_at_def block_bytes_def)
  qed
  have "stocked n b2 (content c')"
    using at runs b2(6) unfolding stocked_def by (auto simp: c'(2) block_at_layout [OF b2(3)])
  then have "pcp_inv n cnt b2 c'" using pcp_inv_after [OF inv b2(2,3) c'(1)] by simp
  moreover have "pcp_free n b2 c' = pcp_free n b c - blk n a"
    unfolding pcp_free_def b2(6) e using runs(1,2) b2(5) by auto
  moreover have "blk n a \<subseteq> pcp_free n b c" using runs(1) b2(5) by (auto simp: pcp_free_def)
  ultimately have "gave n cnt b c b2 c' a" using b2(3) at [of 0] t(2) by (simp add: gave_def)
  then show ?thesis using call by blast
qed

text \<open>A refill whose batch request fails: blocks are requested one by one.\<close>

lemma refill_single:
  assumes inv: "pcp_inv n cnt b c" and emp: "cached c = 0" and t: "t = cnt * 2 div 3" "t \<le> cnt" and n: "n \<le> 2 ^ 20"
    and batch: "allocate_pages 4096 b (t * n) 4096 = Some (b, Inl e)"
  shows "(\<exists>b' c' a. refill n cnt b c = Some (b', c', Inr a) \<and> gave n cnt b c b' c' a) \<or> (\<exists>e. refill n cnt b c = Some (b, c, Inl e))"
proof -
  have b: "buddy_inv 4096 b" using inv by (simp add: pcp_inv_def)
  then show ?thesis
  proof (cases rule: allocate_pages_cases [where n = n and al = 4096])
    case (got a b1 pre r post r')
    obtain b2 where b2: "return_slack b1 a n = Some b2" "gave n cnt b c b2 c a"
      using request_gave [OF inv n got(2)] by blast
    then have g: "pcp_inv n cnt b2 c" "layout b2 = layout b" "block_at b n a" "blk n a \<subseteq> pcp_free n b c"
      "pcp_free n b2 c = pcp_free n b c - blk n a" by (simp_all add: gave_def)
    have "cached c + (t - 1) \<le> cnt" using emp t(2) by linarith
    then obtain b3 c' where r: "refill_each n cnt (t - 1) b2 c = Some (b3, c')" "pcp_inv n cnt b3 c'" "layout b3 = layout b2"
      "pcp_free n b3 c' = pcp_free n b2 c"
      using refill_each_inv [OF g(1) n] by blast
    have "refill n cnt b c = Some (b3, c', Inr a)"
      using batch got(2) b2(1) r(1) unfolding refill_def t(1) by (simp add: Let_def)
    moreover have "gave n cnt b c b3 c' a" using g r by (simp add: gave_def)
    ultimately show ?thesis by blast
  qed (use batch in \<open>simp_all add: refill_def Let_def t(1)\<close>)
qed

lemma cache_alloc_inv:
  assumes inv: "pcp_inv n cnt b c" and n: "1 \<le> n" "n \<le> 4" and cnt: "cnt \<in> {6, 12}"
  obtains (ok) b' c' a where "cache_alloc n cnt b c = Some (b', c', Inr a)" "gave n cnt b c b' c' a"
    | (err) b' c' e where "cache_alloc n cnt b c = Some (b', c', Inl e)" "pcp_inv n cnt b' c'" "layout b' = layout b"
      "pcp_free n b' c' = pcp_free n b c"
proof (cases "cached c = 0")
  case False
  have co: "cache_ok cnt c" "stocked n b (content c)" using inv by (simp_all add: pcp_inv_def)
  obtain c' x where c': "try_pop c = (c', Some x)" "cache_ok cnt c'" "content c = content c' @ [x]"
    using try_pop_some [OF co(1)] False by blast
  have st: "stocked n b (content c')" "block_at b n x" "blk n x \<inter> (free_all 4096 b \<union> bytes_of n (content c')) = {}"
    using co(2) c'(3) by (simp_all add: stocked_snoc)
  have "gave n cnt b c b c' x"
    using inv c' st unfolding gave_def pcp_inv_def pcp_free_def by auto
  then show thesis using ok c'(1) by (simp add: cache_alloc_def)
next
  case True
  define t where "t = cnt * 2 div 3"
  have b: "buddy_inv 4096 b" using inv by (simp add: pcp_inv_def)
  have t: "1 \<le> t" "t \<le> 8" "t \<le> cnt" using cnt by (auto simp: t_def)
  have ca: "cache_alloc n cnt b c = refill n cnt b c" using True by (simp add: cache_alloc_def try_pop_def)
  have tn: "t * n \<le> 2 ^ 20" "n \<le> 2 ^ 20" using mult_le_mono [OF t(2) n(2)] n(2) by simp_all
  have fall: thesis if "allocate_pages 4096 b (t * n) 4096 = Some (b, Inl e)" for e
    using refill_single [OF inv True t_def t(3) tn(2) that] ok err inv unfolding ca by blast
  from b show thesis
  proof (cases rule: allocate_pages_cases [where n = "t * n" and al = 4096])
    case (got a b1 pre r post r')
    show thesis using refill_batch [OF inv True t_def t(1,3) tn(1) got(2)] ok unfolding ca by blast
  qed (use fall in simp_all)
qed

subsection \<open>Draining\<close>

lemma pop_some_inv:
  assumes "cache_ok cnt c"
  shows "\<exists>c' xs. pop_some m c = (c', xs) \<and> cache_ok cnt c' \<and> content c = content c' @ rev xs \<and> length xs \<le> m"
  using assms
proof (induction m arbitrary: c)
  case (Suc m)
  show ?case
  proof (cases "cached c = 0")
    case True
    then show ?thesis using Suc.prems by (simp add: try_pop_empty)
  next
    case False
    then obtain c1 x where c1: "try_pop c = (c1, Some x)" "cache_ok cnt c1" "content c = content c1 @ [x]"
      using try_pop_some [OF Suc.prems] by blast
    from Suc.IH [OF c1(2)] show ?thesis using c1 by auto
  qed
qed simp

lemma extend_run_split:
  "\<exists>pre. as = pre @ snd (extend_run s e as) \<and> pre = map (\<lambda>i. e + i * s) [0..<length pre]
     \<and> fst (extend_run s e as) = e + length pre * s"
proof (induction s e as rule: extend_run.induct)
  case (2 s e a as)
  show ?case
  proof (cases "a = e")
    case True
    with 2 obtain pre where pre: "as = pre @ snd (extend_run s (a + s) as)" "pre = map (\<lambda>i. a + s + i * s) [0..<length pre]"
      "fst (extend_run s (a + s) as) = a + s + length pre * s" by auto
    have "map (\<lambda>i. e + i * s) [0..<Suc (length pre)] = e # map (\<lambda>i. e + Suc i * s) [0..<length pre]"
      by (simp only: upt_conv_Cons [of 0 "Suc (length pre)"] map_Suc_upt [symmetric]) simp
    also have "\<dots> = a # pre" using pre(2) True by (simp add: add.assoc)
    finally have "a # pre = map (\<lambda>i. e + i * s) [0..<length (a # pre)]" by simp
    then show ?thesis
    proof (intro exI [of _ "a # pre"] conjI)
      show "a # as = (a # pre) @ snd (extend_run s e (a # as))" "fst (extend_run s e (a # as)) = e + length (a # pre) * s"
        using pre(1,3) True by simp_all
    qed
  qed simp
qed simp

text \<open>Adjacent blocks lie in the same region, because no region ends where another starts.\<close>

lemma run_in_heap:
  assumes inv: "buddy_inv 4096 b" and sep: "separated b" and s: "0 < s"
    and "in_heap b lo e" "lo < e" "in_heap b e (e + s)"
  shows "in_heap b lo (e + s)"
proof -
  obtain g h where gh: "g \<in> set (regions b)" "h \<in> set (regions b)" "heap_start g \<le> lo" "e \<le> heap_end 4096 g"
    "heap_start h \<le> e" "e + s \<le> heap_end 4096 h"
    using assms(4,6) by (auto simp: in_heap_def layout_def)
  have start: "region_start r \<le> heap_start r" if "r \<in> set (regions b)" for r
    using inv that by (auto simp: buddy_inv_def region_inv_def region_ok_def area_ok_def)
  have "g = h"
  proof (rule ccontr)
    assume ne: "g \<noteq> h"
    obtain pre post where rs: "regions b = pre @ g # post" using split_list [OF gh(1)] by blast
    then have "h \<in> set pre \<or> h \<in> set post" using gh(2) ne by auto
    then have dis: "area 4096 g \<inter> area 4096 h = {}" using inv rs by (auto simp: buddy_inv_def sorted_wrt_append)
    have "e \<in> area 4096 h" using gh start [OF gh(2)] s by (auto simp: area_def)
    moreover have "region_start g \<le> e" using gh(3) start [OF gh(1)] assms(5) by linarith
    ultimately have 1: "heap_end 4096 g = e" using dis gh(4) by (fastforce simp: area_def)
    have "e - 1 \<in> area 4096 g" using gh start [OF gh(1)] assms(5) by (auto simp: area_def)
    then have "e - 1 \<notin> area 4096 h" using dis by blast
    then have "heap_start h = e" using gh(5,6) start [OF gh(2)] s by (auto simp: area_def)
    then show False using 1 sep gh(1,2) by (auto simp: separated_def layout_def)
  qed
  then show ?thesis using gh by (auto simp: in_heap_def layout_def)
qed

lemma run_in_heap_n:
  assumes inv: "buddy_inv 4096 b" and sep: "separated b" and s: "0 < s"
    and at: "\<And>i. i < m \<Longrightarrow> in_heap b (a + i * s) (a + i * s + s)" and m: "0 < m"
  shows "in_heap b a (a + m * s)"
  using m at
proof (induction m)
  case (Suc m)
  show ?case
  proof (cases "m = 0")
    case True
    then show ?thesis using Suc.prems(2) [of 0] by simp
  next
    case False
    then have "in_heap b a (a + m * s)" using Suc by simp
    moreover have "a < a + m * s" using False s by simp
    moreover have "in_heap b (a + m * s) (a + m * s + s)" using Suc.prems(2) [of m] by simp
    ultimately have "in_heap b a (a + m * s + s)" by (rule run_in_heap [OF inv sep s])
    then show ?thesis by (simp add: ac_simps)
  qed
qed simp

lemma run_starts: "map (\<lambda>i. a + i * s) [0..<Suc m] = a # map (\<lambda>i. a + s + i * s) [0..<m]"
  by (simp only: upt_conv_Cons [of 0 "Suc m"] map_Suc_upt [symmetric]) (simp add: add.assoc)

lemma free_runs_inv:
  assumes "buddy_inv 4096 b" "separated b" "stocked n b as" "length as \<le> 64" "0 < n" "n \<le> 4"
  shows "\<exists>b'. free_runs (block_bytes n) b as = Some b' \<and> buddy_inv 4096 b' \<and> layout b' = layout b
    \<and> free_all 4096 b' = free_all 4096 b \<union> bytes_of n as"
  using assms
proof (induction "length as" arbitrary: b as rule: less_induct)
  case less
  note inv = less.prems(1) and sep = less.prems(2)
  let ?s = "block_bytes n"
  show ?case
  proof (cases as)
    case (Cons a ys)
    obtain e rest where er: "extend_run ?s (a + ?s) ys = (e, rest)" by (cases "extend_run ?s (a + ?s) ys")
    obtain pre where pre: "ys = pre @ rest" "pre = map (\<lambda>i. a + ?s + i * ?s) [0..<length pre]" "e = a + ?s + length pre * ?s"
      using extend_run_split [of ys ?s "a + ?s"] unfolding er by auto
    define m where "m = Suc (length pre)"
    have run: "a # pre = map (\<lambda>i. a + i * ?s) [0..<m]" unfolding m_def run_starts by (subst pre(2)) (rule refl)
    have as: "as = (a # pre) @ rest" using Cons pre(1) by simp
    have e: "e = a + m * ?s" using pre(3) by (simp add: m_def)
    have m64: "m \<le> 64" using less.prems(4) as by (simp add: m_def)
    have st: "\<And>x. x \<in> set as \<Longrightarrow> block_at b n x" "apart n as" "bytes_of n as \<inter> free_all 4096 b = {}"
      using less.prems(3) by (simp_all add: stocked_def)
    have bytes: "bytes_of n (a # pre) = {a..<a + m * ?s}"
      unfolding run using run_of_blocks [of n a m] by (simp add: blk_def block_bytes_def mult.assoc)
    have ins: "a + i * ?s \<in> set as" if "i < m" for i
    proof -
      have "a + i * ?s \<in> set (a # pre)" unfolding run using that by auto
      then show ?thesis unfolding as set_append by (rule UnI1)
    qed
    have "in_heap b a (a + m * ?s)"
      by (rule run_in_heap_n [OF inv sep]) (use st(1) [OF ins] less.prems(5) in \<open>auto simp: block_at_def block_bytes_def m_def\<close>)
    moreover have "4096 dvd a" using st(1) [of a] as by (simp add: block_at_def)
    moreover have "m * n \<le> 64 * 4" using m64 less.prems(6) by (rule mult_le_mono)
    then have "m * ?s \<le> 2 ^ 32" by (simp add: block_bytes_def)
    moreover have "{a..<a + m * ?s} \<inter> free_all 4096 b = {}" using st(3) as bytes by auto
    ultimately obtain b1 where b1: "free_range b a (m * ?s) = Some b1" "buddy_inv 4096 b1" "layout b1 = layout b"
      "free_all 4096 b1 = free_all 4096 b \<union> bytes_of n (a # pre)"
      using free_range_inv [OF inv, of a "m * ?s"] unfolding bytes by (auto simp: block_bytes_def)
    have "apart n rest" "bytes_of n (a # pre) \<inter> bytes_of n rest = {}" using st(2) unfolding as apart_append by simp_all
    moreover have "bytes_of n rest \<inter> free_all 4096 b = {}" using st(3) unfolding as bytes_of_simps(3) by blast
    ultimately have "stocked n b1 rest"
      using st(1) as unfolding stocked_def b1(4) by (auto simp: block_at_layout [OF b1(3)])
    moreover have "length rest < length as" "length rest \<le> 64" using as less.prems(4) by simp_all
    ultimately obtain b2 where b2: "free_runs ?s b1 rest = Some b2" "buddy_inv 4096 b2" "layout b2 = layout b1"
      "free_all 4096 b2 = free_all 4096 b1 \<union> bytes_of n rest"
      using less.hyps [of rest b1] b1(2) sep separated_layout [OF b1(3)] less.prems(5,6) by blast
    have "free_runs ?s b as = Some b2" using Cons er e b1(1) b2(1) by simp
    moreover have "free_all 4096 b2 = free_all 4096 b \<union> bytes_of n as"
      unfolding b2(4) b1(4) as bytes_of_simps(3) by (simp add: Un_assoc)
    ultimately show ?thesis using b2(2,3) b1(3) by simp
  qed (use inv in simp)
qed

lemma apart_iff:
  assumes "0 < n"
  shows "apart n xs \<longleftrightarrow> distinct xs \<and> pairwise (\<lambda>x y. blk n x \<inter> blk n y = {}) (set xs)"
proof (induction xs)
  case (Cons x xs)
  have "x \<in> blk n x" using assms by (simp add: blk_def)
  then have "apart n (x # xs) \<longleftrightarrow> x \<notin> set xs \<and> (\<forall>y \<in> set xs. blk n x \<inter> blk n y = {}) \<and> apart n xs"
    by (auto simp: apart_Cons bytes_of_def)
  moreover have "pairwise (\<lambda>x y. blk n x \<inter> blk n y = {}) (set (x # xs)) \<longleftrightarrow>
      (\<forall>y \<in> set xs. y \<noteq> x \<longrightarrow> blk n x \<inter> blk n y = {}) \<and> pairwise (\<lambda>x y. blk n x \<inter> blk n y = {}) (set xs)"
    by (simp add: pairwise_insert) (metis Int_commute)
  ultimately show ?case using Cons by auto
qed (simp add: apart_def)

lemma stocked_perm:
  assumes "mset as = mset bs" "0 < n"
  shows "bytes_of n as = bytes_of n bs" "stocked n b as = stocked n b bs"
proof -
  have set: "set as = set bs" "distinct as = distinct bs"
    using assms(1) mset_eq_setD mset_eq_imp_distinct_iff by blast+
  then show "bytes_of n as = bytes_of n bs" by (simp add: bytes_of_def)
  then show "stocked n b as = stocked n b bs" using set by (simp add: stocked_def apart_iff [OF assms(2)])
qed

text \<open>A release through the cache gives back exactly the block.\<close>

lemma cache_dealloc_inv:
  assumes inv: "pcp_inv n cnt b c" and n: "1 \<le> n" "n \<le> 4" and cnt: "cnt \<in> {6, 12}"
    and at: "block_at b n a" and live: "blk n a \<inter> pcp_free n b c = {}"
  obtains b' c' where "cache_dealloc n cnt b c a = Some (b', c')" "pcp_inv n cnt b' c'" "layout b' = layout b"
    "pcp_free n b' c' = pcp_free n b c \<union> blk n a"
proof (cases "cached c < cnt")
  case True
  have co: "cache_ok cnt c" using inv by (simp add: pcp_inv_def)
  obtain c' where c': "try_push cnt c a = (c', Inr ())" "cache_ok cnt c'" "content c' = content c @ [a]"
    using try_push_room [OF co True] .
  have "stocked n b (content c')"
    using inv at live unfolding c'(3) stocked_snoc pcp_inv_def pcp_free_def by blast
  then have "pcp_inv n cnt b c'" using inv c'(2) by (simp add: pcp_inv_def)
  moreover have "pcp_free n b c' = pcp_free n b c \<union> blk n a" by (auto simp: pcp_free_def c'(3))
  ultimately show thesis using that c'(1) by (simp add: cache_dealloc_def)
next
  case False
  have b: "buddy_inv 4096 b" "separated b" and co: "cache_ok cnt c" and st: "stocked n b (content c)"
    using inv by (simp_all add: pcp_inv_def)
  let ?t = "cnt * 2 div 3"
  obtain c' xs where p: "pop_some ?t c = (c', xs)" "cache_ok cnt c'" "content c = content c' @ rev xs" "length xs \<le> ?t"
    using pop_some_inv [OF co, of ?t] by blast
  have "stocked n b (content c @ [a])" using st at live unfolding stocked_snoc pcp_free_def by blast
  then have all: "\<forall>x \<in> set (content c' @ (rev xs @ [a])). block_at b n x" "apart n (content c' @ (rev xs @ [a]))"
      "bytes_of n (content c' @ (rev xs @ [a])) \<inter> free_all 4096 b = {}"
    unfolding p(3) append_assoc stocked_def by blast+
  have go: "stocked n b (rev xs @ [a])" and stay: "stocked n b (content c')"
    and dis: "bytes_of n (content c') \<inter> bytes_of n (rev xs @ [a]) = {}"
    using all unfolding stocked_def apart_append bytes_of_simps(3) by auto
  have m: "mset (sort (a # xs)) = mset (rev xs @ [a])" by simp
  note perm = stocked_perm [OF m]
  have n0: "0 < n" using n(1) by simp
  have "length (sort (a # xs)) \<le> 64" using p(4) cnt by auto
  then obtain b' where b': "free_runs (block_bytes n) b (sort (a # xs)) = Some b'" "buddy_inv 4096 b'" "layout b' = layout b"
    "free_all 4096 b' = free_all 4096 b \<union> bytes_of n (rev xs @ [a])"
    using free_runs_inv [OF b, of n "sort (a # xs)"] go n0 n(2) unfolding perm [OF n0] by blast
  have "stocked n b' (content c')"
    using stay dis unfolding stocked_def b'(4) block_at_layout [OF b'(3)] by blast
  then have "pcp_inv n cnt b' c'" using pcp_inv_after [OF inv b'(2,3) p(2)] by simp
  moreover have "pcp_free n b' c' = pcp_free n b c \<union> blk n a"
    unfolding pcp_free_def b'(4) p(3) bytes_of_simps by (auto simp: bytes_of_def)
  moreover have "cache_dealloc n cnt b c a = Some (b', c')"
    using False b'(1) p(1) by (simp add: cache_dealloc_def try_push_full pcp_drain_def Let_def)
  ultimately show thesis using that b'(3) by blast
qed

section \<open>The four caches beside the buddy allocator\<close>

definition kalloc_inv :: "kalloc \<Rightarrow> bool" where
  "kalloc_inv k \<longleftrightarrow> (\<forall>n \<in> {1..4}. pcp_inv n (cache_count n) (palloc k) (get_cache (pageset k) n))
     \<and> (\<forall>m \<in> {1..4}. \<forall>n \<in> {1..4}. m \<noteq> n \<longrightarrow>
          bytes_of m (content (get_cache (pageset k) m)) \<inter> bytes_of n (content (get_cache (pageset k) n)) = {})"

text \<open>Free memory is what the buddy allocator has free and what the caches hold.\<close>

definition kalloc_free :: "kalloc \<Rightarrow> nat set" where
  "kalloc_free k = free_all 4096 (palloc k) \<union> (\<Union>n \<in> {1..4}. bytes_of n (content (get_cache (pageset k) n)))"

definition kalloc_extent :: "nat \<Rightarrow> nat \<Rightarrow> nat set" where
  "kalloc_extent a n = (if small n then blk n a else extent 4096 a n)"

definition kalloc_owned :: "kalloc \<Rightarrow> nat \<Rightarrow> nat \<Rightarrow> bool" where
  "kalloc_owned k a n = (if small n then block_at (palloc k) n a else owned 4096 (palloc k) a n)"

lemma UN_remove: "n \<in> A \<Longrightarrow> (\<Union>m \<in> A. f m) = f n \<union> (\<Union>m \<in> A - {n}. f m)"
  by blast

lemma get_put_cache: "\<lbrakk>m \<in> {1..4}; n \<in> {1..4}\<rbrakk> \<Longrightarrow> get_cache (put_cache n c s) m = (if m = n then c else get_cache s m)"
  by (auto simp: get_cache_def put_cache_def)

lemma put_get_cache: "n \<in> {1..4} \<Longrightarrow> put_cache n (get_cache s n) s = s"
  by (auto simp: get_cache_def put_cache_def)

lemma kalloc_owned_layout: "layout (palloc k') = layout (palloc k) \<Longrightarrow> kalloc_owned k' a n = kalloc_owned k a n"
  by (simp add: kalloc_owned_def block_at_def owned_iff in_heap_def)

lemma kalloc_invD:
  assumes "kalloc_inv k" "n \<in> {1..4}"
  shows "pcp_inv n (cache_count n) (palloc k) (get_cache (pageset k) n)"
  using assms by (simp add: kalloc_inv_def)

text \<open>
  Replacing one cache and the allocator keeps the invariant as long as the memory the two share stays
  clear of the other caches.
\<close>

lemma kalloc_update:
  assumes inv: "kalloc_inv k" and n: "n \<in> {1..4}"
    and new: "pcp_inv n (cache_count n) b' c'" and lay: "layout b' = layout (palloc k)"
    and clear: "\<forall>m \<in> {1..4} - {n}. bytes_of m (content (get_cache (pageset k) m)) \<inter> pcp_free n b' c' = {}"
  shows "kalloc_inv (k\<lparr>palloc := b', pageset := put_cache n c' (pageset k)\<rparr>)"
    and "kalloc_free (k\<lparr>palloc := b', pageset := put_cache n c' (pageset k)\<rparr>)
      = pcp_free n b' c' \<union> (\<Union>m \<in> {1..4} - {n}. bytes_of m (content (get_cache (pageset k) m)))"
proof -
  let ?c = "get_cache (pageset k)" and ?k = "k\<lparr>palloc := b', pageset := put_cache n c' (pageset k)\<rparr>"
  have g: "get_cache (pageset ?k) m = (if m = n then c' else ?c m)" if "m \<in> {1..4}" for m
    using get_put_cache [OF that n] by simp
  have clear': "bytes_of m (content (?c m)) \<inter> free_all 4096 b' = {}" "bytes_of m (content (?c m)) \<inter> bytes_of n (content c') = {}"
    if "m \<in> {1..4}" "m \<noteq> n" for m
    using clear that unfolding pcp_free_def by blast+
  have b': "buddy_inv 4096 b'" using new by (simp add: pcp_inv_def)
  have others: "pcp_inv m (cache_count m) b' (?c m)" if m: "m \<in> {1..4}" "m \<noteq> n" for m
  proof (rule pcp_inv_after [OF kalloc_invD [OF inv m(1)] b' lay])
    have old: "cache_ok (cache_count m) (?c m)" "stocked m (palloc k) (content (?c m))"
      using kalloc_invD [OF inv m(1)] by (simp_all add: pcp_inv_def)
    then show "cache_ok (cache_count m) (?c m)" by simp
    show "stocked m b' (content (?c m))"
      using old(2) clear'(1) [OF m] unfolding stocked_def block_at_layout [OF lay] by blast
  qed
  have old: "bytes_of m (content (?c m)) \<inter> bytes_of l (content (?c l)) = {}" if "m \<in> {1..4}" "l \<in> {1..4}" "m \<noteq> l" for m l
    using inv that unfolding kalloc_inv_def by blast
  show "kalloc_inv ?k"
    unfolding kalloc_inv_def
  proof (intro conjI ballI impI)
    fix m assume m: "m \<in> {1..4::nat}"
    show "pcp_inv m (cache_count m) (palloc ?k) (get_cache (pageset ?k) m)"
      unfolding g [OF m] using new others [OF m] by (cases "m = n") simp_all
    fix l assume l: "l \<in> {1..4::nat}" and ne: "m \<noteq> l"
    show "bytes_of m (content (get_cache (pageset ?k) m)) \<inter> bytes_of l (content (get_cache (pageset ?k) l)) = {}"
      unfolding g [OF m] g [OF l] using clear'(2) [OF m] clear'(2) [OF l] old [OF m l ne] ne
      by (cases "m = n"; cases "l = n") (simp_all add: Int_commute)
  qed
  have "(\<Union>m \<in> {1..4} - {n}. bytes_of m (content (get_cache (pageset ?k) m))) = (\<Union>m \<in> {1..4} - {n}. bytes_of m (content (?c m)))"
    by (rule SUP_cong [OF refl]) (use g in auto)
  then show "kalloc_free ?k = pcp_free n b' c' \<union> (\<Union>m \<in> {1..4} - {n}. bytes_of m (content (?c m)))"
    unfolding kalloc_free_def pcp_free_def UN_remove [OF n] g [OF n] by (simp add: Un_assoc)
qed

lemma kalloc_free_split:
  assumes "n \<in> {1..4}"
  shows "kalloc_free k = pcp_free n (palloc k) (get_cache (pageset k) n)
    \<union> (\<Union>m \<in> {1..4} - {n}. bytes_of m (content (get_cache (pageset k) m)))"
  unfolding kalloc_free_def pcp_free_def UN_remove [OF assms] by (simp add: Un_assoc)

lemma kalloc_others:
  assumes inv: "kalloc_inv k" and n: "n \<in> {1..4}" and m: "m \<in> {1..4}" "m \<noteq> n"
  shows "bytes_of m (content (get_cache (pageset k) m)) \<inter> pcp_free n (palloc k) (get_cache (pageset k) n) = {}"
proof -
  have "stocked m (palloc k) (content (get_cache (pageset k) m))" using kalloc_invD [OF inv m(1)] by (simp add: pcp_inv_def)
  then show ?thesis using inv n m unfolding kalloc_inv_def pcp_free_def stocked_def by blast
qed

lemma kalloc_palloc:
  assumes inv: "kalloc_inv k" and b': "buddy_inv 4096 b'" and lay: "layout b' = layout (palloc k)"
    and clear: "\<forall>n \<in> {1..4}. bytes_of n (content (get_cache (pageset k) n)) \<inter> free_all 4096 b' = {}"
  shows "kalloc_inv (k\<lparr>palloc := b'\<rparr>)"
    and "kalloc_free (k\<lparr>palloc := b'\<rparr>) = free_all 4096 b' \<union> (\<Union>n \<in> {1..4}. bytes_of n (content (get_cache (pageset k) n)))"
proof -
  let ?c = "get_cache (pageset k)"
  have "pcp_inv n (cache_count n) b' (?c n)" if n: "n \<in> {1..4}" for n
  proof (rule pcp_inv_after [OF kalloc_invD [OF inv n] b' lay])
    have old: "cache_ok (cache_count n) (?c n)" "stocked n (palloc k) (content (?c n))"
      using kalloc_invD [OF inv n] by (simp_all add: pcp_inv_def)
    then show "cache_ok (cache_count n) (?c n)" by simp
    show "stocked n b' (content (?c n))"
      using old(2) clear n unfolding stocked_def block_at_layout [OF lay] by blast
  qed
  moreover have "\<forall>m \<in> {1..4}. \<forall>n \<in> {1..4}. m \<noteq> n \<longrightarrow> bytes_of m (content (?c m)) \<inter> bytes_of n (content (?c n)) = {}"
    using inv unfolding kalloc_inv_def by blast
  ultimately show "kalloc_inv (k\<lparr>palloc := b'\<rparr>)" unfolding kalloc_inv_def by simp
  show "kalloc_free (k\<lparr>palloc := b'\<rparr>) = free_all 4096 b' \<union> (\<Union>n \<in> {1..4}. bytes_of n (content (?c n)))"
    by (simp add: kalloc_free_def)
qed

lemma kalloc_buddy:
  assumes "kalloc_inv k"
  shows "buddy_inv 4096 (palloc k)"
    and "n \<in> {1..4} \<Longrightarrow> bytes_of n (content (get_cache (pageset k) n)) \<inter> free_all 4096 (palloc k) = {}"
  using kalloc_invD [OF assms, of 1] kalloc_invD [OF assms, of n] by (simp_all add: pcp_inv_def stocked_def)

lemma small_iff: "small n \<longleftrightarrow> n \<in> {1..4}"
  by (simp add: small_def)

lemma cache_count_range: "cache_count n \<in> {6, 12}"
  by (simp add: cache_count_def)

subsection \<open>Small blocks through the caches\<close>

lemma alloc_pages_cached:
  assumes inv: "kalloc_inv k" and n: "small n" and al: "al \<le> 4096"
  obtains (ok) k' a where "alloc_pages k n al = Some (k', Inr a)" "kalloc_inv k'" "layout (palloc k') = layout (palloc k)"
      "block_at (palloc k) n a" "blk n a \<subseteq> kalloc_free k" "kalloc_free k' = kalloc_free k - blk n a"
    | (err) k' e where "alloc_pages k n al = Some (k', Inl e)" "kalloc_inv k'" "layout (palloc k') = layout (palloc k)"
      "kalloc_free k' = kalloc_free k"
proof -
  let ?c = "get_cache (pageset k) n" and ?up = "\<lambda>b' c'. k\<lparr>palloc := b', pageset := put_cache n c' (pageset k)\<rparr>"
  let ?rest = "\<Union>m \<in> {1..4} - {n}. bytes_of m (content (get_cache (pageset k) m))"
  have n4: "n \<in> {1..4}" "1 \<le> n" "n \<le> 4" using n by (simp_all add: small_def)
  have pinv: "pcp_inv n (cache_count n) (palloc k) ?c" by (rule kalloc_invD [OF inv n4(1)])
  have call: "alloc_pages k n al = do {
      (b, c, res) \<leftarrow> cache_alloc n (cache_count n) (palloc k) ?c; Some (?up b c, res) }"
  proof (cases "cached ?c = 0")
    case True
    then have "pcp_try_alloc k n = (k, None)" using n put_get_cache [OF n4(1)] by (simp add: pcp_try_alloc_def try_pop_empty)
    then show ?thesis using n al by (simp add: alloc_pages_def fill_cache_def)
  next
    case False
    then obtain c' x where "try_pop ?c = (c', Some x)"
      using try_pop_some [of "cache_count n" ?c] pinv unfolding pcp_inv_def by blast
    then show ?thesis using n al by (simp add: alloc_pages_def pcp_try_alloc_def cache_alloc_def)
  qed
  have clear: "\<forall>m \<in> {1..4} - {n}. bytes_of m (content (get_cache (pageset k) m)) \<inter> F = {}"
    if "F \<subseteq> pcp_free n (palloc k) ?c" for F
    using kalloc_others [OF inv n4(1)] that by blast
  from pinv n4(2,3) cache_count_range show thesis
  proof (cases rule: cache_alloc_inv)
    case (ok b' c' a)
    have g: "pcp_inv n (cache_count n) b' c'" "layout b' = layout (palloc k)" "block_at (palloc k) n a"
      "blk n a \<subseteq> pcp_free n (palloc k) ?c" "pcp_free n b' c' = pcp_free n (palloc k) ?c - blk n a"
      using ok(2) by (simp_all add: gave_def)
    have "pcp_free n b' c' \<subseteq> pcp_free n (palloc k) ?c" using g(5) by blast
    note up = kalloc_update [OF inv n4(1) g(1,2) clear [OF this]]
    have "?rest \<inter> blk n a = {}" using clear [OF g(4)] by blast
    then have "kalloc_free (?up b' c') = kalloc_free k - blk n a"
      unfolding up(2) kalloc_free_split [OF n4(1), of k] g(5) by blast
    moreover have "blk n a \<subseteq> kalloc_free k" using g(4) unfolding kalloc_free_split [OF n4(1), of k] by blast
    moreover have "alloc_pages k n al = Some (?up b' c', Inr a)" using call ok(1) by simp
    ultimately show thesis using that(1) up(1) g(2,3) by simp
  next
    case (err b' c' e)
    note up = kalloc_update [OF inv n4(1) err(2,3) clear [OF equalityD1 [OF err(4)]]]
    have "kalloc_free (?up b' c') = kalloc_free k" unfolding up(2) kalloc_free_split [OF n4(1), of k] err(4) ..
    moreover have "alloc_pages k n al = Some (?up b' c', Inl e)" using call err(1) by simp
    ultimately show thesis using that(2) up(1) err(3) by simp
  qed
qed

lemma dealloc_pages_cached:
  assumes inv: "kalloc_inv k" and n: "small n" and at: "block_at (palloc k) n a" and live: "blk n a \<inter> kalloc_free k = {}"
  obtains k' where "dealloc_pages k a n = Some k'" "kalloc_inv k'" "layout (palloc k') = layout (palloc k)"
    "kalloc_free k' = kalloc_free k \<union> blk n a"
proof -
  let ?c = "get_cache (pageset k) n" and ?up = "\<lambda>b' c'. k\<lparr>palloc := b', pageset := put_cache n c' (pageset k)\<rparr>"
  have n4: "n \<in> {1..4}" "1 \<le> n" "n \<le> 4" using n by (simp_all add: small_def)
  have pinv: "pcp_inv n (cache_count n) (palloc k) ?c" by (rule kalloc_invD [OF inv n4(1)])
  have call: "dealloc_pages k a n = do {
      (b, c) \<leftarrow> cache_dealloc n (cache_count n) (palloc k) ?c a; Some (?up b c) }"
  proof (cases "cached ?c < cache_count n")
    case True
    then obtain c' where "try_push (cache_count n) ?c a = (c', Inr ())"
      using try_push_room [of "cache_count n" ?c] pinv unfolding pcp_inv_def by blast
    then show ?thesis using n by (simp add: dealloc_pages_def pcp_try_free_def cache_dealloc_def)
  next
    case False
    then have "pcp_try_free k n a = (k, False)" using n put_get_cache [OF n4(1)] by (simp add: pcp_try_free_def try_push_full)
    then show ?thesis using n by (simp add: dealloc_pages_def drain_cache_def)
  qed
  have live': "blk n a \<inter> pcp_free n (palloc k) ?c = {}" using live unfolding kalloc_free_split [OF n4(1), of k] by blast
  obtain b' c' where d: "cache_dealloc n (cache_count n) (palloc k) ?c a = Some (b', c')" "pcp_inv n (cache_count n) b' c'"
    "layout b' = layout (palloc k)" "pcp_free n b' c' = pcp_free n (palloc k) ?c \<union> blk n a"
    using cache_dealloc_inv [OF pinv n4(2,3) cache_count_range at live'] .
  have "\<forall>m \<in> {1..4} - {n}. bytes_of m (content (get_cache (pageset k) m)) \<inter> pcp_free n b' c' = {}"
    using kalloc_others [OF inv n4(1)] live unfolding d(4) kalloc_free_def by blast
  note up = kalloc_update [OF inv n4(1) d(2,3) this]
  have "kalloc_free (?up b' c') = kalloc_free k \<union> blk n a"
    unfolding up(2) kalloc_free_split [OF n4(1), of k] d(4) by blast
  then show thesis using that [of "?up b' c'"] up(1) d(1,3) call by simp
qed

end
