(* ===== verification/KAlloc.thy ===== *)
theory KAlloc
  imports PcpInv
begin

text \<open>
  The page entry points of \<open>src/mm/kalloc/src/lib.rs\<close> keep the contract of a page allocator through the
  per-CPU caches: interpretation of \<open>page_allocator\<close> on \<open>alloc_pages\<close>, \<open>alloc_pages_at\<close> and
  \<open>dealloc_pages\<close>, and the one combination of requests for which they do not.
\<close>

section \<open>Requests that bypass the caches\<close>








lemma bypass_alloc:
  assumes inv: "kalloc_inv k" and res: "serve 4096 (palloc k) q = Some (b', out)"
  shows "kalloc_inv (k\<lparr>palloc := b'\<rparr>)" "layout b' = layout (palloc k)"
    and "out = Inr a \<Longrightarrow> owned 4096 b' a (request_pages q) \<and> extent 4096 a (request_pages q) \<subseteq> free_all 4096 (palloc k)
      \<and> kalloc_free (k\<lparr>palloc := b'\<rparr>) = kalloc_free k - extent 4096 a (request_pages q)"
    and "out = Inl e \<Longrightarrow> kalloc_free (k\<lparr>palloc := b'\<rparr>) = kalloc_free k"
proof -
  note b = kalloc_buddy [OF inv]
  show lay: "layout b' = layout (palloc k)" using layout_same [OF serve_area [OF b(1) res]] .
  have sub: "buddy_inv 4096 b' \<and> free_all 4096 b' \<subseteq> free_all 4096 (palloc k)"
    using buddy_pages.alloc_got [OF b(1), of q b'] buddy_pages.alloc_err [OF b(1), of q b'] res by (cases out) auto
  have "\<forall>n \<in> {1..4}. bytes_of n (content (get_cache (pageset k) n)) \<inter> free_all 4096 b' = {}"
    using b(2) sub by blast
  note up = kalloc_palloc [OF inv conjunct1 [OF sub] lay this]
  show "kalloc_inv (k\<lparr>palloc := b'\<rparr>)" by (rule up(1))
  show "kalloc_free (k\<lparr>palloc := b'\<rparr>) = kalloc_free k" if "out = Inl e"
    using buddy_pages.alloc_err [OF b(1), of q b' e] res that up(2) by (simp add: kalloc_free_def)
  show "owned 4096 b' a (request_pages q) \<and> extent 4096 a (request_pages q) \<subseteq> free_all 4096 (palloc k)
      \<and> kalloc_free (k\<lparr>palloc := b'\<rparr>) = kalloc_free k - extent 4096 a (request_pages q)" if "out = Inr a"
  proof -
    let ?x = "extent 4096 a (request_pages q)" and ?c = "\<Union>n \<in> {1..4}. bytes_of n (content (get_cache (pageset k) n))"
    have got: "owned 4096 b' a (request_pages q)" "?x \<subseteq> free_all 4096 (palloc k)"
      "free_all 4096 b' = free_all 4096 (palloc k) - ?x"
      using buddy_pages.alloc_got [OF b(1), of q b' a] res that by simp_all
    have "?c \<inter> ?x = {}" using b(2) got(2) by blast
    then have "kalloc_free (k\<lparr>palloc := b'\<rparr>) = kalloc_free k - ?x" unfolding up(2) kalloc_free_def [of k] got(3) by blast
    then show ?thesis using got by blast
  qed
qed

lemma bypass_dealloc:
  assumes inv: "kalloc_inv k" and own: "owned 4096 (palloc k) a n" and live: "extent 4096 a n \<inter> kalloc_free k = {}"
  obtains b' where "deallocate_pages 4096 (palloc k) a n = Some b'" "kalloc_inv (k\<lparr>palloc := b'\<rparr>)"
    "layout b' = layout (palloc k)" "kalloc_free (k\<lparr>palloc := b'\<rparr>) = kalloc_free k \<union> extent 4096 a n"
proof -
  note b = kalloc_buddy [OF inv]
  have "extent 4096 a n \<inter> free_all 4096 (palloc k) = {}" using live unfolding kalloc_free_def by blast
  then obtain b' where b': "deallocate_pages 4096 (palloc k) a n = Some b'" "buddy_inv 4096 b'"
    "free_all 4096 b' = free_all 4096 (palloc k) \<union> extent 4096 a n"
    using buddy_pages.dealloc_ok [OF b(1) own] by blast
  have lay: "layout b' = layout (palloc k)" using layout_same [OF deallocate_area [OF b'(1)]] .
  have "\<forall>m \<in> {1..4}. bytes_of m (content (get_cache (pageset k) m)) \<inter> free_all 4096 b' = {}"
    using b(2) live unfolding b'(3) kalloc_free_def by blast
  note up = kalloc_palloc [OF inv b'(2) lay this]
  have "kalloc_free (k\<lparr>palloc := b'\<rparr>) = kalloc_free k \<union> extent 4096 a n"
    unfolding up(2) b'(3) kalloc_free_def [of k] by blast
  then show thesis using that b'(1) lay up(1) by blast
qed

section \<open>The contract\<close>

fun kalloc_serve :: "kalloc \<Rightarrow> page_request \<Rightarrow> (kalloc \<times> (alloc_error + nat)) option" where
  "kalloc_serve k (AnyPages n al) = alloc_pages k n al"
| "kalloc_serve k (PagesAt base n al) = alloc_pages_at k base n al"


definition via_cache :: "page_request \<Rightarrow> bool" where
  "via_cache q = (case q of AnyPages n al \<Rightarrow> small n \<and> al \<le> 4096 | PagesAt base n al \<Rightarrow> False)"


lemma serve_bypass:
  "\<not> via_cache q \<Longrightarrow> kalloc_serve k q = do { (b, res) \<leftarrow> serve 4096 (palloc k) q; Some (k\<lparr>palloc := b\<rparr>, res) }"
  by (cases q) (auto simp: via_cache_def alloc_pages_def alloc_pages_at_def)




section \<open>A fresh allocator\<close>

definition kalloc_new :: "buddy \<Rightarrow> kalloc" where
  "kalloc_new b = \<lparr>palloc = b, pageset = page_set_new\<rparr>"

lemma new_cache: "n \<in> {1..4} \<Longrightarrow> get_cache page_set_new n = cache_new (cache_count n)"
  by (auto simp: get_cache_def page_set_new_def cache_count_def)

lemma new_content: "content (cache_new cnt) = []" "cache_ok cnt (cache_new cnt)"
  by (simp_all add: content_def cache_ok_def cache_new_def)

lemma kalloc_new_inv:
  assumes "buddy_inv 4096 b" "separated b"
  shows "kalloc_inv (kalloc_new b)" "kalloc_free (kalloc_new b) = free_all 4096 b"
  using assms by (simp_all add: kalloc_inv_def kalloc_free_def kalloc_new_def new_cache new_content pcp_inv_def)

lemma demo_separated: "\<lbrakk>regions b = [r]; free_all 4096 b \<noteq> {}; buddy_inv 4096 b\<rbrakk> \<Longrightarrow> separated b"
proof -
  assume r: "regions b = [r]" and ne: "free_all 4096 b \<noteq> {}" and inv: "buddy_inv 4096 b"
  have "free_bytes 4096 r \<subseteq> {heap_start r..<heap_end 4096 r}"
    using free_in_heap [of 4096 r] inv r by (simp add: buddy_inv_def region_inv_def)
  then have "heap_start r < heap_end 4096 r" using ne r by (fastforce simp: free_all_def)
  then show ?thesis using r by (simp add: separated_def layout_def)
qed




text \<open>DMA memory lies below 4 GiB; a block above that bound is handed back whole.\<close>

lemma alloc_dma_pages_ok:
  assumes inv: "kalloc_inv k"
  shows "\<exists>k' res. alloc_dma_pages v2p k n al = Some (k', res) \<and> kalloc_inv k'
    \<and> (case res of
         Inr a \<Rightarrow> v2p a + n * 4096 \<le> 0x100000000 \<and> owned 4096 (palloc k') a n \<and> extent 4096 a n \<subseteq> kalloc_free k
           \<and> kalloc_free k' = kalloc_free k - extent 4096 a n
       | Inl e \<Rightarrow> kalloc_free k' = kalloc_free k)"
proof -
  obtain b res where r: "serve 4096 (palloc k) (AnyPages n al) = Some (b, res)"
    using buddy_pages.alloc_returns [OF kalloc_buddy(1) [OF inv], of "AnyPages n al"] by auto
  let ?k = "k\<lparr>palloc := b\<rparr>"
  note byp = bypass_alloc [OF inv r]
  show ?thesis
  proof (cases res)
    case (Inl e)
    then show ?thesis using r byp(1,4) by (simp add: alloc_dma_pages_def)
  next
    case (Inr a)
    have got: "owned 4096 b a n" "extent 4096 a n \<subseteq> kalloc_free k" "kalloc_free ?k = kalloc_free k - extent 4096 a n"
      using byp(3) [OF Inr] unfolding request_pages.simps kalloc_free_def [of k] by blast+
    show ?thesis
    proof (cases "v2p a + n * 4096 > 0x100000000")
      case True
      have "owned 4096 (palloc ?k) a n" "extent 4096 a n \<inter> kalloc_free ?k = {}" using got(1) unfolding got(3) by auto
      from bypass_dealloc [OF byp(1) this] obtain b2 where b2: "deallocate_pages 4096 b a n = Some b2"
        "kalloc_inv (?k\<lparr>palloc := b2\<rparr>)" "kalloc_free (?k\<lparr>palloc := b2\<rparr>) = kalloc_free ?k \<union> extent 4096 a n" by auto
      moreover have "kalloc_free ?k \<union> extent 4096 a n = kalloc_free k" using got(2,3) by blast
      ultimately show ?thesis using r Inr True by (simp add: alloc_dma_pages_def)
    next
      case False
      then show ?thesis using r Inr got byp(1) by (simp add: alloc_dma_pages_def)
    qed
  qed
qed

section \<open>Properties\<close>






text \<open>
  C20. A three-page block asked for with more than page alignment bypasses the cache and takes four
  pages, but releasing it returns three: the fourth page, which was free before, is in no allocator
  afterwards.
\<close>

theorem aligned_three_pages_leak:
  assumes "kalloc_inv k" "4096 < al" "alloc_pages k 3 al = Some (k1, Inr a)"
  shows "\<exists>k2. dealloc_pages k1 a 3 = Some k2 \<and> blk 1 (a + 3 * 4096) \<subseteq> kalloc_free k
    \<and> kalloc_free k2 = kalloc_free k - blk 1 (a + 3 * 4096)"
proof -
  have by_: "kalloc_serve k (AnyPages 3 al) = do { (b, res) \<leftarrow> serve 4096 (palloc k) (AnyPages 3 al); Some (k\<lparr>palloc := b\<rparr>, res) }"
    by (rule serve_bypass) (use assms(2) in \<open>simp add: via_cache_def\<close>)
  then obtain b' where res: "serve 4096 (palloc k) (AnyPages 3 al) = Some (b', Inr a)" and k1: "k1 = k\<lparr>palloc := b'\<rparr>"
    using assms(3) by (auto split: bind_splits)
  note byp = bypass_alloc [OF assms(1) res]
  have ext: "extent 4096 a 3 = {a..<a + 16384}" by (simp add: extent_def cover_def count_order_3 order_size_def order_pages_def)
  have sub: "{a..<a + 16384} \<subseteq> kalloc_free k" and free: "kalloc_free k1 = kalloc_free k - {a..<a + 16384}"
    and own: "owned 4096 b' a 3"
    using byp(3) [OF refl] unfolding k1 request_pages.simps ext kalloc_free_def [of k] by blast+
  have "16384 dvd a" "in_heap b' a (a + 16384)"
    using own by (simp_all add: owned_iff count_order_3 order_size_def order_pages_def)
  then have at: "block_at (palloc k1) 3 a"
    using in_heap_sub [of b' a "a + 16384" a "a + 12288"] dvd_trans [of 4096 16384 a] by (simp add: block_at_def k1)
  have split: "{a..<a + 16384} = blk 3 a \<union> blk 1 (a + 3 * 4096)" "blk 3 a \<inter> blk 1 (a + 3 * 4096) = {}"
    by (auto simp: blk_def)
  have "small 3" by (simp add: small_def)
  moreover have "blk 3 a \<inter> kalloc_free k1 = {}" unfolding free split(1) by blast
  moreover have "kalloc_inv k1" using byp(1) k1 by simp
  ultimately obtain k2 where k2: "dealloc_pages k1 a 3 = Some k2" "kalloc_free k2 = kalloc_free k1 \<union> blk 3 a"
    using dealloc_pages_cached [OF _ _ at] by metis
  have "kalloc_free k2 = kalloc_free k - blk 1 (a + 3 * 4096)"
    using sub split(2) unfolding k2(2) free split(1) by blast
  then show ?thesis using k2(1) sub unfolding split(1) by blast
qed

theorem aligned_three_pages_leak_witness:
  "\<exists>b0 k1 k2 a. buddy_setup 24 4096 b0 \<and> alloc_pages (kalloc_new b0) 3 8192 = Some (k1, Inr a)
     \<and> dealloc_pages k1 a 3 = Some k2 \<and> a + 12288 \<in> kalloc_free (kalloc_new b0) \<and> a + 12288 \<notin> kalloc_free k2"
proof -
  obtain b0 r where b0: "buddy_setup 24 4096 b0" "regions b0 = [r]" "free_all 4096 b0 = {0x100000..<0x200000}"
    by (rule demo_setup)
  have inv: "buddy_inv 4096 b0" using buddy_setup_inv [OF b0(1)] by simp
  have sep: "separated b0" by (rule demo_separated [OF b0(2) _ inv]) (simp add: b0(3))
  have k0: "kalloc_inv (kalloc_new b0)" by (rule kalloc_new_inv(1) [OF inv sep])
  have run: "run_free 4096 r 2 8192 0x100000"
    using b0(2,3) by (simp add: run_free_def free_all_def cover_def order_size_def order_pages_def)
  have pow: "is_pow2 8192" unfolding is_pow2_iff by (rule exI [of _ 13]) simp
  obtain b' a where "allocate_pages 4096 b0 3 8192 = Some (b', Inr a)"
    using inv
  proof (cases rule: allocate_pages_cases [where n = 3 and al = 8192])
    case full
    then show thesis using run b0(2) by (simp add: eff_align_def count_order_3)
  next
    case bad
    then show thesis using pow by (simp add: valid_request_def eff_align_def count_order_3)
  qed (use that in blast)
  then have al: "alloc_pages (kalloc_new b0) 3 8192 = Some (kalloc_new b0\<lparr>palloc := b'\<rparr>, Inr a)"
    by (simp add: alloc_pages_def kalloc_new_def)
  have "(4096::nat) < 8192" by simp
  from aligned_three_pages_leak [OF k0 this al] b0(1) al show ?thesis by (auto simp: blk_def subset_iff)
qed

end
