(* ===== verification/SchedTypes.thy ===== *)
theory SchedTypes
  imports Prelude
begin

text \<open>
  The data of the scheduler crate \<open>src/task/ksched\<close>: policies and attributes (\<open>policy.rs\<close>), build
  settings (\<open>config.rs\<close>), the run queue clock (\<open>clock.rs\<close>), scheduled tasks (\<open>entity.rs\<close>) and the small
  enumerations of \<open>class.rs\<close>. Unsigned machine integers are natural numbers with saturation written out;
  natural subtraction is \<open>saturating_sub\<close>. Tasks are shared objects, so they live in a store and are
  named by their address.
\<close>

abbreviation (input) U64_MAX :: nat where "U64_MAX \<equiv> 2 ^ 64 - 1"

definition sat_add :: "nat \<Rightarrow> nat \<Rightarrow> nat" where
  "sat_add a b = min (a + b) U64_MAX"

definition sat_mul :: "nat \<Rightarrow> nat \<Rightarrow> nat" where
  "sat_mul a b = min (a * b) U64_MAX"

section \<open>Policies and attributes\<close>

datatype sched_class = CStop | CDeadline | CRt | CFair | CIdle

definition class_as_u8 :: "sched_class \<Rightarrow> nat" where
  "class_as_u8 c = (case c of CStop \<Rightarrow> 0 | CDeadline \<Rightarrow> 1 | CRt \<Rightarrow> 2 | CFair \<Rightarrow> 3 | CIdle \<Rightarrow> 4)"

definition class_from_u8 :: "nat \<Rightarrow> sched_class" where
  "class_from_u8 raw =
     (if raw = 0 then CStop else if raw = 1 then CDeadline else if raw = 2 then CRt
      else if raw = 4 then CIdle else CFair)"

definition is_above :: "sched_class \<Rightarrow> sched_class \<Rightarrow> bool" where
  "is_above c d \<longleftrightarrow> class_as_u8 c < class_as_u8 d"

definition is_kernel_only :: "sched_class \<Rightarrow> bool" where
  "is_kernel_only c \<longleftrightarrow> c = CStop \<or> c = CIdle"

datatype sched_error = InvalidPolicy | InvalidPriority | InvalidNice | AdmissionFull | KernelClassImmutable

datatype sched_policy = SNormal | SFifo | SRr | SBatch | SIdle | SDeadline

definition policy_from_raw :: "nat \<Rightarrow> sched_error + sched_policy" where
  "policy_from_raw raw =
     (if raw = 0 then Inr SNormal else if raw = 1 then Inr SFifo else if raw = 2 then Inr SRr
      else if raw = 3 then Inr SBatch else if raw = 5 then Inr SIdle else if raw = 6 then Inr SDeadline
      else Inl InvalidPolicy)"

definition policy_class :: "sched_policy \<Rightarrow> sched_class" where
  "policy_class p =
     (case p of SFifo \<Rightarrow> CRt | SRr \<Rightarrow> CRt | SDeadline \<Rightarrow> CDeadline | SNormal \<Rightarrow> CFair | SBatch \<Rightarrow> CFair | SIdle \<Rightarrow> CFair)"

definition is_realtime :: "sched_policy \<Rightarrow> bool" where
  "is_realtime p \<longleftrightarrow> p = SFifo \<or> p = SRr"

abbreviation (input) MIN_RT_PRIORITY :: nat where "MIN_RT_PRIORITY \<equiv> 1"
abbreviation (input) MAX_RT_PRIORITY :: nat where "MAX_RT_PRIORITY \<equiv> 99"
abbreviation (input) RT_PRIO_LEVELS :: nat where "RT_PRIO_LEVELS \<equiv> 99"

definition rt_prio_new :: "int \<Rightarrow> sched_error + nat" where
  "rt_prio_new v = (if v < int MIN_RT_PRIORITY \<or> v > int MAX_RT_PRIORITY then Inl InvalidPriority else Inr (nat v))"

definition nice_new :: "int \<Rightarrow> sched_error + int" where
  "nice_new v = (if v < -20 \<or> v > 19 then Inl InvalidNice else Inr v)"

definition nice_new_clamped :: "int \<Rightarrow> int" where
  "nice_new_clamped v = (if v < -20 then -20 else if v > 19 then 19 else v)"

definition to_getpriority_raw :: "int \<Rightarrow> int" where
  "to_getpriority_raw nice = 20 - nice"

text \<open>\<open>20i32.saturating_sub(raw)\<close>.\<close>

definition from_getpriority_raw :: "int \<Rightarrow> int" where
  "from_getpriority_raw raw = nice_new_clamped (max (- (2 ^ 31)) (min (2 ^ 31 - 1) (20 - raw)))"

definition NICE_TO_WEIGHT :: "nat list" where
  "NICE_TO_WEIGHT =
     [88761, 71755, 56483, 46273, 36291, 29154, 23254, 18705, 14949, 11916, 9548, 7620, 6100, 4904,
      3906, 3121, 2501, 1991, 1586, 1277, 1024, 820, 655, 526, 423, 335, 272, 215, 172, 137, 110, 87,
      70, 56, 45, 36, 29, 23, 18, 15]"

definition nice_weight :: "int \<Rightarrow> nat" where
  "nice_weight nice = NICE_TO_WEIGHT ! nat (nice + 20)"

abbreviation (input) NICE_0_WEIGHT :: int where "NICE_0_WEIGHT \<equiv> 1024"

text \<open>The build settings of \<open>kbuild_config\<close> that \<open>config.rs\<close> reads.\<close>

record sched_config =
  fair_request_us :: nat
  rr_slice_us :: nat
  rt_period_us :: nat
  rt_runtime_us :: nat
  dl_min_runtime_us :: nat
  dl_bw_margin_pct :: nat

definition us_to_ns :: "nat \<Rightarrow> nat" where
  "us_to_ns us = us * 1000"

definition clamp_runtime_ns :: "nat \<Rightarrow> nat \<Rightarrow> nat" where
  "clamp_runtime_ns runtime_us period_us =
     (let period = us_to_ns period_us; runtime = us_to_ns runtime_us in if runtime > period then period else runtime)"

definition default_slice_ns :: "sched_config \<Rightarrow> nat" where
  "default_slice_ns cfg = us_to_ns (fair_request_us cfg)"

definition default_rr_slice_ns :: "sched_config \<Rightarrow> nat" where
  "default_rr_slice_ns cfg = us_to_ns (rr_slice_us cfg)"

definition default_rt_period_ns :: "sched_config \<Rightarrow> nat" where
  "default_rt_period_ns cfg = us_to_ns (rt_period_us cfg)"

definition default_rt_runtime_ns :: "sched_config \<Rightarrow> nat" where
  "default_rt_runtime_ns cfg = clamp_runtime_ns (rt_runtime_us cfg) (rt_period_us cfg)"

definition min_dl_runtime_ns :: "sched_config \<Rightarrow> nat" where
  "min_dl_runtime_ns cfg = us_to_ns (dl_min_runtime_us cfg)"

definition dl_bw_margin_ppm :: "sched_config \<Rightarrow> nat" where
  "dl_bw_margin_ppm cfg = dl_bw_margin_pct cfg * 10000"

record dl_params =
  runtime_ns :: nat
  rel_deadline_ns :: nat
  period_ns :: nat

definition dl_params_new :: "sched_config \<Rightarrow> nat \<Rightarrow> nat \<Rightarrow> nat \<Rightarrow> sched_error + dl_params" where
  "dl_params_new cfg runtime deadline period =
     (if runtime = 0 \<or> deadline = 0 \<or> period = 0 \<or> runtime > deadline \<or> deadline > period
         \<or> runtime < min_dl_runtime_ns cfg
      then Inl InvalidPolicy
      else Inr \<lparr>runtime_ns = runtime, rel_deadline_ns = deadline, period_ns = period\<rparr>)"

definition load_ppm :: "dl_params \<Rightarrow> nat" where
  "load_ppm p = (if period_ns p = 0 then 0 else min (runtime_ns p * 1000000 div period_ns p) U64_MAX)"

record sched_attr =
  policy :: sched_policy
  nice :: int
  rt_priority :: nat
  dl_params :: "dl_params option"

definition attr_default :: sched_attr where
  "attr_default = \<lparr>policy = SNormal, nice = 0, rt_priority = 0, dl_params = None\<rparr>"

definition attr_class :: "sched_attr \<Rightarrow> sched_class" where
  "attr_class a = policy_class (policy a)"

definition attr_validate :: "sched_config \<Rightarrow> sched_attr \<Rightarrow> sched_error + unit" where
  "attr_validate cfg a =
     (if policy a = SFifo \<or> policy a = SRr then
        if dl_params a \<noteq> None then Inl InvalidPolicy
        else if rt_priority a < MIN_RT_PRIORITY \<or> rt_priority a > MAX_RT_PRIORITY then Inl InvalidPriority
        else Inr ()
      else if policy a = SDeadline then
        (case dl_params a of
           Some p \<Rightarrow> (case dl_params_new cfg (runtime_ns p) (rel_deadline_ns p) (period_ns p) of Inr _ \<Rightarrow> Inr () | Inl e \<Rightarrow> Inl e)
         | None \<Rightarrow> Inl InvalidPolicy)
      else if dl_params a \<noteq> None then Inl InvalidPolicy
      else if rt_priority a \<noteq> 0 then Inl InvalidPriority
      else Inr ())"

section \<open>The run queue clock\<close>

record rq_clock =
  now_ns :: nat
  last_ns :: nat

definition clock_new :: "nat \<Rightarrow> rq_clock" where
  "clock_new now = \<lparr>now_ns = now, last_ns = now\<rparr>"

definition clock_advance :: "rq_clock \<Rightarrow> nat \<Rightarrow> rq_clock \<times> nat" where
  "clock_advance c now =
     (\<lparr>now_ns = max now (now_ns c), last_ns = (if now \<ge> last_ns c then now else last_ns c)\<rparr>, now - last_ns c)"

section \<open>Operations and reasons\<close>

datatype enqueue_kind = ENew | EWake bool | EMigrateIn | EClassChange

datatype leave_reason = LYield | LPreempt | LBlock | LMigrate | LExit

datatype update_kind = UAccount | USchedTick | UWakeProbe

record sched_decision =
  resched :: bool
  next_event_ns :: "nat option"

section \<open>Tasks\<close>

datatype queue_seat = QDetached | QStop | QDeadline | QRt | QFair | QIdle

definition seat_from_u8 :: "nat \<Rightarrow> queue_seat" where
  "seat_from_u8 raw =
     (if raw = 1 then QStop else if raw = 2 then QDeadline else if raw = 3 then QRt
      else if raw = 4 then QFair else if raw = 5 then QIdle else QDetached)"

definition seat_as_u8 :: "queue_seat \<Rightarrow> nat" where
  "seat_as_u8 s = (case s of QDetached \<Rightarrow> 0 | QStop \<Rightarrow> 1 | QDeadline \<Rightarrow> 2 | QRt \<Rightarrow> 3 | QFair \<Rightarrow> 4 | QIdle \<Rightarrow> 5)"

definition seat_from_sched_class :: "sched_class \<Rightarrow> queue_seat" where
  "seat_from_sched_class c = (case c of CStop \<Rightarrow> QStop | CDeadline \<Rightarrow> QDeadline | CRt \<Rightarrow> QRt | CFair \<Rightarrow> QFair | CIdle \<Rightarrow> QIdle)"

text \<open>
  The EEVDF fields, the round-robin fields and the deadline fields of a task. A link field records
  whether the task is linked in the tree; for the realtime lists it is the identity of the list
  (run queue and level) that links the task.
\<close>

record fair_entity =
  vruntime :: int
  deadline :: int
  vlag :: int
  slice_left_ns :: nat
  request_ns :: nat
  weight :: nat
  tree_id :: nat
  deadline_link :: bool
  vruntime_link :: bool

record rt_entity =
  rr_left_ns :: nat
  rr_rotate :: bool

record deadline_entity =
  budget_left_ns :: nat
  deadline_ns :: nat
  period_start_ns :: nat
  is_active :: bool
  is_throttled :: bool
  dl_tree_id :: nat
  ready_link :: bool
  throttled_link :: bool

record sched_task =
  class_byte :: nat
  rt_prio :: nat
  sum_exec_runtime_ns :: nat
  seat :: queue_seat
  attr :: sched_attr
  fair :: fair_entity
  rt :: rt_entity
  rt_links :: "(nat \<times> nat) option"
  dl :: deadline_entity

definition fair_entity_new :: "nat \<Rightarrow> fair_entity" where
  "fair_entity_new request =
     \<lparr>vruntime = 0, deadline = 0, vlag = 0, slice_left_ns = request, request_ns = request,
      weight = nice_weight 0, tree_id = 0, deadline_link = False, vruntime_link = False\<rparr>"

definition rt_entity_new :: "nat \<Rightarrow> rt_entity" where
  "rt_entity_new rr_slice = \<lparr>rr_left_ns = rr_slice, rr_rotate = False\<rparr>"

definition deadline_entity_new :: deadline_entity where
  "deadline_entity_new =
     \<lparr>budget_left_ns = 0, deadline_ns = 0, period_start_ns = 0, is_active = False, is_throttled = False,
      dl_tree_id = 0, ready_link = False, throttled_link = False\<rparr>"

definition task_new_with_class :: "sched_config \<Rightarrow> sched_class \<Rightarrow> sched_attr \<Rightarrow> sched_task" where
  "task_new_with_class cfg c a =
     \<lparr>class_byte = class_as_u8 c, rt_prio = rt_priority a, sum_exec_runtime_ns = 0, seat = QDetached, attr = a,
      fair = fair_entity_new (default_slice_ns cfg), rt = rt_entity_new (default_rr_slice_ns cfg), rt_links = None,
      dl = deadline_entity_new\<rparr>"

definition task_new :: "sched_config \<Rightarrow> sched_task" where
  "task_new cfg = task_new_with_class cfg CFair attr_default"

datatype kernel_class = KStop | KIdle

definition kernel_sched_class :: "kernel_class \<Rightarrow> sched_class" where
  "kernel_sched_class k = (case k of KStop \<Rightarrow> CStop | KIdle \<Rightarrow> CIdle)"

definition task_new_kernel :: "sched_config \<Rightarrow> kernel_class \<Rightarrow> sched_task" where
  "task_new_kernel cfg k = task_new_with_class cfg (kernel_sched_class k) attr_default"

definition sched_class_of :: "sched_task \<Rightarrow> sched_class" where
  "sched_class_of t = class_from_u8 (class_byte t)"

definition account_runtime :: "nat \<Rightarrow> sched_task \<Rightarrow> sched_task" where
  "account_runtime elapsed t = t\<lparr>sum_exec_runtime_ns := sat_add (sum_exec_runtime_ns t) elapsed\<rparr>"

definition store_rt_prio :: "sched_attr \<Rightarrow> sched_task \<Rightarrow> sched_task" where
  "store_rt_prio a t = t\<lparr>rt_prio := (if is_realtime (policy a) then rt_priority a else 0)\<rparr>"

definition task_set_attr :: "sched_attr \<Rightarrow> sched_task \<Rightarrow> sched_task" where
  "task_set_attr a t = store_rt_prio a (t\<lparr>attr := a, fair := (fair t)\<lparr>weight := nice_weight (nice a)\<rparr>\<rparr>)"

definition task_set_class :: "sched_class \<Rightarrow> sched_task \<Rightarrow> sched_task" where
  "task_set_class c t = t\<lparr>class_byte := class_as_u8 c\<rparr>"

definition init_attr_unpublished :: "sched_config \<Rightarrow> sched_attr \<Rightarrow> sched_task \<Rightarrow> sched_error + sched_task" where
  "init_attr_unpublished cfg a t =
     (case attr_validate cfg a of
        Inl e \<Rightarrow> Inl e
      | Inr _ \<Rightarrow> Inr (task_set_class (attr_class a) (task_set_attr a t)))"

type_synonym task_ref = nat
type_synonym store = "task_ref \<Rightarrow> sched_task"

definition upd :: "task_ref \<Rightarrow> (sched_task \<Rightarrow> sched_task) \<Rightarrow> store \<Rightarrow> store" where
  "upd t f s = s(t := f (s t))"

definition set_seat :: "queue_seat \<Rightarrow> sched_task \<Rightarrow> sched_task" where
  "set_seat q t = t\<lparr>seat := q\<rparr>"

definition on_fair :: "(fair_entity \<Rightarrow> fair_entity) \<Rightarrow> sched_task \<Rightarrow> sched_task" where
  "on_fair f t = t\<lparr>fair := f (fair t)\<rparr>"

definition on_rt :: "(rt_entity \<Rightarrow> rt_entity) \<Rightarrow> sched_task \<Rightarrow> sched_task" where
  "on_rt f t = t\<lparr>rt := f (rt t)\<rparr>"

definition on_dl :: "(deadline_entity \<Rightarrow> deadline_entity) \<Rightarrow> sched_task \<Rightarrow> sched_task" where
  "on_dl f t = t\<lparr>dl := f (dl t)\<rparr>"

section \<open>Ordered trees\<close>

text \<open>
  An intrusive red-black tree is the sequence of its elements in ascending key order; an element is
  inserted behind elements with an equal key. \<open>tree_find\<close> is a lookup by key.
\<close>

fun tree_insert :: "('a \<Rightarrow> 'k::linorder) \<Rightarrow> 'a \<Rightarrow> 'a list \<Rightarrow> 'a list" where
  "tree_insert key x [] = [x]"
| "tree_insert key x (y # ys) = (if key x < key y then x # y # ys else y # tree_insert key x ys)"

definition tree_find :: "('a \<Rightarrow> 'k) \<Rightarrow> 'k \<Rightarrow> 'a list \<Rightarrow> 'a option" where
  "tree_find key k ts = find (\<lambda>t. key t = k) ts"

text \<open>The element behind a removed one: where the cursor stands after the removal.\<close>

fun next_after :: "'a \<Rightarrow> 'a list \<Rightarrow> 'a option" where
  "next_after x [] = None"
| "next_after x (y # ys) = (if y = x then (case ys of [] \<Rightarrow> None | z # _ \<Rightarrow> Some z) else next_after x ys)"

definition front :: "'a list \<Rightarrow> 'a option" where
  "front xs = (case xs of [] \<Rightarrow> None | x # _ \<Rightarrow> Some x)"

end
