(* ===== verification/SchedRt.thy ===== *)
theory SchedRt
  imports SchedTypes "HOL-Library.Monad_Syntax"
begin

text \<open>
  The stop, idle and realtime classes of \<open>src/task/ksched/src/classes\<close> (\<open>stop.rs\<close>, \<open>idle.rs\<close>, \<open>rt.rs\<close>)
  and the ready lists of \<open>ready_list.rs\<close>. Operations take and return the task store and the class;
  \<open>None\<close> is a panic.
\<close>

unbundle bit_operations_syntax

section \<open>The stop class\<close>

type_synonym stop_class = "task_ref option"

definition push_waiter :: "store \<Rightarrow> task_ref \<Rightarrow> store \<times> stop_class" where
  "push_waiter s t = (upd t (set_seat QStop) s, Some t)"

definition stop_nr_queued :: "stop_class \<Rightarrow> nat" where
  "stop_nr_queued w = (if w = None then 0 else 1)"

definition stop_has_runnable :: "stop_class \<Rightarrow> bool" where
  "stop_has_runnable w \<longleftrightarrow> w \<noteq> None"

definition stop_enqueue :: "store \<Rightarrow> stop_class \<Rightarrow> task_ref \<Rightarrow> task_ref option \<Rightarrow> (store \<times> stop_class) option" where
  "stop_enqueue s w t cur = (if cur = None \<and> w = None then Some (push_waiter s t) else None)"

definition stop_dequeue :: "store \<Rightarrow> stop_class \<Rightarrow> task_ref \<Rightarrow> store \<times> stop_class \<times> task_ref option" where
  "stop_dequeue s w t =
     (case w of
        None \<Rightarrow> (s, w, None)
      | Some queued \<Rightarrow> if queued \<noteq> t then (s, w, None) else (upd queued (set_seat QDetached) s, None, Some queued))"

definition stop_pick_next :: "store \<Rightarrow> stop_class \<Rightarrow> store \<times> stop_class \<times> task_ref option" where
  "stop_pick_next s w =
     (case w of None \<Rightarrow> (s, w, None) | Some t \<Rightarrow> (upd t (set_seat QDetached) s, None, Some t))"

definition stop_set_curr :: "stop_class \<Rightarrow> unit option" where
  "stop_set_curr w = (if w = None then Some () else None)"

definition stop_put_prev :: "store \<Rightarrow> stop_class \<Rightarrow> task_ref \<Rightarrow> leave_reason \<Rightarrow> store \<times> stop_class \<times> bool" where
  "stop_put_prev s w prev reason =
     (if reason = LYield \<or> reason = LPreempt then let (s, w) = push_waiter s prev in (s, w, True) else (s, w, False))"

section \<open>Ready lists\<close>

text \<open>The identity of a list is its run queue and level.\<close>

definition rl_push :: "nat \<times> nat \<Rightarrow> store \<Rightarrow> task_ref list \<Rightarrow> task_ref \<Rightarrow> bool \<Rightarrow> store \<times> task_ref list \<times> bool" where
  "rl_push ident s q t at_front =
     (if rt_links (s t) \<noteq> None then (s, q, False)
      else (upd t (\<lambda>x. x\<lparr>rt_links := Some ident\<rparr>) s, (if at_front then t # q else q @ [t]), True))"

definition rl_pop_front :: "store \<Rightarrow> task_ref list \<Rightarrow> store \<times> task_ref list \<times> task_ref option" where
  "rl_pop_front s q = (case q of [] \<Rightarrow> (s, q, None) | t # q' \<Rightarrow> (upd t (\<lambda>x. x\<lparr>rt_links := None\<rparr>) s, q', Some t))"

definition rl_remove :: "nat \<times> nat \<Rightarrow> store \<Rightarrow> task_ref list \<Rightarrow> task_ref \<Rightarrow> store \<times> task_ref list \<times> task_ref option" where
  "rl_remove ident s q t =
     (if rt_links (s t) \<noteq> Some ident then (s, q, None)
      else (upd t (\<lambda>x. x\<lparr>rt_links := None\<rparr>) s, remove1 t q, Some t))"

definition rl_steal :: "(sched_task \<Rightarrow> bool) \<Rightarrow> store \<Rightarrow> task_ref list \<Rightarrow> store \<times> task_ref list \<times> task_ref option" where
  "rl_steal want s q =
     (case find (\<lambda>t. want (s t)) q of
        None \<Rightarrow> (s, q, None)
      | Some t \<Rightarrow> (upd t (\<lambda>x. x\<lparr>rt_links := None\<rparr>) s, remove1 t q, Some t))"

section \<open>The realtime class\<close>

record rt_class =
  rt_self :: nat
  queues :: "task_ref list list"
  occupied :: "128 word"
  queued :: nat
  used_ns :: nat
  rt_period_start :: nat
  rt_throttled :: bool
  rr_slice_ns :: nat
  rt_runtime_ns :: nat
  rt_period_ns :: nat

definition rt_class_new :: "sched_config \<Rightarrow> nat \<Rightarrow> rt_class" where
  "rt_class_new cfg self =
     \<lparr>rt_self = self, queues = replicate RT_PRIO_LEVELS [], occupied = 0, queued = 0, used_ns = 0,
      rt_period_start = 0, rt_throttled = False, rr_slice_ns = default_rr_slice_ns cfg,
      rt_runtime_ns = default_rt_runtime_ns cfg, rt_period_ns = default_rt_period_ns cfg\<rparr>"

definition is_throttled_at :: "rt_class \<Rightarrow> nat \<Rightarrow> bool" where
  "is_throttled_at c now \<longleftrightarrow> rt_throttled c \<and> now < sat_add (rt_period_start c) (max (rt_period_ns c) 1)"

definition rt_idx :: "nat \<Rightarrow> nat option" where
  "rt_idx p = (if MIN_RT_PRIORITY \<le> p \<and> p \<le> MAX_RT_PRIORITY then Some (p - MIN_RT_PRIORITY) else None)"

definition is_occupied :: "rt_class \<Rightarrow> nat \<Rightarrow> bool option" where
  "is_occupied c p = do { i \<leftarrow> rt_idx p; Some (occupied c AND push_bit i 1 \<noteq> 0) }"

definition mark_occupied :: "nat \<Rightarrow> rt_class \<Rightarrow> rt_class option" where
  "mark_occupied p c = do { i \<leftarrow> rt_idx p; Some (c\<lparr>occupied := occupied c OR push_bit i 1\<rparr>) }"

definition mark_empty_if :: "nat \<Rightarrow> rt_class \<Rightarrow> rt_class option" where
  "mark_empty_if p c = do {
     i \<leftarrow> rt_idx p;
     Some (if queues c ! i = [] then c\<lparr>occupied := occupied c AND NOT (push_bit i 1)\<rparr> else c)
   }"

definition highest_ready_prio :: "rt_class \<Rightarrow> nat option" where
  "highest_ready_prio c =
     (if occupied c = 0 then None else Some ((127 - leading_zeros (occupied c)) + MIN_RT_PRIORITY))"

definition has_same_prio_waiter :: "rt_class \<Rightarrow> nat \<Rightarrow> bool option" where
  "has_same_prio_waiter c p =
     (if MIN_RT_PRIORITY \<le> p \<and> p \<le> MAX_RT_PRIORITY then is_occupied c p else Some False)"

definition enqueue_ready :: "store \<Rightarrow> rt_class \<Rightarrow> task_ref \<Rightarrow> bool \<Rightarrow> (store \<times> rt_class) option" where
  "enqueue_ready s c t at_front =
     (let p = rt_priority (attr (s t)); s = upd t (set_seat QRt) s in do {
        i \<leftarrow> rt_idx p;
        (let (s, q, linked) = rl_push (rt_self c, i) s (queues c ! i) t at_front; c = c\<lparr>queues := (queues c)[i := q]\<rparr> in
         if \<not> linked then Some (s, c)
         else do {
           c \<leftarrow> mark_occupied p (c\<lparr>queued := queued c + 1\<rparr>);
           Some (s, c)
         })
      })"

definition enqueue_tail :: "store \<Rightarrow> rt_class \<Rightarrow> task_ref \<Rightarrow> (store \<times> rt_class) option" where
  "enqueue_tail s c t = enqueue_ready s c t False"

definition enqueue_head :: "store \<Rightarrow> rt_class \<Rightarrow> task_ref \<Rightarrow> (store \<times> rt_class) option" where
  "enqueue_head s c t = enqueue_ready s c t True"

text \<open>The shared end of a removal: detach, count down, clear the level bit when the list is empty.\<close>

definition rt_detached :: "store \<Rightarrow> rt_class \<Rightarrow> nat \<Rightarrow> task_ref \<Rightarrow> (store \<times> rt_class \<times> task_ref option) option" where
  "rt_detached s c p t = do {
     c \<leftarrow> mark_empty_if p (c\<lparr>queued := queued c - 1\<rparr>);
     Some (upd t (set_seat QDetached) s, c, Some t)
   }"

definition dequeue_addr :: "store \<Rightarrow> rt_class \<Rightarrow> nat \<Rightarrow> task_ref \<Rightarrow> (store \<times> rt_class \<times> task_ref option) option" where
  "dequeue_addr s c p t =
     (if \<not> (MIN_RT_PRIORITY \<le> p \<and> p \<le> MAX_RT_PRIORITY) then Some (s, c, None)
      else do {
        occ \<leftarrow> is_occupied c p;
        if \<not> occ then Some (s, c, None)
        else do {
          i \<leftarrow> rt_idx p;
          (case rl_remove (rt_self c, i) s (queues c ! i) t of
             (s, q, None) \<Rightarrow> Some (s, c, None)
           | (s, q, Some t) \<Rightarrow> rt_detached s (c\<lparr>queues := (queues c)[i := q]\<rparr>) p t)
        }
      })"

definition ns_until_throttle :: "rt_class \<Rightarrow> nat" where
  "ns_until_throttle c = rt_runtime_ns c - used_ns c"

definition rt_has_runnable :: "rt_class \<Rightarrow> bool" where
  "rt_has_runnable c \<longleftrightarrow> occupied c \<noteq> 0 \<and> \<not> rt_throttled c"

definition rt_advance :: "rt_class \<Rightarrow> nat \<Rightarrow> rt_class" where
  "rt_advance c now =
     (let c = (if rt_period_start c = 0 then c\<lparr>rt_period_start := now\<rparr> else c); period = max (rt_period_ns c) 1 in
      if now \<ge> sat_add (rt_period_start c) period then
        let steps = (now - rt_period_start c) div period in
        c\<lparr>rt_period_start := sat_add (rt_period_start c) (sat_mul steps period), used_ns := 0, rt_throttled := False\<rparr>
      else c)"

definition rt_enqueue :: "store \<Rightarrow> rt_class \<Rightarrow> task_ref \<Rightarrow> enqueue_kind \<Rightarrow> (store \<times> rt_class) option" where
  "rt_enqueue s c t kind =
     enqueue_tail
       (if kind = ENew \<and> policy (attr (s t)) = SRr then upd t (on_rt (\<lambda>e. e\<lparr>rr_left_ns := rr_slice_ns c\<rparr>)) s else s) c t"

definition rt_dequeue :: "store \<Rightarrow> rt_class \<Rightarrow> task_ref \<Rightarrow> (store \<times> rt_class \<times> task_ref option) option" where
  "rt_dequeue s c t =
     (if seat (s t) \<noteq> QRt then Some (s, c, None) else dequeue_addr s c (rt_priority (attr (s t))) t)"

text \<open>The levels of \<open>steal\<close>, highest first.\<close>

fun steal_levels :: "(sched_task \<Rightarrow> bool) \<Rightarrow> store \<Rightarrow> rt_class \<Rightarrow> nat list \<Rightarrow> (store \<times> rt_class \<times> task_ref option) option" where
  "steal_levels want s c [] = Some (s, c, None)"
| "steal_levels want s c (p # ps) = do {
     occ \<leftarrow> is_occupied c p;
     if \<not> occ then steal_levels want s c ps
     else do {
       i \<leftarrow> rt_idx p;
       (case rl_steal want s (queues c ! i) of
          (s, q, None) \<Rightarrow> steal_levels want s c ps
        | (s, q, Some t) \<Rightarrow> rt_detached s (c\<lparr>queues := (queues c)[i := q]\<rparr>) p t)
     }
   }"

definition rt_steal :: "(sched_task \<Rightarrow> bool) \<Rightarrow> store \<Rightarrow> rt_class \<Rightarrow> (store \<times> rt_class \<times> task_ref option) option" where
  "rt_steal want s c =
     (case highest_ready_prio c of
        None \<Rightarrow> Some (s, c, None)
      | Some highest \<Rightarrow> steal_levels want s c (rev [MIN_RT_PRIORITY..<Suc highest]))"

definition rt_pick_next :: "store \<Rightarrow> rt_class \<Rightarrow> (store \<times> rt_class \<times> task_ref option) option" where
  "rt_pick_next s c =
     (if rt_throttled c then Some (s, c, None)
      else case highest_ready_prio c of
        None \<Rightarrow> Some (s, c, None)
      | Some p \<Rightarrow> do {
          i \<leftarrow> rt_idx p;
          (case rl_pop_front s (queues c ! i) of
             (s, q, None) \<Rightarrow> Some (s, c, None)
           | (s, q, Some t) \<Rightarrow> do {
               c \<leftarrow> mark_empty_if p (c\<lparr>queues := (queues c)[i := q], queued := queued c - 1\<rparr>);
               (let s = upd t (set_seat QDetached) s in
                Some (if policy (attr (s t)) = SRr \<and> rr_left_ns (rt (s t)) = 0
                      then upd t (on_rt (\<lambda>e. e\<lparr>rr_left_ns := rr_slice_ns c\<rparr>)) s else s, c, Some t))
             })
        })"

definition rt_put_prev :: "store \<Rightarrow> rt_class \<Rightarrow> task_ref \<Rightarrow> leave_reason \<Rightarrow> (store \<times> rt_class \<times> bool) option" where
  "rt_put_prev s c prev reason =
     (let rotate = rr_rotate (rt (s prev)); s = upd prev (on_rt (\<lambda>e. e\<lparr>rr_rotate := False\<rparr>)) s in
      case reason of
        LYield \<Rightarrow> do { (s, c) \<leftarrow> enqueue_tail s c prev; Some (s, c, True) }
      | LPreempt \<Rightarrow> do { (s, c) \<leftarrow> (if rotate then enqueue_tail s c prev else enqueue_head s c prev); Some (s, c, True) }
      | _ \<Rightarrow> Some (s, c, False))"

definition rt_account :: "store \<Rightarrow> rt_class \<Rightarrow> task_ref \<Rightarrow> nat \<Rightarrow> (store \<times> rt_class \<times> bool) option" where
  "rt_account s c cur elapsed =
     (if elapsed = 0 then Some (s, c, False)
      else
        let c = c\<lparr>used_ns := sat_add (used_ns c) elapsed\<rparr>;
            c = (if used_ns c \<ge> rt_runtime_ns c then c\<lparr>rt_throttled := True\<rparr> else c) in
        if policy (attr (s cur)) = SRr then
          let old = rr_left_ns (rt (s cur)); left = old - min elapsed old in
          if left = 0 then do {
            rotate \<leftarrow> has_same_prio_waiter c (rt_priority (attr (s cur)));
            Some (upd cur (on_rt (\<lambda>e. e\<lparr>rr_left_ns := rr_slice_ns c, rr_rotate := rotate\<rparr>)) s, c, rotate \<or> rt_throttled c)
          }
          else Some (upd cur (on_rt (\<lambda>e. e\<lparr>rr_left_ns := left\<rparr>)) s, c, rt_throttled c)
        else Some (s, c, rt_throttled c))"

definition rt_wakeup_preempts :: "store \<Rightarrow> rt_class \<Rightarrow> task_ref \<Rightarrow> bool" where
  "rt_wakeup_preempts s c cur =
     (if rr_rotate (rt (s cur)) then True
      else if rt_throttled c then False
      else case highest_ready_prio c of Some highest \<Rightarrow> highest > rt_priority (attr (s cur)) | None \<Rightarrow> False)"

definition rt_tick_preempts :: "store \<Rightarrow> rt_class \<Rightarrow> task_ref \<Rightarrow> bool" where
  "rt_tick_preempts s c cur = rt_wakeup_preempts s c cur"

definition rt_curr_timer_ns :: "store \<Rightarrow> rt_class \<Rightarrow> task_ref \<Rightarrow> nat option option" where
  "rt_curr_timer_ns s c cur =
     (if rt_throttled c then Some None
      else if policy (attr (s cur)) = SRr then do {
        waiter \<leftarrow> has_same_prio_waiter c (rt_priority (attr (s cur)));
        Some (Some (if waiter then min (ns_until_throttle c) (rr_left_ns (rt (s cur))) else ns_until_throttle c))
      }
      else Some (Some (ns_until_throttle c)))"

definition rt_class_timer_ns :: "rt_class \<Rightarrow> nat \<Rightarrow> nat option" where
  "rt_class_timer_ns c now =
     (if \<not> rt_throttled c then None else Some (sat_add (rt_period_start c) (rt_period_ns c) - now))"

definition rt_attr_changed :: "store \<Rightarrow> rt_class \<Rightarrow> task_ref \<Rightarrow> sched_attr \<Rightarrow> bool \<Rightarrow> (store \<times> rt_class) option" where
  "rt_attr_changed s c t old is_curr =
     (let new_prio = rt_priority (attr (s t));
          s = (if policy old \<noteq> SRr \<and> policy (attr (s t)) = SRr
               then upd t (on_rt (\<lambda>e. e\<lparr>rr_left_ns := rr_slice_ns c, rr_rotate := False\<rparr>)) s
               else if policy (attr (s t)) \<noteq> SRr then upd t (on_rt (\<lambda>e. e\<lparr>rr_rotate := False\<rparr>)) s
               else s) in
      if is_curr \<or> rt_priority old = new_prio then Some (s, c)
      else do {
        (s, c, removed) \<leftarrow> dequeue_addr s c (rt_priority old) t;
        (case removed of
           None \<Rightarrow> Some (s, c)
         | Some r \<Rightarrow> if new_prio < rt_priority old then enqueue_head s c r else enqueue_tail s c r)
      })"

definition rt_switched_from :: "store \<Rightarrow> task_ref \<Rightarrow> store" where
  "rt_switched_from s t = upd t (on_rt (\<lambda>e. e\<lparr>rr_rotate := False\<rparr>)) s"

definition rt_switched_to :: "store \<Rightarrow> rt_class \<Rightarrow> task_ref \<Rightarrow> store" where
  "rt_switched_to s c t =
     (if policy (attr (s t)) = SRr then upd t (on_rt (\<lambda>e. e\<lparr>rr_left_ns := rr_slice_ns c, rr_rotate := False\<rparr>)) s else s)"

end
