(* ===== verification/SchedDeadline.thy ===== *)
theory SchedDeadline
  imports SchedTypes "HOL-Library.Monad_Syntax" "HOL-Library.Product_Lexorder"
begin

text \<open>
  The deadline class of \<open>src/task/ksched/src/classes/deadline.rs\<close>: budgets, earliest-deadline ordering,
  throttling until the next period, and admission per run queue. The two trees are ordered sequences of
  tasks; linking a task that is already linked panics.
\<close>

record deadline_runner =
  runner_id :: nat
  runner_ppm :: nat

record deadline_class =
  dl_ready :: "task_ref list"
  dl_throttled :: "task_ref list"
  dl_next_enqueue_id :: nat
  running :: "deadline_runner option"

definition deadline_class_new :: deadline_class where
  "deadline_class_new = \<lparr>dl_ready = [], dl_throttled = [], dl_next_enqueue_id = 0, running = None\<rparr>"

text \<open>The keys of the two trees.\<close>

definition ready_key :: "store \<Rightarrow> task_ref \<Rightarrow> nat \<times> nat" where
  "ready_key s t = (deadline_ns (dl (s t)), dl_tree_id (dl (s t)))"

definition throttled_key :: "store \<Rightarrow> task_ref \<Rightarrow> nat \<times> nat" where
  "throttled_key s t = (period_start_ns (dl (s t)), dl_tree_id (dl (s t)))"

definition dl_alloc_enqueue_id :: "deadline_class \<Rightarrow> deadline_class \<times> nat" where
  "dl_alloc_enqueue_id c = (c\<lparr>dl_next_enqueue_id := (dl_next_enqueue_id c + 1) mod 2 ^ 64\<rparr>, dl_next_enqueue_id c)"

definition insert_ready :: "store \<Rightarrow> deadline_class \<Rightarrow> task_ref \<Rightarrow> (store \<times> deadline_class) option" where
  "insert_ready s c t =
     (let (c, i) = dl_alloc_enqueue_id c; s = upd t (set_seat QDeadline \<circ> on_dl (\<lambda>e. e\<lparr>dl_tree_id := i\<rparr>)) s in
      if ready_link (dl (s t)) then None
      else let s = upd t (on_dl (\<lambda>e. e\<lparr>ready_link := True\<rparr>)) s in
        Some (s, c\<lparr>dl_ready := tree_insert (ready_key s) t (dl_ready c)\<rparr>))"

definition insert_throttled :: "store \<Rightarrow> deadline_class \<Rightarrow> task_ref \<Rightarrow> (store \<times> deadline_class) option" where
  "insert_throttled s c t =
     (let (c, i) = dl_alloc_enqueue_id c; s = upd t (set_seat QDeadline \<circ> on_dl (\<lambda>e. e\<lparr>dl_tree_id := i\<rparr>)) s in
      if throttled_link (dl (s t)) then None
      else let s = upd t (on_dl (\<lambda>e. e\<lparr>throttled_link := True\<rparr>)) s in
        Some (s, c\<lparr>dl_throttled := tree_insert (throttled_key s) t (dl_throttled c)\<rparr>))"

definition params :: "sched_task \<Rightarrow> dl_params option" where
  "params t = dl_params (attr t)"

definition replenish :: "nat \<Rightarrow> sched_task \<Rightarrow> sched_task" where
  "replenish now t =
     (case params t of
        None \<Rightarrow> t
      | Some p \<Rightarrow> on_dl (\<lambda>e. e\<lparr>budget_left_ns := runtime_ns p, deadline_ns := sat_add now (rel_deadline_ns p),
            period_start_ns := sat_add now (period_ns p), is_active := True, is_throttled := False\<rparr>) t)"

definition reserving_ppm :: "sched_task \<Rightarrow> nat" where
  "reserving_ppm t = (case params t of None \<Rightarrow> 0 | Some p \<Rightarrow> load_ppm p)"

definition tree_load_ppm :: "store \<Rightarrow> task_ref list \<Rightarrow> nat" where
  "tree_load_ppm s ts = foldl (\<lambda>total t. sat_add total (reserving_ppm (s t))) 0 ts"

definition resident_load_ppm :: "store \<Rightarrow> deadline_class \<Rightarrow> nat" where
  "resident_load_ppm s c =
     sat_add (sat_add (tree_load_ppm s (dl_ready c)) (tree_load_ppm s (dl_throttled c)))
       (case running c of None \<Rightarrow> 0 | Some r \<Rightarrow> runner_ppm r)"

definition is_counted :: "deadline_class \<Rightarrow> sched_task \<Rightarrow> bool" where
  "is_counted c t \<longleftrightarrow>
     seat t = QDeadline \<or> (case running c of None \<Rightarrow> False | Some r \<Rightarrow> runner_id r = dl_tree_id (dl t))"

definition note_runner :: "sched_task \<Rightarrow> deadline_class \<Rightarrow> deadline_class" where
  "note_runner t c = c\<lparr>running := Some \<lparr>runner_id = dl_tree_id (dl t), runner_ppm = reserving_ppm t\<rparr>\<rparr>"

definition clear_runner :: "deadline_class \<Rightarrow> deadline_class" where
  "clear_runner c = c\<lparr>running := None\<rparr>"

section \<open>Class operations\<close>

definition dl_nr_queued :: "deadline_class \<Rightarrow> nat" where
  "dl_nr_queued c = length (dl_ready c)"

definition dl_has_runnable :: "deadline_class \<Rightarrow> bool" where
  "dl_has_runnable c \<longleftrightarrow> dl_ready c \<noteq> []"

text \<open>
  Unlinking a tree element: the first element, or the element found by a key. \<open>remove_ready\<close> and
  \<open>remove_throttled\<close> clear the link of the element they take out.
\<close>

definition remove_ready :: "store \<Rightarrow> deadline_class \<Rightarrow> task_ref \<Rightarrow> store \<times> deadline_class" where
  "remove_ready s c t = (upd t (on_dl (\<lambda>e. e\<lparr>ready_link := False\<rparr>)) s, c\<lparr>dl_ready := remove1 t (dl_ready c)\<rparr>)"

definition remove_throttled :: "store \<Rightarrow> deadline_class \<Rightarrow> task_ref \<Rightarrow> store \<times> deadline_class" where
  "remove_throttled s c t =
     (upd t (on_dl (\<lambda>e. e\<lparr>throttled_link := False\<rparr>)) s, c\<lparr>dl_throttled := remove1 t (dl_throttled c)\<rparr>)"

text \<open>
  The loop of \<open>advance\<close>: take the first throttled task whose period has started, refill it and link it
  as ready. Each round unlinks one task, so the number of throttled tasks bounds the rounds.
\<close>

fun dl_advance_loop :: "nat \<Rightarrow> store \<Rightarrow> deadline_class \<Rightarrow> nat \<Rightarrow> (store \<times> deadline_class) option" where
  "dl_advance_loop 0 s c now = Some (s, c)"
| "dl_advance_loop (Suc n) s c now =
     (case dl_throttled c of
        [] \<Rightarrow> Some (s, c)
      | t # _ \<Rightarrow>
          if period_start_ns (dl (s t)) > now then Some (s, c)
          else let (s, c) = remove_throttled s c t in
            case params (s t) of
              None \<Rightarrow> dl_advance_loop n (upd t (set_seat QDetached) s) c now
            | Some p \<Rightarrow> do {
                (s, c) \<leftarrow> insert_ready (upd t (on_dl (\<lambda>e. e\<lparr>budget_left_ns := runtime_ns p, is_throttled := False,
                    deadline_ns := sat_add now (rel_deadline_ns p), period_start_ns := sat_add now (period_ns p)\<rparr>)) s) c t;
                dl_advance_loop n s c now
              })"

definition dl_advance :: "store \<Rightarrow> deadline_class \<Rightarrow> nat \<Rightarrow> (store \<times> deadline_class) option" where
  "dl_advance s c now = dl_advance_loop (length (dl_throttled c)) s c now"

definition dl_enqueue :: "store \<Rightarrow> deadline_class \<Rightarrow> task_ref \<Rightarrow> enqueue_kind \<Rightarrow> nat \<Rightarrow> (store \<times> deadline_class) option" where
  "dl_enqueue s c t kind now =
     (case kind of
        ENew \<Rightarrow> insert_ready (upd t (replenish now) s) c t
      | EClassChange \<Rightarrow> insert_ready s c t
      | _ \<Rightarrow>
          if budget_left_ns (dl (s t)) = 0
          then insert_throttled (upd t (on_dl (\<lambda>e. e\<lparr>is_throttled := True\<rparr>)) s) c t
          else insert_ready s c t)"

definition dl_dequeue :: "store \<Rightarrow> deadline_class \<Rightarrow> task_ref \<Rightarrow> store \<times> deadline_class \<times> task_ref option" where
  "dl_dequeue s c t =
     (if seat (s t) \<noteq> QDeadline then (s, c, None)
      else case tree_find (throttled_key s) (throttled_key s t) (dl_throttled c) of
        Some r \<Rightarrow> let (s, c) = remove_throttled s c r in (upd t (set_seat QDetached) s, c, Some r)
      | None \<Rightarrow>
          (case tree_find (ready_key s) (ready_key s t) (dl_ready c) of
             Some r \<Rightarrow> let (s, c) = remove_ready s c r in (upd t (set_seat QDetached) s, c, Some r)
           | None \<Rightarrow> (s, c, None)))"

definition dl_pick_next :: "store \<Rightarrow> deadline_class \<Rightarrow> store \<times> deadline_class \<times> task_ref option" where
  "dl_pick_next s c =
     (case dl_ready c of
        [] \<Rightarrow> (s, c, None)
      | t # _ \<Rightarrow>
          (case tree_find (ready_key s) (ready_key s t) (dl_ready c) of
             None \<Rightarrow> (s, c, None)
           | Some picked \<Rightarrow>
               let (s, c) = remove_ready s c picked; s = upd picked (set_seat QDetached) s in
               (s, note_runner (s picked) c, Some picked)))"

definition dl_set_curr :: "store \<Rightarrow> deadline_class \<Rightarrow> task_ref \<Rightarrow> nat \<Rightarrow> store \<times> deadline_class" where
  "dl_set_curr s c t now =
     (let s = (if \<not> is_active (dl (s t)) then upd t (replenish now) s else s); c = note_runner (s t) c in
      (upd t (set_seat QDetached) s, c))"

definition dl_put_prev :: "store \<Rightarrow> deadline_class \<Rightarrow> task_ref \<Rightarrow> leave_reason \<Rightarrow> (store \<times> deadline_class \<times> bool) option" where
  "dl_put_prev s c prev reason =
     (let c = clear_runner c in
      case reason of
        LExit \<Rightarrow> Some (upd prev (set_seat QDetached \<circ> on_dl (\<lambda>e. e\<lparr>is_active := False, is_throttled := False\<rparr>)) s, c, False)
      | LBlock \<Rightarrow> Some (upd prev (set_seat QDetached) s, c, False)
      | LMigrate \<Rightarrow> Some (upd prev (set_seat QDetached) s, c, False)
      | _ \<Rightarrow> do {
          (s, c) \<leftarrow> (if is_throttled (dl (s prev)) then insert_throttled s c prev else insert_ready s c prev);
          Some (s, c, True)
        })"

definition dl_account :: "store \<Rightarrow> task_ref \<Rightarrow> nat \<Rightarrow> store \<times> bool" where
  "dl_account s cur elapsed =
     (let budget = budget_left_ns (dl (s cur)) in
      if elapsed = 0 \<or> budget = 0 then (s, False)
      else let left = budget - elapsed; s = upd cur (on_dl (\<lambda>e. e\<lparr>budget_left_ns := left\<rparr>)) s in
        if left = 0 then (upd cur (on_dl (\<lambda>e. e\<lparr>is_throttled := True\<rparr>)) s, True) else (s, False))"

definition dl_tick_preempts :: bool where
  "dl_tick_preempts = False"

definition dl_wakeup_preempts :: "store \<Rightarrow> deadline_class \<Rightarrow> task_ref \<Rightarrow> bool" where
  "dl_wakeup_preempts s c cur =
     (case dl_ready c of [] \<Rightarrow> False | waiter # _ \<Rightarrow> deadline_ns (dl (s waiter)) < deadline_ns (dl (s cur)))"

definition dl_curr_timer_ns :: "store \<Rightarrow> task_ref \<Rightarrow> nat \<Rightarrow> nat option" where
  "dl_curr_timer_ns s cur now =
     (let e = dl (s cur) in
      if is_throttled e then Some (period_start_ns e - now)
      else let budget_end = sat_add now (budget_left_ns e) in Some (min budget_end (deadline_ns e) - now))"

definition dl_class_timer_ns :: "store \<Rightarrow> deadline_class \<Rightarrow> nat \<Rightarrow> nat option" where
  "dl_class_timer_ns s c now =
     (let ready = map_option (\<lambda>t. deadline_ns (dl (s t)) - now) (front (dl_ready c));
          throttled = map_option (\<lambda>t. period_start_ns (dl (s t)) - now) (front (dl_throttled c)) in
      case (ready, throttled) of
        (Some a, Some b) \<Rightarrow> Some (min a b)
      | (Some a, None) \<Rightarrow> Some a
      | (None, Some b) \<Rightarrow> Some b
      | (None, None) \<Rightarrow> None)"

definition dl_attr_changed :: "store \<Rightarrow> deadline_class \<Rightarrow> task_ref \<Rightarrow> bool \<Rightarrow> store \<times> deadline_class" where
  "dl_attr_changed s c t is_curr =
     (let s = upd t (on_dl (\<lambda>e. e\<lparr>is_active := False, is_throttled := False\<rparr>)) s in
      (s, if is_curr then note_runner (s t) c else c))"

definition dl_can_admit :: "sched_config \<Rightarrow> store \<Rightarrow> deadline_class \<Rightarrow> task_ref \<Rightarrow> sched_attr \<Rightarrow> sched_error + unit" where
  "dl_can_admit cfg s c t new =
     (case dl_params new of
        None \<Rightarrow> Inl InvalidPolicy
      | Some p \<Rightarrow>
          let load = resident_load_ppm s c;
              load = (if is_counted c (s t) then load - reserving_ppm (s t) else load);
              limit = 1000000 - dl_bw_margin_ppm cfg in
          if sat_add load (load_ppm p) > limit then Inl AdmissionFull else Inr ())"

definition dl_switched_from :: "store \<Rightarrow> deadline_class \<Rightarrow> task_ref \<Rightarrow> bool \<Rightarrow> store \<times> deadline_class" where
  "dl_switched_from s c t is_curr =
     (upd t (on_dl (\<lambda>e. e\<lparr>is_active := False, is_throttled := False, budget_left_ns := 0\<rparr>)) s,
      if is_curr then clear_runner c else c)"

definition dl_switched_to :: "store \<Rightarrow> deadline_class \<Rightarrow> task_ref \<Rightarrow> bool \<Rightarrow> nat \<Rightarrow> store \<times> deadline_class" where
  "dl_switched_to s c t is_curr now =
     (let s = upd t (replenish now) s in (s, if is_curr then note_runner (s t) c else c))"

end
