(* ===== verification/SchedFair.thy ===== *)
theory SchedFair
  imports SchedTypes "HOL-Library.Monad_Syntax" "HOL-Library.Product_Lexorder" "HOL-Library.Signed_Division"
begin

text \<open>
  The fair class of \<open>src/task/ksched/src/classes/fair.rs\<close>: earliest eligible virtual deadline first. Its
  two trees are ordered sequences of tasks with cached first elements; sums of weights and of weighted
  virtual runtimes are maintained incrementally. Signed 64-bit values are integers, with the cast
  \<open>as_i64\<close> where the source adds, subtracts or casts to 64 bits; the 128-bit sum and the total weight are
  plain integers, which is justified by the bounds proved for them.
\<close>

definition as_i64 :: "int \<Rightarrow> int" where
  "as_i64 x = (x + 2 ^ 63) mod 2 ^ 64 - 2 ^ 63"

abbreviation (input) I64_MIN :: int where "I64_MIN \<equiv> - (2 ^ 63)"
abbreviation (input) I64_MAX :: int where "I64_MAX \<equiv> 2 ^ 63 - 1"

definition clamp :: "int \<Rightarrow> int \<Rightarrow> int \<Rightarrow> int" where
  "clamp lo hi x = max lo (min hi x)"

definition vruntime_delta :: "nat \<Rightarrow> int \<Rightarrow> int" where
  "vruntime_delta elapsed w =
     (if elapsed = 0 \<or> w \<le> 0 then 0 else clamp I64_MIN I64_MAX ((int elapsed * NICE_0_WEIGHT) sdiv w))"

definition vruntime_to_wall_ns :: "int \<Rightarrow> int \<Rightarrow> nat" where
  "vruntime_to_wall_ns delta w =
     (if delta \<le> 0 \<or> w \<le> 0 then 0
      else nat (min (2 ^ 64 - 1) ((delta * w + (NICE_0_WEIGHT - 1)) sdiv NICE_0_WEIGHT)))"

definition request_deadline :: "int \<Rightarrow> nat \<Rightarrow> int \<Rightarrow> int" where
  "request_deadline vr req w = as_i64 (vr + vruntime_delta req w)"

definition is_eligible :: "int \<Rightarrow> int \<Rightarrow> bool" where
  "is_eligible vr avg \<longleftrightarrow> vr \<le> avg"

record fair_class =
  f_ready :: "task_ref list"
  vruntime_tree :: "task_ref list"
  first_deadline :: "task_ref option"
  first_vruntime :: "task_ref option"
  f_queued :: nat
  min_vruntime :: int
  sum_wv :: int
  total_weight :: int
  next_buddy :: "task_ref option"
  has_sync_wake :: bool
  next_enqueue_id :: nat
  class_request_ns :: nat

definition fair_class_new :: "sched_config \<Rightarrow> fair_class" where
  "fair_class_new cfg =
     \<lparr>f_ready = [], vruntime_tree = [], first_deadline = None, first_vruntime = None, f_queued = 0, min_vruntime = 0,
      sum_wv = 0, total_weight = 0, next_buddy = None, has_sync_wake = False, next_enqueue_id = 0,
      class_request_ns = default_slice_ns cfg\<rparr>"

definition fweight :: "sched_task \<Rightarrow> int" where
  "fweight t = int (weight (fair t))"

definition deadline_key :: "store \<Rightarrow> task_ref \<Rightarrow> int \<times> nat" where
  "deadline_key s t = (deadline (fair (s t)), tree_id (fair (s t)))"

definition vruntime_key :: "store \<Rightarrow> task_ref \<Rightarrow> int \<times> nat" where
  "vruntime_key s t = (vruntime (fair (s t)), tree_id (fair (s t)))"

definition alloc_enqueue_id :: "fair_class \<Rightarrow> fair_class \<times> nat" where
  "alloc_enqueue_id c = (c\<lparr>next_enqueue_id := (next_enqueue_id c + 1) mod 2 ^ 64\<rparr>, next_enqueue_id c)"

definition avg_vruntime :: "store \<Rightarrow> fair_class \<Rightarrow> task_ref option \<Rightarrow> int" where
  "avg_vruntime s c cur =
     (case cur of
        None \<Rightarrow> if total_weight c \<le> 0 then min_vruntime c else as_i64 (sum_wv c sdiv total_weight c)
      | Some t \<Rightarrow>
          let w = fweight (s t); total = total_weight c + w in
          if total \<le> 0 then min_vruntime c
          else let sum = sum_wv c + vruntime (fair (s t)) * w in as_i64 (sum sdiv total))"

definition load :: "store \<Rightarrow> fair_class \<Rightarrow> task_ref option \<Rightarrow> int" where
  "load s c cur = (case cur of Some t \<Rightarrow> as_i64 (total_weight c + fweight (s t)) | None \<Rightarrow> total_weight c)"

definition set_request :: "int \<Rightarrow> nat \<Rightarrow> sched_task \<Rightarrow> sched_task" where
  "set_request vr req t =
     on_fair (\<lambda>e. e\<lparr>vruntime := vr, slice_left_ns := req, deadline := request_deadline vr req (fweight t)\<rparr>) t"

definition clamp_vlag :: "int \<Rightarrow> int \<Rightarrow> nat \<Rightarrow> int" where
  "clamp_vlag lag w req = (let limit = vruntime_delta (max (sat_mul req 2) 1) w in clamp (- limit) limit lag)"

definition place_new_entity :: "store \<Rightarrow> fair_class \<Rightarrow> task_ref \<Rightarrow> task_ref option \<Rightarrow> store" where
  "place_new_entity s c t cur =
     (let vr = avg_vruntime s c cur in
      upd t (\<lambda>x. set_request vr (class_request_ns c) (on_fair (\<lambda>e. e\<lparr>request_ns := class_request_ns c, vlag := 0\<rparr>) x)) s)"

definition place_entity :: "fair_class \<Rightarrow> sched_task \<Rightarrow> int \<Rightarrow> int \<Rightarrow> int" where
  "place_entity c t avg ld =
     (if ld \<le> 0 then min_vruntime c
      else
        let w = fweight t; lag = clamp_vlag (vlag (fair t)) w (request_ns (fair t));
            inflated = (lag * (ld + w)) sdiv ld in
        as_i64 (avg - inflated))"

definition apply_lag :: "store \<Rightarrow> fair_class \<Rightarrow> task_ref \<Rightarrow> task_ref option \<Rightarrow> store" where
  "apply_lag s c t cur =
     (let vr = place_entity c (s t) (avg_vruntime s c cur) (load s c cur) in
      upd t (\<lambda>x. set_request vr (request_ns (fair x)) x) s)"

definition update_min_vruntime :: "store \<Rightarrow> task_ref option \<Rightarrow> fair_class \<Rightarrow> fair_class" where
  "update_min_vruntime s cur c =
     (let tree_min = map_option (\<lambda>t. vruntime (fair (s t))) (first_vruntime c);
          candidate = (case (cur, tree_min) of
              (Some t, Some m) \<Rightarrow> min (vruntime (fair (s t))) m
            | (Some t, None) \<Rightarrow> vruntime (fair (s t))
            | (None, Some m) \<Rightarrow> m
            | (None, None) \<Rightarrow> min_vruntime c) in
      c\<lparr>min_vruntime := max (min_vruntime c) candidate\<rparr>)"

definition first_deadline_key :: "store \<Rightarrow> fair_class \<Rightarrow> (int \<times> nat) option" where
  "first_deadline_key s c = map_option (deadline_key s) (first_deadline c)"

definition fair_contains :: "store \<Rightarrow> fair_class \<Rightarrow> task_ref \<Rightarrow> bool" where
  "fair_contains s c t \<longleftrightarrow> tree_find (deadline_key s) (deadline_key s t) (f_ready c) = Some t"

definition enqueue_tree :: "store \<Rightarrow> fair_class \<Rightarrow> task_ref \<Rightarrow> task_ref option \<Rightarrow> (store \<times> fair_class) option" where
  "enqueue_tree s c t cur =
     (let vr = vruntime (fair (s t)); (c, i) = alloc_enqueue_id c;
          s = upd t (set_seat (seat_from_sched_class CFair) \<circ> on_fair (\<lambda>e. e\<lparr>tree_id := i\<rparr>)) s;
          d = deadline (fair (s t)); w = fweight (s t) in
      if deadline_link (fair (s t)) \<or> vruntime_link (fair (s t)) then None
      else
        let s = upd t (on_fair (\<lambda>e. e\<lparr>deadline_link := True, vruntime_link := True\<rparr>)) s;
            fd = (case first_deadline c of None \<Rightarrow> Some t
                  | Some x \<Rightarrow> if (d, i) < deadline_key s x then Some t else first_deadline c);
            fv = (case first_vruntime c of None \<Rightarrow> Some t
                  | Some x \<Rightarrow> if (vr, i) < vruntime_key s x then Some t else first_vruntime c);
            c = c\<lparr>f_ready := tree_insert (deadline_key s) t (f_ready c),
                  vruntime_tree := tree_insert (vruntime_key s) t (vruntime_tree c),
                  first_deadline := fd, first_vruntime := fv, f_queued := f_queued c + 1,
                  sum_wv := sum_wv c + vr * w, total_weight := total_weight c + w\<rparr> in
        Some (s, if cur \<noteq> None then update_min_vruntime s cur c else c))"

definition dequeue_entity_with_weight ::
  "store \<Rightarrow> fair_class \<Rightarrow> int \<times> nat \<Rightarrow> int option \<Rightarrow> (store \<times> fair_class \<times> task_ref option) option" where
  "dequeue_entity_with_weight s c key queued_weight =
     (case tree_find (deadline_key s) key (f_ready c) of
        None \<Rightarrow> Some (s, c, None)
      | Some t \<Rightarrow>
          let fd = (if first_deadline c = Some t then next_after t (f_ready c) else first_deadline c);
              w = (case queued_weight of Some w \<Rightarrow> w | None \<Rightarrow> fweight (s t));
              vr = vruntime (fair (s t)) in
          if tree_find (vruntime_key s) (vruntime_key s t) (vruntime_tree c) \<noteq> Some t then None
          else
            let fv = (if first_vruntime c = Some t then next_after t (vruntime_tree c) else first_vruntime c);
                s = upd t (set_seat QDetached \<circ> on_fair (\<lambda>e. e\<lparr>deadline_link := False, vruntime_link := False\<rparr>)) s in
            Some (s, c\<lparr>f_ready := remove1 t (f_ready c), vruntime_tree := remove1 t (vruntime_tree c),
                first_deadline := fd, first_vruntime := fv, f_queued := f_queued c - 1,
                sum_wv := sum_wv c - vr * w, total_weight := total_weight c - w\<rparr>, Some t))"

definition dequeue_entity :: "store \<Rightarrow> fair_class \<Rightarrow> int \<times> nat \<Rightarrow> (store \<times> fair_class \<times> task_ref option) option" where
  "dequeue_entity s c key = dequeue_entity_with_weight s c key None"

text \<open>\<open>Iterator::min\<close> of the keys.\<close>

fun min_key :: "'k::linorder list \<Rightarrow> 'k option" where
  "min_key [] = None"
| "min_key (k # ks) = Some (foldl min k ks)"

definition earliest_eligible :: "store \<Rightarrow> fair_class \<Rightarrow> int \<Rightarrow> (int \<times> nat) option" where
  "earliest_eligible s c avg =
     (case first_deadline c of
        None \<Rightarrow> None
      | Some t \<Rightarrow>
          if is_eligible (vruntime (fair (s t))) avg then Some (deadline_key s t)
          else min_key (map (deadline_key s) (takeWhile (\<lambda>t. is_eligible (vruntime (fair (s t))) avg) (vruntime_tree c))))"

definition clear_buddy :: "fair_class \<Rightarrow> fair_class" where
  "clear_buddy c = c\<lparr>next_buddy := None, has_sync_wake := False\<rparr>"

definition clear_buddy_if :: "task_ref \<Rightarrow> fair_class \<Rightarrow> fair_class" where
  "clear_buddy_if t c = (if next_buddy c = Some t then clear_buddy c else c)"

definition is_buddy_eligible :: "store \<Rightarrow> fair_class \<Rightarrow> int \<Rightarrow> bool" where
  "is_buddy_eligible s c avg \<longleftrightarrow> (case next_buddy c of None \<Rightarrow> False | Some b \<Rightarrow> is_eligible (vruntime (fair (s b))) avg)"

definition entity_before :: "sched_task \<Rightarrow> sched_task \<Rightarrow> bool" where
  "entity_before a b \<longleftrightarrow> deadline (fair a) < deadline (fair b)
     \<or> (deadline (fair a) = deadline (fair b) \<and> tree_id (fair a) < tree_id (fair b))"

definition set_next_buddy :: "store \<Rightarrow> task_ref \<Rightarrow> fair_class \<Rightarrow> fair_class" where
  "set_next_buddy s wakee c =
     (case next_buddy c of
        Some existing \<Rightarrow> if entity_before (s existing) (s wakee) then c else c\<lparr>next_buddy := Some wakee\<rparr>
      | None \<Rightarrow> c\<lparr>next_buddy := Some wakee\<rparr>)"

text \<open>A missing nominated task is a panic.\<close>

definition pick_buddy :: "store \<Rightarrow> fair_class \<Rightarrow> (store \<times> fair_class \<times> task_ref option) option" where
  "pick_buddy s c =
     (let avg = avg_vruntime s c None in
      case next_buddy c of
        None \<Rightarrow> Some (s, c, None)
      | Some b \<Rightarrow>
          if \<not> is_buddy_eligible s c avg then Some (s, c, None)
          else do {
            (s, c, found) \<leftarrow> dequeue_entity s (c\<lparr>next_buddy := None, has_sync_wake := False\<rparr>) (deadline_key s b);
            (case found of None \<Rightarrow> None | Some t \<Rightarrow> Some (s, c, Some t))
          })"

definition update_entity_lag :: "store \<Rightarrow> fair_class \<Rightarrow> task_ref \<Rightarrow> store" where
  "update_entity_lag s c cur =
     (let lag = as_i64 (avg_vruntime s c (Some cur) - vruntime (fair (s cur))) in
      upd cur (on_fair (\<lambda>e. e\<lparr>vlag := clamp_vlag lag (int (weight e)) (request_ns e)\<rparr>)) s)"

definition rescale_vlag :: "int \<Rightarrow> sched_task \<Rightarrow> sched_task" where
  "rescale_vlag old_weight t =
     (let new_weight = fweight t in
      if new_weight \<noteq> old_weight \<and> new_weight \<noteq> 0
      then on_fair (\<lambda>e. e\<lparr>vlag := as_i64 ((vlag e * old_weight) sdiv new_weight)\<rparr>) t else t)"

definition update_deadline :: "store \<Rightarrow> fair_class \<Rightarrow> task_ref \<Rightarrow> store \<times> bool" where
  "update_deadline s c cur =
     (let e = fair (s cur) in
      if vruntime e \<ge> deadline e \<or> slice_left_ns e = 0
      then (upd cur (set_request (vruntime e) (request_ns e)) s, f_ready c \<noteq> [])
      else (s, False))"

definition dequeue_with_lag ::
  "store \<Rightarrow> fair_class \<Rightarrow> task_ref \<Rightarrow> task_ref option \<Rightarrow> (store \<times> fair_class \<times> task_ref option) option" where
  "dequeue_with_lag s c t cur =
     (if \<not> fair_contains s c t then Some (s, c, None)
      else
        let c = clear_buddy_if t c; lag = as_i64 (avg_vruntime s c cur - vruntime (fair (s t))) in do {
          (s, c, removed) \<leftarrow> dequeue_entity s c (deadline_key s t);
          (case removed of
             None \<Rightarrow> Some (s, c, None)
           | Some r \<Rightarrow>
               let s = upd r (on_fair (\<lambda>e. e\<lparr>vlag := clamp_vlag lag (int (weight e)) (request_ns e)\<rparr>)) s in
               Some (s, update_min_vruntime s cur c, Some r))
        })"

definition enqueue_wake :: "store \<Rightarrow> fair_class \<Rightarrow> task_ref \<Rightarrow> task_ref option \<Rightarrow> bool \<Rightarrow> (store \<times> fair_class) option" where
  "enqueue_wake s c t cur sync = do {
     (s, c) \<leftarrow> enqueue_tree (apply_lag s c t cur) c t cur;
     (let c = set_next_buddy s t c in
      Some (s, if sync \<and> next_buddy c \<noteq> None then c\<lparr>has_sync_wake := True\<rparr> else c))
   }"

definition requeue_prev :: "store \<Rightarrow> fair_class \<Rightarrow> task_ref \<Rightarrow> (store \<times> fair_class) option" where
  "requeue_prev s c prev = enqueue_tree s c prev None"

definition peer_preempts :: "store \<Rightarrow> fair_class \<Rightarrow> task_ref \<Rightarrow> bool option" where
  "peer_preempts s c cur =
     (if f_ready c = [] then Some False
      else
        let avg = avg_vruntime s c (Some cur) in
        if has_sync_wake c \<and> is_buddy_eligible s c avg then Some True
        else case earliest_eligible s c avg of
          None \<Rightarrow> Some False
        | Some key \<Rightarrow>
            (case tree_find (deadline_key s) key (f_ready c) of
               None \<Rightarrow> None
             | Some peer \<Rightarrow> Some (\<not> is_eligible (vruntime (fair (s cur))) avg \<or> \<not> entity_before (s cur) (s peer))))"

definition is_unplaced :: "sched_task \<Rightarrow> bool" where
  "is_unplaced t \<longleftrightarrow> vlag (fair t) = 0 \<and> vruntime (fair t) = 0 \<and> deadline (fair t) = 0"

definition rescale_deadline :: "int \<Rightarrow> sched_task \<Rightarrow> sched_task" where
  "rescale_deadline old_weight t =
     (let t = rescale_vlag old_weight t; remaining = max (slice_left_ns (fair t)) 1 in
      on_fair (\<lambda>e. e\<lparr>deadline := request_deadline (vruntime e) remaining (int (weight e))\<rparr>) t)"

section \<open>Class operations\<close>

definition fair_has_runnable :: "fair_class \<Rightarrow> bool" where
  "fair_has_runnable c \<longleftrightarrow> f_ready c \<noteq> []"

definition fair_enqueue ::
  "store \<Rightarrow> fair_class \<Rightarrow> task_ref \<Rightarrow> enqueue_kind \<Rightarrow> task_ref option \<Rightarrow> (store \<times> fair_class) option" where
  "fair_enqueue s c t kind cur =
     (case kind of
        ENew \<Rightarrow> enqueue_tree (place_new_entity s c t cur) c t cur
      | EWake sync \<Rightarrow> enqueue_wake s c t cur sync
      | EMigrateIn \<Rightarrow> enqueue_wake s c t cur False
      | EClassChange \<Rightarrow> enqueue_tree (apply_lag s c t cur) c t cur)"

definition fair_dequeue ::
  "store \<Rightarrow> fair_class \<Rightarrow> task_ref \<Rightarrow> task_ref option \<Rightarrow> (store \<times> fair_class \<times> task_ref option) option" where
  "fair_dequeue s c t cur = dequeue_with_lag s c t cur"

definition fair_steal ::
  "(sched_task \<Rightarrow> bool) \<Rightarrow> store \<Rightarrow> fair_class \<Rightarrow> task_ref option \<Rightarrow> (store \<times> fair_class \<times> task_ref option) option" where
  "fair_steal want s c cur =
     (case find (\<lambda>t. want (s t)) (f_ready c) of None \<Rightarrow> Some (s, c, None) | Some t \<Rightarrow> dequeue_with_lag s c t cur)"

definition fair_pick_next :: "store \<Rightarrow> fair_class \<Rightarrow> (store \<times> fair_class \<times> task_ref option) option" where
  "fair_pick_next s c =
     (if f_ready c = [] then Some (s, clear_buddy c, None)
      else do {
        (s, c, buddy) \<leftarrow> pick_buddy s c;
        (case buddy of
           Some t \<Rightarrow> Some (s, c, Some t)
         | None \<Rightarrow> do {
             key \<leftarrow> (case earliest_eligible s c (avg_vruntime s c None) of Some key \<Rightarrow> Some key | None \<Rightarrow> first_deadline_key s c);
             (s, c, picked) \<leftarrow> dequeue_entity s c key;
             (case picked of None \<Rightarrow> None | Some t \<Rightarrow> Some (s, clear_buddy_if t c, Some t))
           })
      })"

definition fair_set_curr :: "store \<Rightarrow> fair_class \<Rightarrow> task_ref \<Rightarrow> store \<times> fair_class" where
  "fair_set_curr s c t =
     (let s = (if is_unplaced (s t) then place_new_entity s c t None else s) in (s, update_min_vruntime s (Some t) c))"

definition fair_put_prev :: "store \<Rightarrow> fair_class \<Rightarrow> task_ref \<Rightarrow> leave_reason \<Rightarrow> (store \<times> fair_class \<times> bool) option" where
  "fair_put_prev s c prev reason =
     (let c = update_min_vruntime s (Some prev) (clear_buddy_if prev c);
          vr = max (vruntime (fair (s prev))) (min_vruntime c) in
      case reason of
        LYield \<Rightarrow> do {
          (s, c) \<leftarrow> requeue_prev (upd prev (\<lambda>x. set_request vr (request_ns (fair x)) x) s) c prev;
          Some (s, c, True)
        }
      | LPreempt \<Rightarrow>
          let s = upd prev (on_fair (\<lambda>e. e\<lparr>vruntime := vr\<rparr>)) s; left = slice_left_ns (fair (s prev));
              s = (if left = 0 then upd prev (\<lambda>x. set_request vr (request_ns (fair x)) x) s
                   else if deadline (fair (s prev)) \<le> vr
                   then upd prev (on_fair (\<lambda>e. e\<lparr>deadline := request_deadline vr left (int (weight e))\<rparr>)) s
                   else s) in do {
            (s, c) \<leftarrow> requeue_prev s c prev;
            Some (s, c, True)
          }
      | LExit \<Rightarrow> Some (s, c, False)
      | _ \<Rightarrow> Some (update_entity_lag s c prev, c, False))"

definition fair_account :: "store \<Rightarrow> fair_class \<Rightarrow> task_ref \<Rightarrow> nat \<Rightarrow> store \<times> bool" where
  "fair_account s c cur elapsed =
     (let s = (if elapsed > 0 then
          let delta = vruntime_delta elapsed (fweight (s cur)) in
          upd cur (on_fair (\<lambda>e. e\<lparr>vruntime := clamp I64_MIN I64_MAX (vruntime e + delta),
              slice_left_ns := slice_left_ns e - min elapsed (slice_left_ns e)\<rparr>)) s
        else s) in
      update_deadline s c cur)"

definition fair_tick_preempts :: "store \<Rightarrow> fair_class \<Rightarrow> task_ref \<Rightarrow> bool option" where
  "fair_tick_preempts s c cur = peer_preempts s c cur"

definition fair_wakeup_preempts :: "store \<Rightarrow> fair_class \<Rightarrow> task_ref \<Rightarrow> bool option" where
  "fair_wakeup_preempts s c cur = peer_preempts s c cur"

definition fair_curr_timer_ns :: "store \<Rightarrow> fair_class \<Rightarrow> task_ref \<Rightarrow> nat option" where
  "fair_curr_timer_ns s c cur =
     (let e = fair (s cur) in
      if f_ready c = [] then None
      else if deadline e \<le> vruntime e then Some 0
      else
        let until = slice_left_ns e; avg = avg_vruntime s c (Some cur); ld = load s c (Some cur) in
        case next_buddy c of
          Some b \<Rightarrow>
            if has_sync_wake c \<and> \<not> is_eligible (vruntime (fair (s b))) avg \<and> ld > 0
            then Some (min until (vruntime_to_wall_ns (as_i64 (vruntime (fair (s b)) - avg)) ld)) else Some until
        | None \<Rightarrow> Some until)"

definition fair_attr_changed ::
  "store \<Rightarrow> fair_class \<Rightarrow> task_ref \<Rightarrow> sched_attr \<Rightarrow> bool \<Rightarrow> (store \<times> fair_class) option" where
  "fair_attr_changed s c t old is_curr =
     (let old_weight = int (nice_weight (nice old)) in
      if is_curr then Some (upd t (rescale_deadline old_weight) s, c)
      else if seat (s t) \<noteq> QFair then Some (upd t (rescale_vlag old_weight) s, c)
      else do {
        (s, c, removed) \<leftarrow> dequeue_entity_with_weight s c (deadline_key s t) (Some old_weight);
        (case removed of
           None \<Rightarrow> Some (s, c)
         | Some r \<Rightarrow> enqueue_tree (upd r (rescale_deadline old_weight) s) c r None)
      })"

definition fair_switched_from :: "store \<Rightarrow> fair_class \<Rightarrow> task_ref \<Rightarrow> bool \<Rightarrow> store \<times> fair_class" where
  "fair_switched_from s c t is_curr =
     (if is_curr then let s = update_entity_lag s c t in (s, update_min_vruntime s None c) else (s, c))"

definition fair_switched_to :: "store \<Rightarrow> fair_class \<Rightarrow> task_ref \<Rightarrow> bool \<Rightarrow> store \<times> fair_class" where
  "fair_switched_to s c t is_curr = (if is_curr then fair_set_curr s c t else (s, c))"

end
