(* ===== verification/Scheduler.thy ===== *)
theory Scheduler
  imports SchedRt SchedDeadline SchedFair
begin

text \<open>
  The class arbitrator of \<open>src/task/ksched/src/scheduler.rs\<close>: one run queue with its clock, its runner and
  the five classes in rank order. Every public operation is one definition over the task store and the
  run queue; \<open>None\<close> is a panic.
\<close>

record scheduler =
  clock :: rq_clock
  cur :: "task_ref option"
  stop_c :: stop_class
  deadline_c :: deadline_class
  rt_c :: rt_class
  fair_c :: fair_class
  idle_c :: task_ref

definition scheduler_new :: "sched_config \<Rightarrow> nat \<Rightarrow> task_ref \<Rightarrow> nat \<Rightarrow> scheduler" where
  "scheduler_new cfg self idle now =
     \<lparr>clock = clock_new now, cur = None, stop_c = None, deadline_c = deadline_class_new,
      rt_c = rt_class_new cfg self, fair_c = fair_class_new cfg, idle_c = idle\<rparr>"

definition curr_for :: "store \<Rightarrow> task_ref option \<Rightarrow> sched_class \<Rightarrow> task_ref option" where
  "curr_for s cu c = (case cu of Some t \<Rightarrow> if sched_class_of (s t) = c then Some t else None | None \<Rightarrow> None)"

section \<open>Dispatch to a class\<close>

text \<open>The classes that change when time passes are the realtime and the deadline class.\<close>

definition advance_classes :: "store \<Rightarrow> scheduler \<Rightarrow> (store \<times> scheduler) option" where
  "advance_classes s q = do {
     (s, d) \<leftarrow> dl_advance s (deadline_c q) (now_ns (clock q));
     Some (s, q\<lparr>deadline_c := d, rt_c := rt_advance (rt_c q) (now_ns (clock q))\<rparr>)
   }"

definition class_account :: "store \<Rightarrow> scheduler \<Rightarrow> sched_class \<Rightarrow> task_ref \<Rightarrow> nat \<Rightarrow> (store \<times> scheduler \<times> bool) option" where
  "class_account s q c t elapsed =
     (case c of
        CStop \<Rightarrow> Some (s, q, False)
      | CDeadline \<Rightarrow> let (s, r) = dl_account s t elapsed in Some (s, q, r)
      | CRt \<Rightarrow> do { (s, k, r) \<leftarrow> rt_account s (rt_c q) t elapsed; Some (s, q\<lparr>rt_c := k\<rparr>, r) }
      | CFair \<Rightarrow> let (s, r) = fair_account s (fair_c q) t elapsed in Some (s, q, r)
      | CIdle \<Rightarrow> Some (s, q, False))"

definition charge :: "store \<Rightarrow> scheduler \<Rightarrow> nat \<Rightarrow> (store \<times> scheduler \<times> bool) option" where
  "charge s q now =
     (let (k, elapsed) = clock_advance (clock q) now in do {
        (s, q) \<leftarrow> advance_classes s (q\<lparr>clock := k\<rparr>);
        (case cur q of
           None \<Rightarrow> Some (s, q, False)
         | Some t \<Rightarrow>
             let c = sched_class_of (s t) in
             class_account (if c \<noteq> CIdle \<and> elapsed \<noteq> 0 then upd t (account_runtime elapsed) s else s) q c t elapsed)
      })"

definition class_has_runnable :: "scheduler \<Rightarrow> sched_class \<Rightarrow> bool" where
  "class_has_runnable q c =
     (case c of
        CStop \<Rightarrow> stop_has_runnable (stop_c q)
      | CDeadline \<Rightarrow> dl_has_runnable (deadline_c q)
      | CRt \<Rightarrow> rt_has_runnable (rt_c q)
      | CFair \<Rightarrow> fair_has_runnable (fair_c q)
      | CIdle \<Rightarrow> True)"

definition by_rank :: "sched_class list" where
  "by_rank = [CStop, CDeadline, CRt, CFair, CIdle]"

definition higher_class_runnable :: "scheduler \<Rightarrow> sched_class \<Rightarrow> bool" where
  "higher_class_runnable q than \<longleftrightarrow>
     list_ex (class_has_runnable q) (takeWhile (\<lambda>c. is_above c than) by_rank)"

definition class_tick_preempts :: "store \<Rightarrow> scheduler \<Rightarrow> sched_class \<Rightarrow> task_ref \<Rightarrow> bool option" where
  "class_tick_preempts s q c t =
     (case c of
        CRt \<Rightarrow> Some (rt_tick_preempts s (rt_c q) t)
      | CFair \<Rightarrow> fair_tick_preempts s (fair_c q) t
      | CDeadline \<Rightarrow> Some dl_tick_preempts
      | _ \<Rightarrow> Some False)"

definition class_wakeup_preempts :: "store \<Rightarrow> scheduler \<Rightarrow> sched_class \<Rightarrow> task_ref \<Rightarrow> bool option" where
  "class_wakeup_preempts s q c t =
     (case c of
        CRt \<Rightarrow> Some (rt_wakeup_preempts s (rt_c q) t)
      | CFair \<Rightarrow> fair_wakeup_preempts s (fair_c q) t
      | CDeadline \<Rightarrow> Some (dl_wakeup_preempts s (deadline_c q) t)
      | _ \<Rightarrow> Some False)"

definition resched_needed :: "store \<Rightarrow> scheduler \<Rightarrow> update_kind \<Rightarrow> bool \<Rightarrow> bool option" where
  "resched_needed s q kind exhausted =
     (case cur q of
        None \<Rightarrow> Some True
      | Some t \<Rightarrow>
          let c = sched_class_of (s t) in
          if exhausted \<or> higher_class_runnable q c then Some True
          else case kind of
            UAccount \<Rightarrow> Some False
          | USchedTick \<Rightarrow> class_tick_preempts s q c t
          | UWakeProbe \<Rightarrow> class_wakeup_preempts s q c t)"

definition min_with :: "nat option \<Rightarrow> nat option \<Rightarrow> nat option" where
  "min_with acc v = (case v of None \<Rightarrow> acc | Some ns \<Rightarrow> Some (case acc of None \<Rightarrow> ns | Some a \<Rightarrow> min a ns))"

definition class_curr_timer_ns :: "store \<Rightarrow> scheduler \<Rightarrow> sched_class \<Rightarrow> task_ref \<Rightarrow> nat option option" where
  "class_curr_timer_ns s q c t =
     (case c of
        CDeadline \<Rightarrow> Some (dl_curr_timer_ns s t (now_ns (clock q)))
      | CRt \<Rightarrow> rt_curr_timer_ns s (rt_c q) t
      | CFair \<Rightarrow> Some (fair_curr_timer_ns s (fair_c q) t)
      | _ \<Rightarrow> Some None)"

definition class_timer_ns :: "store \<Rightarrow> scheduler \<Rightarrow> sched_class \<Rightarrow> nat option" where
  "class_timer_ns s q c =
     (case c of
        CDeadline \<Rightarrow> dl_class_timer_ns s (deadline_c q) (now_ns (clock q))
      | CRt \<Rightarrow> rt_class_timer_ns (rt_c q) (now_ns (clock q))
      | _ \<Rightarrow> None)"

definition compute_next_event :: "store \<Rightarrow> scheduler \<Rightarrow> nat option option" where
  "compute_next_event s q =
     (let classes = (\<lambda>next. foldl (\<lambda>acc c. min_with acc (class_timer_ns s q c)) next by_rank) in
      case cur q of
        None \<Rightarrow> Some (classes None)
      | Some t \<Rightarrow>
          let c = sched_class_of (s t) in
          if higher_class_runnable q c then Some (Some 0)
          else do { v \<leftarrow> class_curr_timer_ns s q c t; Some (classes (min_with None v)) })"

definition class_put_prev :: "store \<Rightarrow> scheduler \<Rightarrow> sched_class \<Rightarrow> task_ref \<Rightarrow> leave_reason \<Rightarrow> (store \<times> scheduler \<times> bool) option" where
  "class_put_prev s q c t reason =
     (case c of
        CStop \<Rightarrow> let (s, w, r) = stop_put_prev s (stop_c q) t reason in Some (s, q\<lparr>stop_c := w\<rparr>, r)
      | CDeadline \<Rightarrow> do { (s, k, r) \<leftarrow> dl_put_prev s (deadline_c q) t reason; Some (s, q\<lparr>deadline_c := k\<rparr>, r) }
      | CRt \<Rightarrow> do { (s, k, r) \<leftarrow> rt_put_prev s (rt_c q) t reason; Some (s, q\<lparr>rt_c := k\<rparr>, r) }
      | CFair \<Rightarrow> do { (s, k, r) \<leftarrow> fair_put_prev s (fair_c q) t reason; Some (s, q\<lparr>fair_c := k\<rparr>, r) }
      | CIdle \<Rightarrow> Some (s, q, False))"

definition leave :: "store \<Rightarrow> scheduler \<Rightarrow> nat \<Rightarrow> leave_reason \<Rightarrow> (store \<times> scheduler \<times> task_ref) option" where
  "leave s q now reason = do {
     (s, q, _) \<leftarrow> charge s q now;
     t \<leftarrow> cur q;
     (s, q, _) \<leftarrow> class_put_prev s (q\<lparr>cur := None\<rparr>) (sched_class_of (s t)) t reason;
     Some (s, q, t)
   }"

definition class_set_curr :: "store \<Rightarrow> scheduler \<Rightarrow> sched_class \<Rightarrow> task_ref \<Rightarrow> (store \<times> scheduler) option" where
  "class_set_curr s q c t =
     (case c of
        CStop \<Rightarrow> do { _ \<leftarrow> stop_set_curr (stop_c q); Some (s, q) }
      | CDeadline \<Rightarrow> let (s, k) = dl_set_curr s (deadline_c q) t (now_ns (clock q)) in Some (s, q\<lparr>deadline_c := k\<rparr>)
      | CFair \<Rightarrow> let (s, k) = fair_set_curr s (fair_c q) t in Some (s, q\<lparr>fair_c := k\<rparr>)
      | _ \<Rightarrow> Some (s, q))"

definition class_enqueue ::
  "store \<Rightarrow> scheduler \<Rightarrow> sched_class \<Rightarrow> task_ref \<Rightarrow> enqueue_kind \<Rightarrow> task_ref option \<Rightarrow> (store \<times> scheduler) option" where
  "class_enqueue s q c t kind cu =
     (case c of
        CStop \<Rightarrow> do { (s, k) \<leftarrow> stop_enqueue s (stop_c q) t cu; Some (s, q\<lparr>stop_c := k\<rparr>) }
      | CDeadline \<Rightarrow> do { (s, k) \<leftarrow> dl_enqueue s (deadline_c q) t kind (now_ns (clock q)); Some (s, q\<lparr>deadline_c := k\<rparr>) }
      | CRt \<Rightarrow> do { (s, k) \<leftarrow> rt_enqueue s (rt_c q) t kind; Some (s, q\<lparr>rt_c := k\<rparr>) }
      | CFair \<Rightarrow> do { (s, k) \<leftarrow> fair_enqueue s (fair_c q) t kind cu; Some (s, q\<lparr>fair_c := k\<rparr>) }
      | CIdle \<Rightarrow> None)"

definition class_dequeue ::
  "store \<Rightarrow> scheduler \<Rightarrow> sched_class \<Rightarrow> task_ref \<Rightarrow> task_ref option \<Rightarrow> (store \<times> scheduler \<times> task_ref option) option" where
  "class_dequeue s q c t cu =
     (case c of
        CStop \<Rightarrow> let (s, k, r) = stop_dequeue s (stop_c q) t in Some (s, q\<lparr>stop_c := k\<rparr>, r)
      | CDeadline \<Rightarrow> let (s, k, r) = dl_dequeue s (deadline_c q) t in Some (s, q\<lparr>deadline_c := k\<rparr>, r)
      | CRt \<Rightarrow> do { (s, k, r) \<leftarrow> rt_dequeue s (rt_c q) t; Some (s, q\<lparr>rt_c := k\<rparr>, r) }
      | CFair \<Rightarrow> do { (s, k, r) \<leftarrow> fair_dequeue s (fair_c q) t cu; Some (s, q\<lparr>fair_c := k\<rparr>, r) }
      | CIdle \<Rightarrow> Some (s, q, None))"

definition class_pick_next :: "store \<Rightarrow> scheduler \<Rightarrow> sched_class \<Rightarrow> (store \<times> scheduler \<times> task_ref option) option" where
  "class_pick_next s q c =
     (case c of
        CStop \<Rightarrow> let (s, k, r) = stop_pick_next s (stop_c q) in Some (s, q\<lparr>stop_c := k\<rparr>, r)
      | CDeadline \<Rightarrow> let (s, k, r) = dl_pick_next s (deadline_c q) in Some (s, q\<lparr>deadline_c := k\<rparr>, r)
      | CRt \<Rightarrow> do { (s, k, r) \<leftarrow> rt_pick_next s (rt_c q); Some (s, q\<lparr>rt_c := k\<rparr>, r) }
      | CFair \<Rightarrow> do { (s, k, r) \<leftarrow> fair_pick_next s (fair_c q); Some (s, q\<lparr>fair_c := k\<rparr>, r) }
      | CIdle \<Rightarrow> Some (s, q, Some (idle_c q)))"

section \<open>Public operations\<close>

definition install_current :: "store \<Rightarrow> scheduler \<Rightarrow> task_ref \<Rightarrow> nat \<Rightarrow> (store \<times> scheduler) option" where
  "install_current s q t now =
     (if cur q \<noteq> None then None
      else do {
        (s, q) \<leftarrow> advance_classes s (q\<lparr>clock := fst (clock_advance (clock q) now)\<rparr>);
        (s, q) \<leftarrow> class_set_curr s q (sched_class_of (s t)) t;
        Some (s, q\<lparr>cur := Some t\<rparr>)
      })"

definition rt_preempt_rank :: "store \<Rightarrow> scheduler \<Rightarrow> nat" where
  "rt_preempt_rank s q =
     (if is_throttled_at (rt_c q) (now_ns (clock q)) then 255
      else case cur q of
        None \<Rightarrow> 0
      | Some t \<Rightarrow>
          (case sched_class_of (s t) of
             CIdle \<Rightarrow> 0 | CFair \<Rightarrow> 0 | CRt \<Rightarrow> rt_priority (attr (s t)) | CStop \<Rightarrow> 255 | CDeadline \<Rightarrow> 255))"

definition nr_queued :: "scheduler \<Rightarrow> nat" where
  "nr_queued q =
     stop_nr_queued (stop_c q) + dl_nr_queued (deadline_c q) + queued (rt_c q) + f_queued (fair_c q)"

definition sched_update :: "store \<Rightarrow> scheduler \<Rightarrow> nat \<Rightarrow> update_kind \<Rightarrow> (store \<times> scheduler \<times> sched_decision) option" where
  "sched_update s q now kind = do {
     (s, q, exhausted) \<leftarrow> charge s q now;
     r \<leftarrow> resched_needed s q kind exhausted;
     n \<leftarrow> compute_next_event s q;
     Some (s, q, \<lparr>resched = r, next_event_ns = n\<rparr>)
   }"

definition sched_enqueue :: "store \<Rightarrow> scheduler \<Rightarrow> task_ref \<Rightarrow> enqueue_kind \<Rightarrow> nat \<Rightarrow> (store \<times> scheduler \<times> sched_decision) option" where
  "sched_enqueue s q t kind now = do {
     (s, q, _) \<leftarrow> charge s q now;
     (let c = sched_class_of (s t) in do {
        (s, q) \<leftarrow> class_enqueue s q c t kind (curr_for s (cur q) c);
        r \<leftarrow> resched_needed s q UWakeProbe False;
        n \<leftarrow> compute_next_event s q;
        Some (s, q, \<lparr>resched = r, next_event_ns = n\<rparr>)
      })
   }"

definition sched_dequeue :: "store \<Rightarrow> scheduler \<Rightarrow> task_ref \<Rightarrow> nat \<Rightarrow> (store \<times> scheduler \<times> task_ref option) option" where
  "sched_dequeue s q t now = do {
     (s, q, _) \<leftarrow> charge s q now;
     if seat (s t) = QDetached then Some (s, q, None)
     else let c = sched_class_of (s t) in class_dequeue s q c t (curr_for s (cur q) c)
   }"

definition sched_steal :: "(sched_task \<Rightarrow> bool) \<Rightarrow> store \<Rightarrow> scheduler \<Rightarrow> nat \<Rightarrow> (store \<times> scheduler \<times> task_ref option) option" where
  "sched_steal want s q now = do {
     (s, q, _) \<leftarrow> charge s q now;
     (s, k, r) \<leftarrow> rt_steal want s (rt_c q);
     (let q = q\<lparr>rt_c := k\<rparr> in
      case r of
        Some t \<Rightarrow> Some (s, q, Some t)
      | None \<Rightarrow> do {
          (s, k, r) \<leftarrow> fair_steal want s (fair_c q) (curr_for s (cur q) CFair);
          Some (s, q\<lparr>fair_c := k\<rparr>, r)
        })
   }"

text \<open>The rank loop of \<open>pick_next\<close>; running out of classes is unreachable code.\<close>

fun pick_by_rank :: "store \<Rightarrow> scheduler \<Rightarrow> sched_class list \<Rightarrow> (store \<times> scheduler \<times> task_ref) option" where
  "pick_by_rank s q [] = None"
| "pick_by_rank s q (c # cs) = do {
     (s, q, r) \<leftarrow> class_pick_next s q c;
     (case r of Some t \<Rightarrow> Some (s, q\<lparr>cur := Some t\<rparr>, t) | None \<Rightarrow> pick_by_rank s q cs)
   }"

definition sched_pick_next :: "store \<Rightarrow> scheduler \<Rightarrow> nat \<Rightarrow> (store \<times> scheduler \<times> task_ref) option" where
  "sched_pick_next s q now =
     (if cur q \<noteq> None then None
      else do {
        (s, q) \<leftarrow> advance_classes s (q\<lparr>clock := fst (clock_advance (clock q) now)\<rparr>);
        pick_by_rank s q by_rank
      })"

definition yield_current :: "store \<Rightarrow> scheduler \<Rightarrow> nat \<Rightarrow> (store \<times> scheduler) option" where
  "yield_current s q now = do { (s, q, _) \<leftarrow> leave s q now LYield; Some (s, q) }"

definition preempt_current :: "store \<Rightarrow> scheduler \<Rightarrow> nat \<Rightarrow> (store \<times> scheduler) option" where
  "preempt_current s q now = do { (s, q, _) \<leftarrow> leave s q now LPreempt; Some (s, q) }"

definition block_current :: "store \<Rightarrow> scheduler \<Rightarrow> nat \<Rightarrow> (store \<times> scheduler) option" where
  "block_current s q now = do { (s, q, _) \<leftarrow> leave s q now LBlock; Some (s, q) }"

definition migrate_current :: "store \<Rightarrow> scheduler \<Rightarrow> nat \<Rightarrow> (store \<times> scheduler) option" where
  "migrate_current s q now = do { (s, q, _) \<leftarrow> leave s q now LMigrate; Some (s, q) }"

definition exit_current :: "store \<Rightarrow> scheduler \<Rightarrow> nat \<Rightarrow> (store \<times> scheduler \<times> task_ref) option" where
  "exit_current s q now = leave s q now LExit"

text \<open>The class-specific parts of \<open>set_attr\<close>.\<close>

definition class_can_admit :: "sched_config \<Rightarrow> store \<Rightarrow> scheduler \<Rightarrow> sched_class \<Rightarrow> task_ref \<Rightarrow> sched_attr \<Rightarrow> sched_error + unit" where
  "class_can_admit cfg s q c t a =
     (case c of
        CDeadline \<Rightarrow> dl_can_admit cfg s (deadline_c q) t a
      | CStop \<Rightarrow> Inl KernelClassImmutable
      | CIdle \<Rightarrow> Inl KernelClassImmutable
      | _ \<Rightarrow> Inr ())"

definition class_attr_changed ::
  "store \<Rightarrow> scheduler \<Rightarrow> sched_class \<Rightarrow> task_ref \<Rightarrow> sched_attr \<Rightarrow> bool \<Rightarrow> (store \<times> scheduler) option" where
  "class_attr_changed s q c t old is_curr =
     (case c of
        CDeadline \<Rightarrow> let (s, k) = dl_attr_changed s (deadline_c q) t is_curr in Some (s, q\<lparr>deadline_c := k\<rparr>)
      | CRt \<Rightarrow> do { (s, k) \<leftarrow> rt_attr_changed s (rt_c q) t old is_curr; Some (s, q\<lparr>rt_c := k\<rparr>) }
      | CFair \<Rightarrow> do { (s, k) \<leftarrow> fair_attr_changed s (fair_c q) t old is_curr; Some (s, q\<lparr>fair_c := k\<rparr>) }
      | _ \<Rightarrow> Some (s, q))"

definition class_switched_from :: "store \<Rightarrow> scheduler \<Rightarrow> sched_class \<Rightarrow> task_ref \<Rightarrow> bool \<Rightarrow> store \<times> scheduler" where
  "class_switched_from s q c t is_curr =
     (case c of
        CDeadline \<Rightarrow> let (s, k) = dl_switched_from s (deadline_c q) t is_curr in (s, q\<lparr>deadline_c := k\<rparr>)
      | CRt \<Rightarrow> (rt_switched_from s t, q)
      | CFair \<Rightarrow> let (s, k) = fair_switched_from s (fair_c q) t is_curr in (s, q\<lparr>fair_c := k\<rparr>)
      | _ \<Rightarrow> (s, q))"

definition class_switched_to :: "store \<Rightarrow> scheduler \<Rightarrow> sched_class \<Rightarrow> task_ref \<Rightarrow> bool \<Rightarrow> store \<times> scheduler" where
  "class_switched_to s q c t is_curr =
     (case c of
        CDeadline \<Rightarrow>
          let (s, k) = dl_switched_to s (deadline_c q) t is_curr (now_ns (clock q)) in (s, q\<lparr>deadline_c := k\<rparr>)
      | CRt \<Rightarrow> (rt_switched_to s (rt_c q) t, q)
      | CFair \<Rightarrow> let (s, k) = fair_switched_to s (fair_c q) t is_curr in (s, q\<lparr>fair_c := k\<rparr>)
      | _ \<Rightarrow> (s, q))"

definition change_class ::
  "store \<Rightarrow> scheduler \<Rightarrow> task_ref \<Rightarrow> sched_attr \<Rightarrow> sched_attr \<Rightarrow> bool \<Rightarrow> (store \<times> scheduler) option" where
  "change_class s q t old a is_curr =
     (let was_queued = (seat (s t) \<noteq> QDetached); oc = attr_class old; nc = attr_class a in do {
        (s, q) \<leftarrow> (if \<not> is_curr \<and> was_queued then do {
             (s, q, r) \<leftarrow> class_dequeue s q oc t (curr_for s (cur q) oc);
             if r = None then None else Some (s, q)
           } else Some (s, q));
        (let (s, q) = class_switched_from s q oc t is_curr;
             s = upd t (task_set_class nc \<circ> task_set_attr a) s;
             (s, q) = class_switched_to s q nc t is_curr in
         if \<not> is_curr \<and> was_queued then class_enqueue s q nc t EClassChange (curr_for s (cur q) nc) else Some (s, q))
      })"

definition sched_set_attr ::
  "sched_config \<Rightarrow> store \<Rightarrow> scheduler \<Rightarrow> task_ref \<Rightarrow> sched_attr \<Rightarrow> nat \<Rightarrow> (store \<times> scheduler \<times> (sched_error + sched_decision)) option" where
  "sched_set_attr cfg s q t a now =
     (case attr_validate cfg a of
        Inl e \<Rightarrow> Some (s, q, Inl e)
      | Inr _ \<Rightarrow>
          if is_kernel_only (sched_class_of (s t)) then do {
            (s, q, _) \<leftarrow> charge s q now;
            Some (s, q, Inl KernelClassImmutable)
          }
          else do {
            (s, q, _) \<leftarrow> charge s q now;
            (let old = attr (s t); is_curr = (cur q = Some t); nc = attr_class a in
             case class_can_admit cfg s q nc t a of
               Inl e \<Rightarrow> Some (s, q, Inl e)
             | Inr _ \<Rightarrow> do {
                 (s, q) \<leftarrow> (if attr_class old = nc then class_attr_changed (upd t (task_set_attr a) s) q nc t old is_curr
                            else change_class s q t old a is_curr);
                 r \<leftarrow> resched_needed s q UWakeProbe False;
                 n \<leftarrow> compute_next_event s q;
                 Some (s, q, Inr \<lparr>resched = r, next_event_ns = n\<rparr>)
               })
          })"

end
