(* ===== verification/SchedLib.thy ===== *)
theory SchedLib
  imports Scheduler
begin

text \<open>
  Shared facts of the scheduler proofs: ordered trees, the task store, well-formed and unlinked tasks,
  and the contract of a scheduling class (the trait \<open>ClassOps\<close> of \<open>src/task/ksched/src/class.rs\<close>) as a
  locale.
\<close>

section \<open>Ordered trees\<close>

definition ordered :: "('a \<Rightarrow> 'k::linorder) \<Rightarrow> 'a list \<Rightarrow> bool" where
  "ordered key xs \<longleftrightarrow> sorted_wrt (\<lambda>x y. key x < key y) xs"

lemma set_tree_insert [simp]: "set (tree_insert key x xs) = insert x (set xs)"
  by (induction xs) auto

lemma length_tree_insert [simp]: "length (tree_insert key x xs) = Suc (length xs)"
  by (induction xs) auto

lemma ordered_Nil [simp]: "ordered key []"
  by (simp add: ordered_def)

lemma ordered_Cons: "ordered key (x # xs) \<longleftrightarrow> (\<forall>y \<in> set xs. key x < key y) \<and> ordered key xs"
  by (simp add: ordered_def)

lemma ordered_insert: "\<lbrakk>ordered key xs; \<forall>y \<in> set xs. key y \<noteq> key x\<rbrakk> \<Longrightarrow> ordered key (tree_insert key x xs)"
  by (induction xs) (fastforce simp: ordered_Cons)+

lemma ordered_inj: "\<lbrakk>ordered key xs; x \<in> set xs; y \<in> set xs; key x = key y\<rbrakk> \<Longrightarrow> x = y"
proof (induction xs)
  case (Cons a xs)
  then show ?case by (metis less_irrefl ordered_Cons set_ConsD)
qed simp

lemma ordered_distinct: "ordered key xs \<Longrightarrow> distinct xs"
proof (induction xs)
  case (Cons a xs)
  then show ?case using less_irrefl by (fastforce simp: ordered_Cons)
qed simp

lemma ordered_remove1: "ordered key xs \<Longrightarrow> ordered key (remove1 x xs)"
  by (induction xs) (auto simp: ordered_Cons dest!: subsetD [OF set_remove1_subset])

lemma ordered_cong: "(\<And>x. x \<in> set xs \<Longrightarrow> f x = g x) \<Longrightarrow> ordered f xs = ordered g xs"
  by (induction xs) (auto simp: ordered_Cons)

lemma tree_insert_cong:
  "\<lbrakk>f x = g x; \<And>y. y \<in> set xs \<Longrightarrow> f y = g y\<rbrakk> \<Longrightarrow> tree_insert f x xs = tree_insert g x xs"
  by (induction xs) auto

lemma tree_find_Some: "tree_find key k ts = Some t \<Longrightarrow> t \<in> set ts \<and> key t = k"
  by (auto simp: tree_find_def find_Some_iff)

lemma tree_find_None: "tree_find key k ts = None \<longleftrightarrow> (\<forall>t \<in> set ts. key t \<noteq> k)"
  by (auto simp: tree_find_def find_None_iff)

lemma tree_find_member:
  assumes "ordered key ts" "t \<in> set ts"
  shows "tree_find key (key t) ts = Some t"
proof (cases "tree_find key (key t) ts")
  case None
  then show ?thesis using assms(2) by (auto simp: tree_find_None)
next
  case (Some u)
  then show ?thesis using tree_find_Some [OF Some] ordered_inj [OF assms(1) _ assms(2)] by simp
qed

lemma front_simps [simp]: "front [] = None" "front (x # xs) = Some x"
  by (simp_all add: front_def)

lemma front_None [simp]: "front xs = None \<longleftrightarrow> xs = []"
  by (cases xs) simp_all

lemma front_Some: "front xs = Some x \<longleftrightarrow> (\<exists>ys. xs = x # ys)"
  by (cases xs) auto

lemma front_in_set: "front xs = Some x \<Longrightarrow> x \<in> set xs"
  by (auto simp: front_Some)

lemma front_least: "\<lbrakk>ordered key xs; front xs = Some x; y \<in> set xs\<rbrakk> \<Longrightarrow> key x \<le> key y"
  by (auto simp: front_Some ordered_Cons less_imp_le)

lemma front_tree_insert:
  "front (tree_insert key x xs) = (case front xs of None \<Rightarrow> Some x | Some y \<Rightarrow> if key x < key y then Some x else Some y)"
  by (cases xs) auto

lemma front_remove1:
  "distinct xs \<Longrightarrow> front (remove1 x xs) = (if front xs = Some x then next_after x xs else front xs)"
  by (cases xs) (auto simp: front_def split: list.splits)

section \<open>Sums over the waiting tasks\<close>

lemma sum_list_tree_insert: "sum_list (map f (tree_insert key x xs)) = f x + sum_list (map f xs)"
  for f :: "'a \<Rightarrow> 'b::comm_monoid_add"
  by (induction xs) (auto simp: ac_simps)

lemma sum_list_remove1: "x \<in> set xs \<Longrightarrow> sum_list (map f (remove1 x xs)) = sum_list (map f xs) - f x"
  for f :: "'a \<Rightarrow> int"
  by (induction xs) auto

lemma sum_list_cong: "(\<And>x. x \<in> set xs \<Longrightarrow> f x = g x) \<Longrightarrow> sum_list (map f xs) = sum_list (map g xs)"
  by (metis map_cong)

section \<open>The task store\<close>

lemma upd_same [simp]: "upd t f s t = f (s t)"
  by (simp add: upd_def)

lemma upd_other [simp]: "x \<noteq> t \<Longrightarrow> upd t f s x = s x"
  by (simp add: upd_def)

lemma upd_upd: "upd t g (upd t f s) = upd t (\<lambda>x. g (f x)) s"
  by (simp add: upd_def)

lemmas task_defs = set_seat_def on_fair_def on_rt_def on_dl_def

lemma class_roundtrip [simp]: "class_from_u8 (class_as_u8 c) = c"
  by (cases c) (simp_all add: class_from_u8_def class_as_u8_def)

text \<open>A task linked in no ready structure, and a detached one.\<close>

definition unlinked :: "sched_task \<Rightarrow> bool" where
  "unlinked t \<longleftrightarrow> rt_links t = None \<and> \<not> deadline_link (fair t) \<and> \<not> vruntime_link (fair t)
     \<and> \<not> ready_link (dl t) \<and> \<not> throttled_link (dl t)"

definition idle_links :: "sched_task \<Rightarrow> bool" where
  "idle_links t \<longleftrightarrow> unlinked t \<and> seat t = QDetached"

text \<open>What every task of the system satisfies.\<close>

definition i64_range :: "int \<Rightarrow> bool" where
  "i64_range x \<longleftrightarrow> - (2 ^ 63) \<le> x \<and> x < 2 ^ 63"

definition task_wf :: "sched_task \<Rightarrow> bool" where
  "task_wf t \<longleftrightarrow> 0 < weight (fair t) \<and> weight (fair t) \<le> 88761 \<and> i64_range (vruntime (fair t)) \<and> i64_range (deadline (fair t))
     \<and> -20 \<le> nice (attr t) \<and> nice (attr t) \<le> 19
     \<and> (is_kernel_only (sched_class_of t) \<or> sched_class_of t = attr_class (attr t))
     \<and> (attr_class (attr t) = CRt \<longrightarrow> 1 \<le> rt_priority (attr t) \<and> rt_priority (attr t) \<le> 99)
     \<and> (attr_class (attr t) = CDeadline \<longrightarrow> dl_params (attr t) \<noteq> None)
     \<and> weight (fair t) = nice_weight (nice (attr t))"

lemma as_i64_range [simp]: "i64_range (as_i64 x)"
  unfolding i64_range_def as_i64_def by simp

lemma as_i64_id: "i64_range x \<Longrightarrow> as_i64 x = x"
  by (simp add: i64_range_def as_i64_def)

lemma clamp_range [simp]: "i64_range (clamp (- (2 ^ 63)) (2 ^ 63 - 1) x)"
  by (auto simp: i64_range_def clamp_def)

lemma nice_weight_range: "\<lbrakk>-20 \<le> n; n \<le> 19\<rbrakk> \<Longrightarrow> 0 < nice_weight n \<and> nice_weight n \<le> 88761"
proof -
  assume "-20 \<le> n" "n \<le> 19"
  then have "nat (n + 20) < length NICE_TO_WEIGHT" by (simp add: NICE_TO_WEIGHT_def)
  then have "NICE_TO_WEIGHT ! nat (n + 20) \<in> set NICE_TO_WEIGHT" by (rule nth_mem)
  moreover have "\<forall>w \<in> set NICE_TO_WEIGHT. 0 < w \<and> w \<le> 88761" by (simp add: NICE_TO_WEIGHT_def)
  ultimately show ?thesis by (simp add: nice_weight_def)
qed

lemma task_set_attr_simps [simp]:
  "attr (task_set_attr a x) = a" "class_byte (task_set_attr a x) = class_byte x" "seat (task_set_attr a x) = seat x"
  "rt_links (task_set_attr a x) = rt_links x" "dl (task_set_attr a x) = dl x" "rt (task_set_attr a x) = rt x"
  "fair (task_set_attr a x) = (fair x)\<lparr>weight := nice_weight (nice a)\<rparr>"
  by (simp_all add: task_set_attr_def store_rt_prio_def)

lemma task_set_attr_links [simp]:
  "unlinked (task_set_attr a x) = unlinked x" "idle_links (task_set_attr a x) = idle_links x"
  by (simp_all add: unlinked_def idle_links_def)

section \<open>The contract of a scheduling class\<close>

text \<open>
  An operation that touches one task and leaves its class and attributes alone, and the reasons for
  leaving the processor after which the task stays on the run queue.
\<close>

definition touches :: "task_ref \<Rightarrow> store \<Rightarrow> store \<Rightarrow> bool" where
  "touches t s s' \<longleftrightarrow> (\<forall>x. x \<noteq> t \<longrightarrow> s' x = s x) \<and> class_byte (s' t) = class_byte (s t) \<and> attr (s' t) = attr (s t)
     \<and> (task_wf (s t) \<longrightarrow> task_wf (s' t))"

definition stays :: "leave_reason \<Rightarrow> bool" where
  "stays r \<longleftrightarrow> r = LYield \<or> r = LPreempt"

lemma touches_refl [simp]: "touches t s s"
  by (simp add: touches_def)

lemma touches_trans: "\<lbrakk>touches t s s'; touches t s' s''\<rbrakk> \<Longrightarrow> touches t s s''"
  by (simp add: touches_def)

lemma touches_upd:
  "\<lbrakk>class_byte (f (s t)) = class_byte (s t); attr (f (s t)) = attr (s t); task_wf (s t) \<Longrightarrow> task_wf (f (s t))\<rbrakk>
     \<Longrightarrow> touches t s (upd t f s)"
  by (simp add: touches_def)

lemma touches_other: "\<lbrakk>touches t s s'; x \<noteq> t\<rbrakk> \<Longrightarrow> s' x = s x"
  by (simp add: touches_def)

lemma touches_class: "touches t s s' \<Longrightarrow> sched_class_of (s' x) = sched_class_of (s x)"
  by (cases "x = t") (simp_all add: touches_def sched_class_of_def)

lemma touches_attr: "touches t s s' \<Longrightarrow> attr (s' x) = attr (s x)"
  by (cases "x = t") (simp_all add: touches_def)

lemma touches_wf: "\<lbrakk>touches t s s'; task_wf (s x)\<rbrakk> \<Longrightarrow> task_wf (s' x)"
  by (cases "x = t") (simp_all add: touches_def)

text \<open>The same for a set of tasks.\<close>

definition touches_in :: "task_ref set \<Rightarrow> store \<Rightarrow> store \<Rightarrow> bool" where
  "touches_in W s s' \<longleftrightarrow> (\<forall>x. (x \<notin> W \<longrightarrow> s' x = s x) \<and> class_byte (s' x) = class_byte (s x) \<and> attr (s' x) = attr (s x)
     \<and> (task_wf (s x) \<longrightarrow> task_wf (s' x)))"

lemma touches_in_refl [simp]: "touches_in W s s"
  by (simp add: touches_in_def)

lemma touches_in_one: "\<lbrakk>touches t s s'; t \<in> W\<rbrakk> \<Longrightarrow> touches_in W s s'"
  unfolding touches_in_def touches_def by metis

lemma touches_in_trans: "\<lbrakk>touches_in V s s'; touches_in W s' s''; V \<subseteq> W\<rbrakk> \<Longrightarrow> touches_in W s s''"
  unfolding touches_in_def by (metis subsetD)

lemma touches_in_mono: "\<lbrakk>touches_in V s s'; V \<subseteq> W\<rbrakk> \<Longrightarrow> touches_in W s s'"
  unfolding touches_in_def by blast

lemma touches_inD:
  assumes "touches_in W s s'"
  shows "x \<notin> W \<Longrightarrow> s' x = s x" "sched_class_of (s' x) = sched_class_of (s x)" "attr (s' x) = attr (s x)"
    "task_wf (s x) \<Longrightarrow> task_wf (s' x)"
  using assms by (simp_all add: touches_in_def sched_class_of_def)

text \<open>
  A class has an invariant, waiting tasks, and a condition that says whether it offers a task; \<open>used\<close> counts
  the tree identifiers a class has drawn or has reserved. An operation that may link a task needs \<open>room\<close>.
\<close>

locale class_ops =
  fixes inv :: "store \<Rightarrow> 'c \<Rightarrow> bool" and waiting :: "'c \<Rightarrow> task_ref set" and runnable :: "'c \<Rightarrow> bool"
    and used :: "'c \<Rightarrow> nat" and room :: "store \<Rightarrow> 'c \<Rightarrow> task_ref \<Rightarrow> bool"
    and enq :: "store \<Rightarrow> 'c \<Rightarrow> task_ref \<Rightarrow> (store \<times> 'c) option"
    and deq :: "store \<Rightarrow> 'c \<Rightarrow> task_ref \<Rightarrow> (store \<times> 'c \<times> task_ref option) option"
    and pick :: "store \<Rightarrow> 'c \<Rightarrow> (store \<times> 'c \<times> task_ref option) option"
    and put :: "store \<Rightarrow> 'c \<Rightarrow> task_ref \<Rightarrow> leave_reason \<Rightarrow> (store \<times> 'c \<times> bool) option"
  assumes frame: "\<lbrakk>inv s c; \<forall>x \<in> waiting c. s' x = s x\<rbrakk> \<Longrightarrow> inv s' c"
    and waits: "\<lbrakk>inv s c; t \<in> waiting c\<rbrakk> \<Longrightarrow> seat (s t) \<noteq> QDetached"
    and enq_ok: "\<lbrakk>inv s c; idle_links (s t); \<forall>x. task_wf (s x); room s c t\<rbrakk> \<Longrightarrow>
      \<exists>s' c'. enq s c t = Some (s', c') \<and> inv s' c' \<and> waiting c' = insert t (waiting c) \<and> touches t s s'
        \<and> used c' \<le> used c + 2"
    and deq_ok: "\<lbrakk>inv s c; t \<in> waiting c; \<forall>x. task_wf (s x)\<rbrakk> \<Longrightarrow>
      \<exists>s' c'. deq s c t = Some (s', c', Some t) \<and> inv s' c' \<and> waiting c' = waiting c - {t} \<and> idle_links (s' t) \<and> touches t s s'
        \<and> used c' \<le> used c"
    and pick_ok: "inv s c \<Longrightarrow> \<exists>s' c' r. pick s c = Some (s', c', r) \<and> inv s' c' \<and> used c' \<le> used c \<and>
      (case r of
         None \<Rightarrow> \<not> runnable c \<and> s' = s \<and> waiting c' = waiting c
       | Some t \<Rightarrow> runnable c \<and> t \<in> waiting c \<and> waiting c' = waiting c - {t} \<and> idle_links (s' t) \<and> touches t s s')"
    and put_ok: "\<lbrakk>inv s c; idle_links (s t); \<forall>x. task_wf (s x); stays r \<Longrightarrow> room s c t\<rbrakk> \<Longrightarrow>
      \<exists>s' c'. put s c t r = Some (s', c', stays r) \<and> inv s' c' \<and> touches t s s' \<and> used c' \<le> used c + 2
        \<and> (if stays r then waiting c' = insert t (waiting c) else waiting c' = waiting c \<and> idle_links (s' t))"
begin

lemma idle_not_waiting: "\<lbrakk>inv s c; idle_links (s t)\<rbrakk> \<Longrightarrow> t \<notin> waiting c"
  using waits by (auto simp: idle_links_def)

text \<open>A runner that stays and the pick that follows neither lose nor duplicate a task.\<close>

lemma handover:
  assumes "inv s c" "idle_links (s t)" "\<forall>x. task_wf (s x)" "room s c t" "stays r"
  obtains s1 c1 s2 c2 p where "put s c t r = Some (s1, c1, True)" "pick s1 c1 = Some (s2, c2, p)" "inv s2 c2"
    "case p of None \<Rightarrow> waiting c2 = insert t (waiting c)
     | Some u \<Rightarrow> u \<notin> waiting c2 \<and> insert u (waiting c2) = insert t (waiting c)"
proof -
  obtain s1 c1 where 1: "put s c t r = Some (s1, c1, True)" "inv s1 c1" "waiting c1 = insert t (waiting c)"
    using put_ok [OF assms(1-3), of r] assms(4,5) by auto
  obtain s2 c2 p where 2: "pick s1 c1 = Some (s2, c2, p)" "inv s2 c2"
    "case p of None \<Rightarrow> waiting c2 = waiting c1 | Some u \<Rightarrow> u \<in> waiting c1 \<and> waiting c2 = waiting c1 - {u}"
    using pick_ok [OF 1(2)] by (auto split: option.splits)
  have "case p of None \<Rightarrow> waiting c2 = insert t (waiting c)
      | Some u \<Rightarrow> u \<notin> waiting c2 \<and> insert u (waiting c2) = insert t (waiting c)"
  proof (cases p)
    case (Some u)
    then have "u \<in> waiting c1" "waiting c2 = waiting c1 - {u}" using 2(3) by simp_all
    then show ?thesis using Some 1(3) by (simp add: insert_absorb)
  qed (use 2(3) 1(3) in simp)
  then show thesis using that 1(1) 2(1,2) by blast
qed

end

section \<open>The stop class keeps the contract\<close>

definition stop_inv :: "store \<Rightarrow> stop_class \<Rightarrow> bool" where
  "stop_inv s w \<longleftrightarrow> (\<forall>t. w = Some t \<longrightarrow> seat (s t) = QStop \<and> unlinked (s t))"

lemma set_seat_simps [simp]:
  "class_byte (set_seat q t) = class_byte t" "attr (set_seat q t) = attr t" "task_wf (set_seat q t) = task_wf t"
  "unlinked (set_seat q t) = unlinked t" "seat (set_seat q t) = q" "fair (set_seat q t) = fair t" "dl (set_seat q t) = dl t"
  "rt (set_seat q t) = rt t" "rt_links (set_seat q t) = rt_links t" "sched_class_of (set_seat q t) = sched_class_of t"
  by (simp_all add: set_seat_def task_wf_def unlinked_def sched_class_of_def)

lemma touches_seat [simp]: "touches t s (upd t (set_seat q) s)"
  by (rule touches_upd) simp_all

interpretation stop_ops: class_ops stop_inv set_option stop_has_runnable "\<lambda>w. 0" "\<lambda>s w t. w = None"
  "\<lambda>s w t. stop_enqueue s w t None" "\<lambda>s w t. Some (stop_dequeue s w t)" "\<lambda>s w. Some (stop_pick_next s w)"
  "\<lambda>s w t r. Some (stop_put_prev s w t r)"
  by unfold_locales
    (auto simp: stop_inv_def stop_has_runnable_def stop_enqueue_def stop_dequeue_def stop_pick_next_def stop_put_prev_def
      push_waiter_def idle_links_def stays_def split: option.splits)

end
