(* ===== verification/SchedRtInv.thy ===== *)
theory SchedRtInv
  imports SchedLib
begin

text \<open>
  The realtime class keeps its invariant: the level lists, the links and seats of the tasks, the
  occupancy bitmap and the waiter count agree. Every operation is total on such a class, and the class
  keeps the contract \<open>class_ops\<close>.
\<close>

unbundle bit_operations_syntax

section \<open>The invariant\<close>

text \<open>A task linked at level \<open>i\<close>, and nowhere else.\<close>

definition rt_linked :: "store \<Rightarrow> rt_class \<Rightarrow> nat \<Rightarrow> task_ref \<Rightarrow> bool" where
  "rt_linked s c i t \<longleftrightarrow> rt_links (s t) = Some (rt_self c, i) \<and> seat (s t) = QRt \<and> rt_priority (attr (s t)) = Suc i
     \<and> \<not> deadline_link (fair (s t)) \<and> \<not> vruntime_link (fair (s t)) \<and> \<not> ready_link (dl (s t)) \<and> \<not> throttled_link (dl (s t))"

definition rt_inv :: "store \<Rightarrow> rt_class \<Rightarrow> bool" where
  "rt_inv s c \<longleftrightarrow> length (queues c) = RT_PRIO_LEVELS
     \<and> (\<forall>i < RT_PRIO_LEVELS. distinct (queues c ! i) \<and> (\<forall>t \<in> set (queues c ! i). rt_linked s c i t))
     \<and> (\<forall>i. bit (occupied c) i \<longleftrightarrow> i < RT_PRIO_LEVELS \<and> queues c ! i \<noteq> [])
     \<and> queued c = sum_list (map length (queues c))"

definition rt_waiting :: "rt_class \<Rightarrow> task_ref set" where
  "rt_waiting c = \<Union> (set ` set (queues c))"

lemma rt_idx_level [simp]: "rt_idx p = Some i \<longleftrightarrow> p = Suc i \<and> i < RT_PRIO_LEVELS"
  by (auto simp: rt_idx_def)

lemma rt_invD:
  assumes "rt_inv s c"
  shows "length (queues c) = RT_PRIO_LEVELS"
    and "i < RT_PRIO_LEVELS \<Longrightarrow> distinct (queues c ! i)"
    and "\<lbrakk>i < RT_PRIO_LEVELS; t \<in> set (queues c ! i)\<rbrakk> \<Longrightarrow> rt_linked s c i t"
    and "bit (occupied c) i \<longleftrightarrow> i < RT_PRIO_LEVELS \<and> queues c ! i \<noteq> []"
    and "queued c = sum_list (map length (queues c))"
  using assms by (simp_all add: rt_inv_def)

lemma rt_waiting_iff:
  "length (queues c) = RT_PRIO_LEVELS \<Longrightarrow> t \<in> rt_waiting c \<longleftrightarrow> (\<exists>i < RT_PRIO_LEVELS. t \<in> set (queues c ! i))"
  by (auto simp: rt_waiting_def set_conv_nth)

lemma rt_waiting_level:
  assumes inv: "rt_inv s c" and t: "t \<in> rt_waiting c"
  obtains i where "rt_idx (rt_priority (attr (s t))) = Some i" "i < RT_PRIO_LEVELS" "t \<in> set (queues c ! i)" "rt_linked s c i t"
proof -
  obtain i where i: "i < RT_PRIO_LEVELS" "t \<in> set (queues c ! i)"
    using t rt_waiting_iff [OF rt_invD(1) [OF inv]] by blast
  have l: "rt_linked s c i t" using rt_invD(3) [OF inv i] .
  then show thesis using that i by (simp add: rt_linked_def)
qed

lemma rt_one_level: "\<lbrakk>rt_inv s c; i < RT_PRIO_LEVELS; j < RT_PRIO_LEVELS; t \<in> set (queues c ! i); t \<in> set (queues c ! j)\<rbrakk> \<Longrightarrow> i = j"
  using rt_invD(3) [of s c i t] rt_invD(3) [of s c j t] by (simp add: rt_linked_def)

lemma rt_frame: "\<lbrakk>rt_inv s c; \<forall>x \<in> rt_waiting c. s' x = s x\<rbrakk> \<Longrightarrow> rt_inv s' c"
proof -
  assume inv: "rt_inv s c" and same: "\<forall>x \<in> rt_waiting c. s' x = s x"
  have "rt_linked s' c i t" if i: "i < RT_PRIO_LEVELS" "t \<in> set (queues c ! i)" for i t
  proof -
    have "s' t = s t" using same i rt_waiting_iff [OF rt_invD(1) [OF inv]] by blast
    then show ?thesis using rt_invD(3) [OF inv i] by (simp add: rt_linked_def)
  qed
  then show ?thesis using inv by (simp add: rt_inv_def)
qed

lemma rt_inv_queue:
  assumes inv: "rt_inv s c" and i: "i < RT_PRIO_LEVELS" and q: "distinct q" "\<forall>t \<in> set q. rt_linked s' c i t"
    and others: "\<forall>j < RT_PRIO_LEVELS. j \<noteq> i \<longrightarrow> (\<forall>x \<in> set (queues c ! j). s' x = s x)"
    and occ: "\<forall>j. bit occ j \<longleftrightarrow> (if j = i then q \<noteq> [] else bit (occupied c) j)"
    and n: "n + length (queues c ! i) = queued c + length q"
  shows "rt_inv s' (c\<lparr>queues := (queues c)[i := q], occupied := occ, queued := n\<rparr>)"
proof -
  note D = rt_invD [OF inv]
  have le: "length (queues c ! i) \<le> sum_list (map length (queues c))"
    using elem_le_sum_list [of i "map length (queues c)"] D(1) i by simp
  have "sum_list (map length ((queues c)[i := q])) = n"
    using n le D(1) i by (simp add: map_update sum_list_update D(5))
  moreover have "rt_linked s' (c\<lparr>queues := (queues c)[i := q], occupied := occ, queued := n\<rparr>) j t"
    if "j < RT_PRIO_LEVELS" "t \<in> set ((queues c)[i := q] ! j)" for j t
    using that q(2) D(3) [of j t] others D(1) by (cases "j = i") (auto simp: rt_linked_def)
  moreover have "distinct ((queues c)[i := q] ! j)" if "j < RT_PRIO_LEVELS" for j
    using that q(1) D(1,2) by (cases "j = i") auto
  ultimately show ?thesis
    unfolding rt_inv_def using D(1,4) occ i by (auto simp: nth_list_update)
qed

lemma rt_waiting_queue:
  assumes inv: "rt_inv s c" and i: "i < RT_PRIO_LEVELS"
  shows "rt_waiting (c\<lparr>queues := (queues c)[i := q], occupied := occ, queued := n\<rparr>) = (rt_waiting c - set (queues c ! i)) \<union> set q"
proof -
  note D = rt_invD [OF inv]
  have "x \<in> rt_waiting (c\<lparr>queues := (queues c)[i := q], occupied := occ, queued := n\<rparr>)
      \<longleftrightarrow> x \<in> (rt_waiting c - set (queues c ! i)) \<union> set q" for x
    using D(1) i rt_one_level [OF inv i, of _ x] by (auto simp: rt_waiting_iff nth_list_update)
  then show ?thesis by blast
qed

section \<open>Linking and unlinking\<close>

lemma rt_not_waiting: "\<lbrakk>rt_inv s c; rt_links (s t) = None; i < RT_PRIO_LEVELS\<rbrakk> \<Longrightarrow> t \<notin> set (queues c ! i)"
  by (auto simp: rt_linked_def dest: rt_invD(3))

text \<open>The class and the task after a push at the head or the tail of a level.\<close>

definition rt_pushed :: "rt_class \<Rightarrow> nat \<Rightarrow> task_ref \<Rightarrow> bool \<Rightarrow> rt_class" where
  "rt_pushed c i t f = c\<lparr>queues := (queues c)[i := if f then t # (queues c ! i) else queues c ! i @ [t]],
     occupied := occupied c OR push_bit i 1, queued := queued c + 1\<rparr>"

definition rt_tie :: "nat \<times> nat \<Rightarrow> sched_task \<Rightarrow> sched_task" where
  "rt_tie ident x = x\<lparr>seat := QRt, rt_links := Some ident\<rparr>"

lemma enqueue_ready_ok:
  assumes inv: "rt_inv s c" and t: "unlinked (s t)" and p: "rt_priority (attr (s t)) = Suc i" "i < RT_PRIO_LEVELS"
    and s': "s' = upd t (rt_tie (rt_self c, i)) s" and c': "c' = rt_pushed c i t f"
  shows "enqueue_ready s c t f = Some (s', c')" and "rt_inv s' c'" and "rt_waiting c' = insert t (rt_waiting c)" and "touches t s s'"
proof -
  have l: "rt_links (s t) = None" using t by (simp add: unlinked_def)
  have u: "upd t (\<lambda>x. x\<lparr>rt_links := Some (rt_self c, i)\<rparr>) (upd t (set_seat QRt) s) = s'"
    unfolding s' rt_tie_def by (simp add: upd_def set_seat_def)
  have "c\<lparr>queues := q, queued := m, occupied := b\<rparr> = c\<lparr>queues := q, occupied := b, queued := m\<rparr>" for q m b by simp
  then show "enqueue_ready s c t f = Some (s', c')"
    unfolding enqueue_ready_def rl_push_def c' rt_pushed_def using l p by (simp add: Let_def u mark_occupied_def rt_idx_def)
  have fresh: "t \<notin> set (queues c ! j)" if "j < RT_PRIO_LEVELS" for j using rt_not_waiting [OF inv l that] .
  show "rt_inv s' c'" unfolding c' rt_pushed_def
  proof (rule rt_inv_queue [OF inv p(2)])
    show "distinct (if f then t # (queues c ! i) else queues c ! i @ [t])" using fresh [OF p(2)] rt_invD(2) [OF inv p(2)] by simp
    show "\<forall>x \<in> set (if f then t # (queues c ! i) else queues c ! i @ [t]). rt_linked s' c i x"
      using rt_invD(3) [OF inv p(2)] t p by (auto simp: rt_linked_def s' rt_tie_def unlinked_def upd_def)
    show "\<forall>j < RT_PRIO_LEVELS. j \<noteq> i \<longrightarrow> (\<forall>x \<in> set (queues c ! j). s' x = s x)" using fresh by (auto simp: s' rt_tie_def upd_def)
    show "\<forall>j. bit (occupied c OR push_bit i 1) j
        \<longleftrightarrow> (if j = i then (if f then t # (queues c ! i) else queues c ! i @ [t]) \<noteq> [] else bit (occupied c) j)"
      using p(2) by (auto simp: bit_simps bit_1_iff)
  qed (use p in simp)
  show "rt_waiting c' = insert t (rt_waiting c)"
    unfolding c' rt_pushed_def rt_waiting_queue [OF inv p(2)] using p(2) rt_waiting_iff [OF rt_invD(1) [OF inv]] by auto
  show "touches t s s'" unfolding s' rt_tie_def by (rule touches_upd) (simp_all add: task_wf_def sched_class_of_def)
qed

text \<open>The state after a task of a level is taken out.\<close>

definition rt_taken :: "rt_class \<Rightarrow> nat \<Rightarrow> task_ref \<Rightarrow> rt_class" where
  "rt_taken c i t = c\<lparr>queues := (queues c)[i := remove1 t (queues c ! i)],
     occupied := (if remove1 t (queues c ! i) = [] then occupied c AND NOT (push_bit i 1) else occupied c),
     queued := queued c - 1\<rparr>"

definition rt_untie :: "sched_task \<Rightarrow> sched_task" where
  "rt_untie x = x\<lparr>seat := QDetached, rt_links := None\<rparr>"

lemma rt_taken_ok:
  assumes inv: "rt_inv s c" and i: "i < RT_PRIO_LEVELS" and t: "t \<in> set (queues c ! i)"
  shows "rt_inv (upd t rt_untie s) (rt_taken c i t)" and "rt_waiting (rt_taken c i t) = rt_waiting c - {t}"
    and "idle_links (upd t rt_untie s t)" and "touches t s (upd t rt_untie s)"
proof -
  note D = rt_invD [OF inv]
  have d: "distinct (queues c ! i)" using D(2) i .
  have l: "rt_linked s c i t" using D(3) i t .
  have "length (queues c ! i) \<le> queued c" using elem_le_sum_list [of i "map length (queues c)"] D(1,5) i by simp
  moreover have "0 < length (queues c ! i)" using t by (cases "queues c ! i") auto
  ultimately have n: "queued c - 1 + length (queues c ! i) = queued c + length (remove1 t (queues c ! i))"
    using t by (simp add: length_remove1 del: length_greater_0_conv)
  have away: "x \<noteq> t" if "x \<in> set (queues c ! j)" "j < RT_PRIO_LEVELS" "j \<noteq> i" for x j
    using rt_one_level [OF inv _ i _ t] that by blast
  show "rt_inv (upd t rt_untie s) (rt_taken c i t)" unfolding rt_taken_def
  proof (rule rt_inv_queue [OF inv i _ _ _ _ n])
    show "distinct (remove1 t (queues c ! i))" using d by (rule distinct_remove1)
    show "\<forall>x \<in> set (remove1 t (queues c ! i)). rt_linked (upd t rt_untie s) c i x"
      using D(3) [OF i] d by (auto simp: rt_linked_def)
    show "\<forall>j < RT_PRIO_LEVELS. j \<noteq> i \<longrightarrow> (\<forall>x \<in> set (queues c ! j). upd t rt_untie s x = s x)" using away by auto
    have "bit (occupied c) i" unfolding D(4) using i t by auto
    then show "\<forall>j. bit (if remove1 t (queues c ! i) = [] then occupied c AND NOT (push_bit i 1) else occupied c) j
        \<longleftrightarrow> (if j = i then remove1 t (queues c ! i) \<noteq> [] else bit (occupied c) j)"
      using i by (auto simp: bit_simps bit_1_iff dest: bit_imp_le_length)
  qed
  show "rt_waiting (rt_taken c i t) = rt_waiting c - {t}"
    unfolding rt_taken_def rt_waiting_queue [OF inv i] using d i t rt_waiting_iff [OF D(1)] by auto
  show "idle_links (upd t rt_untie s t)" using l by (simp add: idle_links_def unlinked_def rt_untie_def rt_linked_def)
  show "touches t s (upd t rt_untie s)" by (rule touches_upd) (simp_all add: rt_untie_def task_wf_def sched_class_of_def)
qed

lemma mark_empty_if_taken:
  "i < RT_PRIO_LEVELS \<Longrightarrow> length (queues c) = RT_PRIO_LEVELS \<Longrightarrow>
     mark_empty_if (Suc i) (c\<lparr>queues := (queues c)[i := remove1 t (queues c ! i)], queued := queued c - 1\<rparr>) = Some (rt_taken c i t)"
  by (simp add: mark_empty_if_def rt_idx_def rt_taken_def)

lemma rt_detached_taken:
  "i < RT_PRIO_LEVELS \<Longrightarrow> length (queues c) = RT_PRIO_LEVELS \<Longrightarrow>
     rt_detached (upd t (\<lambda>x. x\<lparr>rt_links := None\<rparr>) s) (c\<lparr>queues := (queues c)[i := remove1 t (queues c ! i)]\<rparr>) (Suc i) t
       = Some (upd t rt_untie s, rt_taken c i t, Some t)"
  using mark_empty_if_taken [of i c t] by (cases "s t") (simp add: rt_detached_def upd_def set_seat_def rt_untie_def)

lemma is_occupied_iff:
  "rt_inv s c \<Longrightarrow> i < RT_PRIO_LEVELS \<Longrightarrow> is_occupied c (Suc i) = Some (queues c ! i \<noteq> [])"
proof -
  assume inv: "rt_inv s c" and i: "i < RT_PRIO_LEVELS"
  have "occupied c AND push_bit i 1 \<noteq> 0 \<longleftrightarrow> bit (occupied c) i"
    using i by (auto simp: bit_eq_iff [of _ 0] bit_simps bit_1_iff)
  then show ?thesis using rt_invD(4) [OF inv, of i] i by (simp add: is_occupied_def rt_idx_def)
qed

lemma dequeue_addr_ok:
  assumes "rt_inv s c" "i < RT_PRIO_LEVELS" "t \<in> set (queues c ! i)"
  shows "dequeue_addr s c (Suc i) t = Some (upd t rt_untie s, rt_taken c i t, Some t)"
proof -
  have "rt_links (s t) = Some (rt_self c, i)" using rt_invD(3) [OF assms] by (simp add: rt_linked_def)
  moreover have "is_occupied c (Suc i) = Some True" using is_occupied_iff [OF assms(1,2)] assms(3) by auto
  ultimately show ?thesis
    using assms(2) rt_detached_taken [OF assms(2) rt_invD(1) [OF assms(1)]] by (simp add: dequeue_addr_def rl_remove_def rt_idx_def)
qed

lemma dequeue_addr_unlinked:
  "\<lbrakk>rt_inv s c; rt_links (s t) = None\<rbrakk> \<Longrightarrow> dequeue_addr s c p t = Some (s, c, None)"
  by (cases p) (auto simp: dequeue_addr_def is_occupied_iff rl_remove_def rt_idx_def)

section \<open>Picking\<close>

lemma highest_ready_prio_spec:
  assumes inv: "rt_inv s c"
  shows "highest_ready_prio c = None \<Longrightarrow> rt_waiting c = {}"
    and "highest_ready_prio c = Some p \<Longrightarrow> \<exists>i < RT_PRIO_LEVELS. p = Suc i \<and> queues c ! i \<noteq> []
           \<and> (\<forall>j. i < j \<longrightarrow> j < RT_PRIO_LEVELS \<longrightarrow> queues c ! j = [])"
proof -
  note D = rt_invD [OF inv]
  show "rt_waiting c = {}" if "highest_ready_prio c = None"
  proof -
    have "occupied c = 0" using that by (simp add: highest_ready_prio_def split: if_splits)
    then have "queues c ! i = []" if "i < RT_PRIO_LEVELS" for i using D(4) [of i] that by simp
    then show ?thesis using rt_waiting_iff [OF D(1)] by auto
  qed
  assume "highest_ready_prio c = Some p"
  then have nz: "occupied c \<noteq> 0" and p: "p = Suc (127 - leading_zeros (occupied c))"
    by (simp_all add: highest_ready_prio_def split: if_splits)
  note L = leading_zeros_last [OF nz]
  show "\<exists>i < RT_PRIO_LEVELS. p = Suc i \<and> queues c ! i \<noteq> [] \<and> (\<forall>j. i < j \<longrightarrow> j < RT_PRIO_LEVELS \<longrightarrow> queues c ! j = [])"
  proof (intro exI conjI allI impI)
    show "127 - leading_zeros (occupied c) < RT_PRIO_LEVELS" "queues c ! (127 - leading_zeros (occupied c)) \<noteq> []"
      using L(2) D(4) [of "127 - leading_zeros (occupied c)"] by simp_all
    fix j assume "127 - leading_zeros (occupied c) < j" "j < RT_PRIO_LEVELS"
    then show "queues c ! j = []" using L(3) [of j] D(4) [of j] by simp
  qed (rule p)
qed

lemma rt_has_runnable_iff: "rt_inv s c \<Longrightarrow> rt_has_runnable c \<longleftrightarrow> rt_waiting c \<noteq> {} \<and> \<not> rt_throttled c"
proof -
  assume inv: "rt_inv s c"
  have "occupied c = 0 \<longleftrightarrow> rt_waiting c = {}"
  proof
    assume "occupied c = 0"
    then show "rt_waiting c = {}" using highest_ready_prio_spec(1) [OF inv] by (simp add: highest_ready_prio_def)
  next
    assume "rt_waiting c = {}"
    then have "queues c ! i = []" if "i < RT_PRIO_LEVELS" for i
      using that rt_waiting_iff [OF rt_invD(1) [OF inv]] by (metis empty_iff list.set_intros(1) neq_Nil_conv)
    then show "occupied c = 0" using rt_invD(4) [OF inv] by (intro bit_eqI) auto
  qed
  then show ?thesis by (simp add: rt_has_runnable_def)
qed

section \<open>Round-robin fields\<close>

lemma on_rt_simps [simp]:
  "class_byte (on_rt f x) = class_byte x" "attr (on_rt f x) = attr x" "seat (on_rt f x) = seat x" "fair (on_rt f x) = fair x"
  "dl (on_rt f x) = dl x" "rt_links (on_rt f x) = rt_links x" "rt (on_rt f x) = f (rt x)" "task_wf (on_rt f x) = task_wf x"
  "unlinked (on_rt f x) = unlinked x" "idle_links (on_rt f x) = idle_links x" "sched_class_of (on_rt f x) = sched_class_of x"
  by (simp_all add: on_rt_def task_wf_def unlinked_def idle_links_def sched_class_of_def)

lemma attr_upd_rt [simp]: "attr (upd t (on_rt f) s x) = attr (s x)"
  by (simp add: upd_def)

lemma unlinked_upd_rt [simp]: "unlinked (upd t (on_rt f) s x) = unlinked (s x)"
  by (simp add: upd_def)

lemma rt_inv_upd_rt [simp]: "rt_inv (upd t (on_rt f) s) c = rt_inv s c"
proof -
  have "rt_linked (upd t (on_rt f) s) c i x = rt_linked s c i x" for i x by (simp add: rt_linked_def upd_def)
  then show ?thesis by (simp add: rt_inv_def)
qed

lemma touches_rt [simp]: "touches t s (upd t (on_rt f) s)"
  by (rule touches_upd) simp_all

section \<open>The contract\<close>

definition rt_room :: "store \<Rightarrow> rt_class \<Rightarrow> task_ref \<Rightarrow> bool" where
  "rt_room s c t \<longleftrightarrow> MIN_RT_PRIORITY \<le> rt_priority (attr (s t)) \<and> rt_priority (attr (s t)) \<le> MAX_RT_PRIORITY"

lemma enqueue_ready_link:
  assumes "rt_inv s c" "unlinked (s t)" "rt_room s c t"
  obtains s' c' where "enqueue_ready s c t f = Some (s', c')" "rt_inv s' c'" "rt_waiting c' = insert t (rt_waiting c)" "touches t s s'"
proof -
  obtain i where "rt_priority (attr (s t)) = Suc i" "i < RT_PRIO_LEVELS"
    using assms(3) by (cases "rt_priority (attr (s t))") (auto simp: rt_room_def)
  from that [OF enqueue_ready_ok [OF assms(1,2) this refl refl]] show thesis .
qed

lemma rt_enqueue_ok:
  assumes "rt_inv s c" "unlinked (s t)" "rt_room s c t"
  shows "\<exists>s' c'. rt_enqueue s c t kind = Some (s', c') \<and> rt_inv s' c' \<and> rt_waiting c' = insert t (rt_waiting c) \<and> touches t s s'"
proof -
  define s0 where "s0 = (if kind = ENew \<and> policy (attr (s t)) = SRr then upd t (on_rt (\<lambda>e. e\<lparr>rr_left_ns := rr_slice_ns c\<rparr>)) s else s)"
  have "rt_inv s0 c" "unlinked (s0 t)" "rt_room s0 c t" "touches t s s0"
    using assms by (simp_all add: s0_def rt_room_def)
  from enqueue_ready_link [OF this(1-3), of False] this(4) show ?thesis
    unfolding rt_enqueue_def s0_def [symmetric] enqueue_tail_def using touches_trans by metis
qed

lemma rt_put_prev_ok:
  assumes "rt_inv s c" "idle_links (s t)" "stays r \<Longrightarrow> rt_room s c t"
  shows "\<exists>s' c'. rt_put_prev s c t r = Some (s', c', stays r) \<and> rt_inv s' c' \<and> touches t s s'
    \<and> (if stays r then rt_waiting c' = insert t (rt_waiting c) else rt_waiting c' = rt_waiting c \<and> idle_links (s' t))"
proof -
  define s0 where "s0 = upd t (on_rt (\<lambda>e. e\<lparr>rr_rotate := False\<rparr>)) s"
  have 0: "rt_inv s0 c" "unlinked (s0 t)" "touches t s s0" "idle_links (s0 t)" "rt_room s0 c t = rt_room s c t"
    using assms by (simp_all add: s0_def rt_room_def idle_links_def)
  show ?thesis
  proof (cases "stays r")
    case True
    have "\<exists>f. rt_put_prev s c t r = do { (s, c) \<leftarrow> enqueue_ready s0 c t f; Some (s, c, True) }"
      using True unfolding rt_put_prev_def s0_def [symmetric] by (auto simp: stays_def enqueue_tail_def enqueue_head_def Let_def)
    then obtain f where f: "rt_put_prev s c t r = do { (s, c) \<leftarrow> enqueue_ready s0 c t f; Some (s, c, True) }" ..
    obtain s' c' where "enqueue_ready s0 c t f = Some (s', c')" "rt_inv s' c'" "rt_waiting c' = insert t (rt_waiting c)" "touches t s0 s'"
      using enqueue_ready_link [OF 0(1,2)] 0(5) assms(3) True by blast
    then show ?thesis using f True touches_trans [OF 0(3)] by simp
  next
    case False
    then have "rt_put_prev s c t r = Some (s0, c, False)"
      unfolding rt_put_prev_def s0_def [symmetric] by (cases r) (simp_all add: stays_def)
    then show ?thesis using False 0 by simp
  qed
qed

text \<open>The pick takes the head of the highest occupied level and refills an empty round-robin slice.\<close>

definition rr_refill :: "rt_class \<Rightarrow> sched_task \<Rightarrow> sched_task" where
  "rr_refill c x =
     (if policy (attr x) = SRr \<and> rr_left_ns (rt x) = 0 then on_rt (\<lambda>e. e\<lparr>rr_left_ns := rr_slice_ns c\<rparr>) x else x)"

lemma rr_refill_upd:
  "upd t (\<lambda>x. rr_refill c (rt_untie x)) s
     = (if policy (attr (s t)) = SRr \<and> rr_left_ns (rt (s t)) = 0
        then upd t (on_rt (\<lambda>e. e\<lparr>rr_left_ns := rr_slice_ns c\<rparr>)) (upd t rt_untie s) else upd t rt_untie s)"
  unfolding upd_upd by (simp add: rr_refill_def upd_def rt_untie_def)

lemma rt_pick_next_some:
  assumes inv: "rt_inv s c" and nt: "\<not> rt_throttled c" and h: "highest_ready_prio c = Some (Suc i)" "i < RT_PRIO_LEVELS"
    and q: "queues c ! i = t # q"
  shows "rt_pick_next s c = Some (upd t (\<lambda>x. rr_refill c (rt_untie x)) s, rt_taken c i t, Some t)"
proof -
  have 1: "mark_empty_if (Suc i) (c\<lparr>queues := (queues c)[i := q], queued := queued c - 1\<rparr>) = Some (rt_taken c i t)"
    using mark_empty_if_taken [OF h(2) rt_invD(1) [OF inv], of t] q by simp
  have 2: "upd t (set_seat QDetached) (upd t (\<lambda>x. x\<lparr>rt_links := None\<rparr>) s) = upd t rt_untie s"
    by (cases "s t") (simp add: upd_def set_seat_def rt_untie_def)
  have 3: "rr_slice_ns (rt_taken c i t) = rr_slice_ns c" by (simp add: rt_taken_def)
  show ?thesis unfolding rt_pick_next_def using nt h q
    by (simp add: rl_pop_front_def rt_idx_def 1 [simplified] 2 3 Let_def rr_refill_upd)
qed

lemma rt_pick_next_ok:
  assumes inv: "rt_inv s c"
  shows "\<exists>s' c' r. rt_pick_next s c = Some (s', c', r) \<and> rt_inv s' c' \<and>
      (case r of
         None \<Rightarrow> \<not> rt_has_runnable c \<and> s' = s \<and> rt_waiting c' = rt_waiting c
       | Some t \<Rightarrow> rt_has_runnable c \<and> t \<in> rt_waiting c \<and> rt_waiting c' = rt_waiting c - {t} \<and> idle_links (s' t) \<and> touches t s s')"
proof (cases "rt_throttled c \<or> highest_ready_prio c = None")
  case True
  then have "rt_pick_next s c = Some (s, c, None)" by (auto simp: rt_pick_next_def)
  moreover have "\<not> rt_has_runnable c"
    using True highest_ready_prio_spec(1) [OF inv] by (auto simp: rt_has_runnable_iff [OF inv])
  ultimately show ?thesis using inv by simp
next
  case False
  then obtain p where nt: "\<not> rt_throttled c" and p: "highest_ready_prio c = Some p" by blast
  obtain i where i: "i < RT_PRIO_LEVELS" "p = Suc i" "queues c ! i \<noteq> []" using highest_ready_prio_spec(2) [OF inv p] by blast
  then obtain t q where q: "queues c ! i = t # q" by (cases "queues c ! i") auto
  then have t: "t \<in> set (queues c ! i)" by simp
  note T = rt_taken_ok [OF inv i(1) t]
  have "t \<in> rt_waiting c" using t i(1) rt_waiting_iff [OF rt_invD(1) [OF inv]] by blast
  then have "rt_has_runnable c" using nt by (auto simp: rt_has_runnable_iff [OF inv])
  moreover have "touches t s (upd t (\<lambda>x. rr_refill c (rt_untie x)) s)"
    unfolding rr_refill_upd using T(4) touches_trans [OF T(4) touches_rt] by simp
  moreover have "rt_inv (upd t (\<lambda>x. rr_refill c (rt_untie x)) s) (rt_taken c i t)" unfolding rr_refill_upd using T(1) by simp
  moreover have "idle_links (upd t (\<lambda>x. rr_refill c (rt_untie x)) s t)" using T(3) by (simp add: rr_refill_def)
  ultimately show ?thesis
    using rt_pick_next_some [OF inv nt p [unfolded i(2)] i(1) q] T(2) \<open>t \<in> rt_waiting c\<close> by simp
qed

lemma rt_dequeue_ok:
  assumes inv: "rt_inv s c" and t: "t \<in> rt_waiting c"
  shows "\<exists>s' c'. rt_dequeue s c t = Some (s', c', Some t) \<and> rt_inv s' c' \<and> rt_waiting c' = rt_waiting c - {t}
    \<and> idle_links (s' t) \<and> touches t s s'"
proof -
  obtain i where i: "i < RT_PRIO_LEVELS" "t \<in> set (queues c ! i)" "rt_linked s c i t"
    using rt_waiting_level [OF inv t] by blast
  then have "rt_dequeue s c t = Some (upd t rt_untie s, rt_taken c i t, Some t)"
    using dequeue_addr_ok [OF inv i(1,2)] by (simp add: rt_dequeue_def rt_linked_def)
  then show ?thesis using rt_taken_ok [OF inv i(1,2)] by simp
qed

interpretation rt_ops: class_ops rt_inv rt_waiting rt_has_runnable "\<lambda>c. 0" rt_room
  "\<lambda>s c t. rt_enqueue s c t kind" rt_dequeue rt_pick_next rt_put_prev for kind
  apply unfold_locales
  subgoal by (rule rt_frame)
  subgoal by (erule (1) rt_waiting_level) (simp add: rt_linked_def)
  subgoal using rt_enqueue_ok by (simp add: idle_links_def)
  subgoal using rt_dequeue_ok by simp
  subgoal using rt_pick_next_ok by simp
  subgoal using rt_put_prev_ok by simp
  done

section \<open>The remaining operations\<close>

lemma rt_class_new_inv: "rt_inv s (rt_class_new cfg self)" "rt_waiting (rt_class_new cfg self) = {}"
  by (auto simp: rt_inv_def rt_waiting_def rt_class_new_def sum_list_replicate)

lemma rt_inv_budget [simp]:
  "rt_inv s (c\<lparr>used_ns := u\<rparr>) = rt_inv s c" "rt_inv s (c\<lparr>rt_throttled := b\<rparr>) = rt_inv s c"
  "rt_inv s (c\<lparr>rt_period_start := p\<rparr>) = rt_inv s c" "rt_waiting (c\<lparr>used_ns := u\<rparr>) = rt_waiting c"
  "rt_waiting (c\<lparr>rt_throttled := b\<rparr>) = rt_waiting c" "rt_waiting (c\<lparr>rt_period_start := p\<rparr>) = rt_waiting c"
  by (simp_all add: rt_inv_def rt_linked_def rt_waiting_def)

lemma rt_advance_simps [simp]: "rt_inv s (rt_advance c now) = rt_inv s c" "rt_waiting (rt_advance c now) = rt_waiting c"
  by (simp_all add: rt_advance_def Let_def)

lemma has_same_prio_waiter_total: "\<exists>b. has_same_prio_waiter c p = Some b"
  unfolding has_same_prio_waiter_def is_occupied_def rt_idx_def by (auto split: if_splits)

lemma rt_account_ok:
  assumes inv: "rt_inv s c"
  shows "\<exists>s' c' e. rt_account s c t elapsed = Some (s', c', e) \<and> rt_inv s' c' \<and> rt_waiting c' = rt_waiting c \<and> touches t s s'
    \<and> idle_links (s' t) = idle_links (s t)"
proof -
  obtain b where b: "has_same_prio_waiter (c\<lparr>used_ns := sat_add (used_ns c) elapsed\<rparr>) (rt_priority (attr (s t))) = Some b"
    using has_same_prio_waiter_total by blast
  obtain b' where b': "has_same_prio_waiter (c\<lparr>used_ns := sat_add (used_ns c) elapsed, rt_throttled := True\<rparr>) (rt_priority (attr (s t))) = Some b'"
    using has_same_prio_waiter_total by blast
  show ?thesis using inv b b' by (auto simp: rt_account_def Let_def)
qed

lemma rt_curr_timer_total: "\<exists>v. rt_curr_timer_ns s c t = Some v"
proof -
  obtain b where "has_same_prio_waiter c (rt_priority (attr (s t))) = Some b" using has_same_prio_waiter_total by blast
  then show ?thesis by (auto simp: rt_curr_timer_ns_def)
qed

text \<open>A steal takes a wanted waiter of the highest level that has one, or there is none.\<close>

lemma steal_levels_ok:
  assumes inv: "rt_inv s c" and ps: "\<forall>p \<in> set ps. \<exists>i < RT_PRIO_LEVELS. p = Suc i"
  shows "\<exists>s' c' r. steal_levels want s c ps = Some (s', c', r) \<and> rt_inv s' c' \<and>
    (case r of
       None \<Rightarrow> s' = s \<and> c' = c \<and> (\<forall>i. Suc i \<in> set ps \<longrightarrow> (\<forall>t \<in> set (queues c ! i). \<not> want (s t)))
     | Some t \<Rightarrow> want (s t) \<and> t \<in> rt_waiting c \<and> rt_waiting c' = rt_waiting c - {t} \<and> idle_links (s' t) \<and> touches t s s')"
  using ps
proof (induction ps)
  case (Cons p ps)
  obtain i where i: "i < RT_PRIO_LEVELS" and p: "p = Suc i" using Cons.prems by auto
  have IH: "\<exists>s' c' r. steal_levels want s c ps = Some (s', c', r) \<and> rt_inv s' c' \<and>
    (case r of
       None \<Rightarrow> s' = s \<and> c' = c \<and> (\<forall>i. Suc i \<in> set ps \<longrightarrow> (\<forall>t \<in> set (queues c ! i). \<not> want (s t)))
     | Some t \<Rightarrow> want (s t) \<and> t \<in> rt_waiting c \<and> rt_waiting c' = rt_waiting c - {t} \<and> idle_links (s' t) \<and> touches t s s')"
    using Cons by simp
  show ?case
  proof (cases "find (\<lambda>t. want (s t)) (queues c ! i)")
    case None
    then have no: "\<forall>t \<in> set (queues c ! i). \<not> want (s t)" by (auto simp: find_None_iff)
    have "steal_levels want s c (p # ps) = steal_levels want s c ps"
      using is_occupied_iff [OF inv i] None i by (simp add: p rl_steal_def rt_idx_def)
    then show ?thesis using IH no p by (fastforce split: option.splits)
  next
    case (Some t)
    then have t: "t \<in> set (queues c ! i)" "want (s t)" by (auto simp: find_Some_iff)
    have "steal_levels want s c (p # ps) = Some (upd t rt_untie s, rt_taken c i t, Some t)"
      using is_occupied_iff [OF inv i] Some t i rt_detached_taken [OF i rt_invD(1) [OF inv]]
      by (auto simp: p rl_steal_def rt_idx_def)
    moreover have "t \<in> rt_waiting c" using t i rt_waiting_iff [OF rt_invD(1) [OF inv]] by blast
    ultimately show ?thesis using rt_taken_ok [OF inv i t(1)] t(2) by simp
  qed
qed (use inv in simp)

lemma rt_steal_ok:
  assumes inv: "rt_inv s c"
  shows "\<exists>s' c' r. rt_steal want s c = Some (s', c', r) \<and> rt_inv s' c' \<and>
    (case r of
       None \<Rightarrow> s' = s \<and> c' = c \<and> (\<forall>t \<in> rt_waiting c. \<not> want (s t))
     | Some t \<Rightarrow> want (s t) \<and> t \<in> rt_waiting c \<and> rt_waiting c' = rt_waiting c - {t} \<and> idle_links (s' t) \<and> touches t s s')"
proof (cases "highest_ready_prio c")
  case None
  then show ?thesis using highest_ready_prio_spec(1) [OF inv None] inv by (simp add: rt_steal_def)
next
  case (Some p)
  obtain h where h: "h < RT_PRIO_LEVELS" "p = Suc h" "\<forall>j. h < j \<longrightarrow> j < RT_PRIO_LEVELS \<longrightarrow> queues c ! j = []"
    using highest_ready_prio_spec(2) [OF inv Some] by blast
  let ?ps = "rev [MIN_RT_PRIORITY..<Suc p]"
  have "\<forall>p \<in> set ?ps. \<exists>i < RT_PRIO_LEVELS. p = Suc i"
  proof
    fix x assume "x \<in> set ?ps"
    then have "1 \<le> x" "x \<le> p" by (simp_all only: set_rev set_upt atLeastLessThan_iff less_Suc_eq_le)
    then show "\<exists>i < RT_PRIO_LEVELS. x = Suc i" using h(1,2) by (intro exI [of _ "x - 1"]) auto
  qed
  note levels = steal_levels_ok [OF inv this, of want]
  have all: "\<forall>t \<in> rt_waiting c. \<not> want (s t)" if "\<forall>i. Suc i \<in> set ?ps \<longrightarrow> (\<forall>t \<in> set (queues c ! i). \<not> want (s t))"
  proof
    fix t assume "t \<in> rt_waiting c"
    then obtain i where i: "i < RT_PRIO_LEVELS" "t \<in> set (queues c ! i)" using rt_waiting_iff [OF rt_invD(1) [OF inv]] by blast
    then have "i \<le> h" using h(3) by (metis empty_iff empty_set not_less)
    then have "Suc i \<in> set ?ps" using h(2) by (simp only: set_rev set_upt atLeastLessThan_iff) simp
    then show "\<not> want (s t)" using that i(2) by blast
  qed
  show ?thesis unfolding rt_steal_def Some option.case using levels all by (fastforce split: option.splits)
qed

text \<open>
  A changed attribute moves a waiter to its new level; the task is given its new attributes before the
  class is told.
\<close>

lemma rt_attr_changed_ok:
  assumes inv: "rt_inv s c" and place: "idle_links (s t) \<or> t \<in> rt_waiting c" and cur: "is_curr \<Longrightarrow> idle_links (s t)"
    and s0: "s0 = upd t (task_set_attr a) s" and room: "rt_room s0 c t"
  shows "\<exists>s' c'. rt_attr_changed s0 c t (attr (s t)) is_curr = Some (s', c') \<and> rt_inv s' c' \<and> rt_waiting c' = rt_waiting c
    \<and> touches t s0 s' \<and> (idle_links (s t) \<longrightarrow> idle_links (s' t))"
proof -
  have "\<exists>f. (if policy (attr (s t)) \<noteq> SRr \<and> policy (attr (s0 t)) = SRr
      then upd t (on_rt (\<lambda>e. e\<lparr>rr_left_ns := rr_slice_ns c, rr_rotate := False\<rparr>)) s0
      else if policy (attr (s0 t)) \<noteq> SRr then upd t (on_rt (\<lambda>e. e\<lparr>rr_rotate := False\<rparr>)) s0 else s0) = upd t (on_rt f) s0"
    (is "\<exists>f. ?s1 = _")
    by (cases "policy (attr (s0 t)) = SRr"; cases "policy (attr (s t)) = SRr") (auto simp: upd_def on_rt_def intro: exI [of _ "\<lambda>e. e"])
  then obtain f where f: "?s1 = upd t (on_rt f) s0" ..
  define s1 where "s1 = upd t (on_rt f) s0"
  have off: "s1 x = s x" if "x \<noteq> t" for x using that by (simp add: s1_def s0)
  have links: "rt_links (s1 t) = rt_links (s t)" "idle_links (s1 t) = idle_links (s t)" "attr (s1 t) = a" "attr (s0 t) = a"
    by (simp_all add: s1_def s0)
  have tch: "touches t s0 s1" by (simp add: s1_def)
  have def1: "rt_attr_changed s0 c t (attr (s t)) is_curr =
      (if is_curr \<or> rt_priority (attr (s t)) = rt_priority a then Some (s1, c)
       else do {
         (s2, c2, removed) \<leftarrow> dequeue_addr s1 c (rt_priority (attr (s t))) t;
         (case removed of
            None \<Rightarrow> Some (s2, c2)
          | Some r \<Rightarrow> if rt_priority a < rt_priority (attr (s t)) then enqueue_head s2 c2 r else enqueue_tail s2 c2 r) })"
    unfolding rt_attr_changed_def Let_def f s1_def [symmetric] unfolding links ..
  show ?thesis
  proof (cases "t \<in> rt_waiting c")
    case False
    have inv1: "rt_inv s1 c" by (rule rt_frame [OF inv]) (use off False in metis)
    moreover have "rt_links (s1 t) = None" using place False links(1) by (simp add: idle_links_def unlinked_def)
    ultimately show ?thesis unfolding def1 using dequeue_addr_unlinked [OF inv1] tch links(2) by simp
  next
    case True
    then have nc: "\<not> is_curr" using cur rt_ops.idle_not_waiting [OF inv] by blast
    obtain i where i: "i < RT_PRIO_LEVELS" "t \<in> set (queues c ! i)" "rt_linked s c i t" by (rule rt_waiting_level [OF inv True])
    have old: "rt_priority (attr (s t)) = Suc i" using i(3) by (simp add: rt_linked_def)
    have ni: "\<not> idle_links (s t)" using rt_ops.idle_not_waiting [OF inv] True by blast
    show ?thesis
    proof (cases "rt_priority (attr (s t)) = rt_priority a")
      case same: True
      have "rt_linked s1 c j x" if "j < RT_PRIO_LEVELS" "x \<in> set (queues c ! j)" for j x
        using rt_invD(3) [OF inv that] off [of x] links same by (cases "x = t") (auto simp: rt_linked_def s1_def s0)
      then have "rt_inv s1 c" using inv by (simp add: rt_inv_def)
      then show ?thesis unfolding def1 using same tch ni by simp
    next
      case diff: False
      let ?s2 = "upd t rt_untie s1" let ?c2 = "rt_taken c i t"
      note T = rt_taken_ok [OF inv i(1,2)]
      have "is_occupied c (Suc i) = Some True" using is_occupied_iff [OF inv i(1)] i(2) by auto
      then have deq: "dequeue_addr s1 c (Suc i) t = Some (?s2, ?c2, Some t)"
        using i(1,3) links(1) rt_detached_taken [OF i(1) rt_invD(1) [OF inv], of t s1]
        by (simp add: dequeue_addr_def rl_remove_def rt_idx_def rt_linked_def)
      have "rt_inv ?s2 ?c2" by (rule rt_frame [OF T(1)]) (use T(2) off in \<open>auto simp: upd_def\<close>)
      moreover have "unlinked (?s2 t)" using i(3) by (simp add: rt_untie_def unlinked_def rt_linked_def s1_def s0)
      moreover have "rt_room ?s2 ?c2 t" using room links by (simp add: rt_room_def rt_untie_def)
      ultimately have enq: "\<exists>s' c'. enqueue_ready ?s2 ?c2 t b = Some (s', c') \<and> rt_inv s' c' \<and> rt_waiting c' = insert t (rt_waiting ?c2) \<and> touches t ?s2 s'"
        for b using enqueue_ready_link [of ?s2 ?c2 t b] by blast
      have "touches t s0 ?s2" by (rule touches_trans [OF tch], rule touches_upd) (simp_all add: rt_untie_def task_wf_def sched_class_of_def)
      moreover have "insert t (rt_waiting ?c2) = rt_waiting c" using T(2) True by auto
      ultimately show ?thesis unfolding def1 using deq diff nc ni enq [of True] enq [of False] old touches_trans [of t s0 ?s2]
        by (auto simp: enqueue_head_def enqueue_tail_def)
    qed
  qed
qed

lemma rt_switched_touch: "touches t s (rt_switched_from s t)" "touches t s (rt_switched_to s c t)"
  "idle_links (rt_switched_from s t t) = idle_links (s t)" "idle_links (rt_switched_to s c t t) = idle_links (s t)"
  by (simp_all add: rt_switched_from_def rt_switched_to_def)

end
