(* ===== verification/SchedDlInv.thy ===== *)
theory SchedDlInv
  imports SchedLib
begin

text \<open>
  The deadline class keeps its invariant: both trees are ordered by their keys, the links and seats of
  the tasks agree with them, and tree identifiers are unique while the 64-bit counter does not wrap.
  Every operation is total on such a class, \<open>advance\<close> makes ready every task whose period has started,
  and the class keeps the contract \<open>class_ops\<close>.
\<close>

section \<open>The invariant\<close>

definition dl_tied :: "store \<Rightarrow> deadline_class \<Rightarrow> task_ref \<Rightarrow> bool" where
  "dl_tied s c t \<longleftrightarrow> seat (s t) = QDeadline \<and> params (s t) \<noteq> None \<and> dl_tree_id (dl (s t)) < dl_next_enqueue_id c
     \<and> rt_links (s t) = None \<and> \<not> deadline_link (fair (s t)) \<and> \<not> vruntime_link (fair (s t))"

definition dl_inv :: "store \<Rightarrow> deadline_class \<Rightarrow> bool" where
  "dl_inv s c \<longleftrightarrow> ordered (ready_key s) (dl_ready c) \<and> ordered (throttled_key s) (dl_throttled c)
     \<and> (\<forall>t \<in> set (dl_ready c). dl_tied s c t \<and> ready_link (dl (s t)) \<and> \<not> throttled_link (dl (s t)))
     \<and> (\<forall>t \<in> set (dl_throttled c). dl_tied s c t \<and> throttled_link (dl (s t)) \<and> \<not> ready_link (dl (s t)))
     \<and> inj_on (\<lambda>t. dl_tree_id (dl (s t))) (set (dl_ready c) \<union> set (dl_throttled c))
     \<and> dl_next_enqueue_id c + length (dl_throttled c) < 2 ^ 64"

definition dl_waiting :: "deadline_class \<Rightarrow> task_ref set" where
  "dl_waiting c = set (dl_ready c) \<union> set (dl_throttled c)"

text \<open>Identifiers drawn, and one reserved for every throttled task, which draws it when it wakes.\<close>

definition dl_used :: "deadline_class \<Rightarrow> nat" where
  "dl_used c = dl_next_enqueue_id c + length (dl_throttled c)"

lemma dl_invD:
  assumes "dl_inv s c"
  shows "ordered (ready_key s) (dl_ready c)" "ordered (throttled_key s) (dl_throttled c)"
    and "t \<in> set (dl_ready c) \<Longrightarrow> dl_tied s c t \<and> ready_link (dl (s t)) \<and> \<not> throttled_link (dl (s t))"
    and "t \<in> set (dl_throttled c) \<Longrightarrow> dl_tied s c t \<and> throttled_link (dl (s t)) \<and> \<not> ready_link (dl (s t))"
    and "inj_on (\<lambda>t. dl_tree_id (dl (s t))) (dl_waiting c)"
    and "dl_next_enqueue_id c + length (dl_throttled c) < 2 ^ 64"
  using assms by (simp_all add: dl_inv_def dl_waiting_def)

lemma dl_waiting_tied: "\<lbrakk>dl_inv s c; t \<in> dl_waiting c\<rbrakk> \<Longrightarrow> dl_tied s c t \<and> (ready_link (dl (s t)) \<or> throttled_link (dl (s t)))"
  using dl_invD(3,4) [of s c t] by (auto simp: dl_waiting_def)

lemma dl_unlinked_out: "\<lbrakk>dl_inv s c; unlinked (s t)\<rbrakk> \<Longrightarrow> t \<notin> dl_waiting c"
  using dl_waiting_tied [of s c t] by (auto simp: unlinked_def)

lemma dl_frame:
  assumes inv: "dl_inv s c" and same: "\<forall>x \<in> dl_waiting c. s' x = s x"
  shows "dl_inv s' c"
proof -
  have 1: "ordered (ready_key s') (dl_ready c) = ordered (ready_key s) (dl_ready c)"
    by (rule ordered_cong) (use same in \<open>simp add: ready_key_def dl_waiting_def\<close>)
  have 2: "ordered (throttled_key s') (dl_throttled c) = ordered (throttled_key s) (dl_throttled c)"
    by (rule ordered_cong) (use same in \<open>simp add: throttled_key_def dl_waiting_def\<close>)
  have 3: "inj_on (\<lambda>t. dl_tree_id (dl (s' t))) (dl_waiting c) = inj_on (\<lambda>t. dl_tree_id (dl (s t))) (dl_waiting c)"
    by (rule inj_on_cong) (use same in simp)
  show ?thesis
    using inv 1 2 3 same unfolding dl_inv_def dl_waiting_def by (simp add: dl_tied_def)
qed

lemma dl_running [simp]: "dl_inv s (c\<lparr>running := r\<rparr>) = dl_inv s c" "dl_waiting (c\<lparr>running := r\<rparr>) = dl_waiting c"
  by (simp_all add: dl_inv_def dl_waiting_def dl_tied_def)

lemma note_runner_simps [simp]:
  "dl_inv s (note_runner x c) = dl_inv s c" "dl_waiting (note_runner x c) = dl_waiting c"
  "dl_ready (note_runner x c) = dl_ready c" "dl_throttled (note_runner x c) = dl_throttled c"
  "dl_next_enqueue_id (note_runner x c) = dl_next_enqueue_id c"
  by (simp_all add: note_runner_def)

lemma clear_runner_simps [simp]:
  "dl_inv s (clear_runner c) = dl_inv s c" "dl_waiting (clear_runner c) = dl_waiting c"
  "dl_ready (clear_runner c) = dl_ready c" "dl_throttled (clear_runner c) = dl_throttled c"
  "dl_next_enqueue_id (clear_runner c) = dl_next_enqueue_id c"
  by (simp_all add: clear_runner_def)

lemma dl_used_clear [simp]: "dl_used (clear_runner c) = dl_used c"
  by (simp add: dl_used_def)

section \<open>Deadline fields\<close>

lemma on_dl_simps [simp]:
  "class_byte (on_dl f x) = class_byte x" "attr (on_dl f x) = attr x" "seat (on_dl f x) = seat x" "fair (on_dl f x) = fair x"
  "rt (on_dl f x) = rt x" "rt_links (on_dl f x) = rt_links x" "dl (on_dl f x) = f (dl x)" "task_wf (on_dl f x) = task_wf x"
  "sched_class_of (on_dl f x) = sched_class_of x" "params (on_dl f x) = params x"
  by (simp_all add: on_dl_def task_wf_def sched_class_of_def params_def)

lemma params_seat [simp]: "params (set_seat q x) = params x"
  by (simp add: params_def)

lemma touches_dl [simp]: "touches t s (upd t (on_dl f) s)"
  by (rule touches_upd) simp_all

definition keeps_links :: "(deadline_entity \<Rightarrow> deadline_entity) \<Rightarrow> bool" where
  "keeps_links f \<longleftrightarrow> (\<forall>e. ready_link (f e) = ready_link e \<and> throttled_link (f e) = throttled_link e)"

lemma unlinked_on_dl: "keeps_links f \<Longrightarrow> unlinked (on_dl f x) = unlinked x"
  by (simp add: unlinked_def keeps_links_def)

lemma replenish_form: "\<exists>f. replenish now x = on_dl f x \<and> keeps_links f"
proof (cases "params x")
  case None
  then have "replenish now x = on_dl (\<lambda>e. e) x" by (simp add: replenish_def on_dl_def)
  then show ?thesis by (intro exI [of _ "\<lambda>e. e"]) (simp add: keeps_links_def)
next
  case (Some p)
  then show ?thesis unfolding replenish_def
    by (intro exI [of _ "\<lambda>e. e\<lparr>budget_left_ns := runtime_ns p, deadline_ns := sat_add now (rel_deadline_ns p),
            period_start_ns := sat_add now (period_ns p), is_active := True, is_throttled := False\<rparr>"])
      (simp add: keeps_links_def)
qed

lemma replenish_simps [simp]:
  "unlinked (replenish now x) = unlinked x" "params (replenish now x) = params x" "seat (replenish now x) = seat x"
  "task_wf (replenish now x) = task_wf x" "attr (replenish now x) = attr x" "class_byte (replenish now x) = class_byte x"
  using replenish_form [of now x] unlinked_on_dl by auto

lemma touches_replenish [simp]: "touches t s (upd t (replenish now) s)"
  by (rule touches_upd) simp_all

section \<open>Linking\<close>

definition dl_room :: "store \<Rightarrow> deadline_class \<Rightarrow> task_ref \<Rightarrow> bool" where
  "dl_room s c t \<longleftrightarrow> params (s t) \<noteq> None \<and> dl_used c + 2 < 2 ^ 64"

text \<open>A freshly linked task has a new identifier, so its keys differ from all others.\<close>

lemma fresh_key:
  assumes inv: "dl_inv s c" and t: "t \<notin> dl_waiting c" and same: "\<And>x. x \<noteq> t \<Longrightarrow> s' x = s x"
    and i: "dl_tree_id (dl (s' t)) = dl_next_enqueue_id c" and y: "y \<in> dl_waiting c"
  shows "dl_tree_id (dl (s' y)) \<noteq> dl_tree_id (dl (s' t))"
proof -
  have "y \<noteq> t" using t y by blast
  then show ?thesis using dl_waiting_tied [OF inv y] same i by (simp add: dl_tied_def)
qed

definition dl_tie :: "nat \<Rightarrow> bool \<Rightarrow> sched_task \<Rightarrow> sched_task" where
  "dl_tie i r x = x\<lparr>seat := QDeadline, dl := (dl x)\<lparr>dl_tree_id := i, ready_link := r, throttled_link := \<not> r\<rparr>\<rparr>"

lemma insert_ready_eq:
  assumes "unlinked (s t)" "dl_next_enqueue_id c + 1 < 2 ^ 64" and s': "s' = upd t (dl_tie (dl_next_enqueue_id c) True) s"
  shows "insert_ready s c t = Some (s', c\<lparr>dl_next_enqueue_id := dl_next_enqueue_id c + 1,
     dl_ready := tree_insert (ready_key s') t (dl_ready c)\<rparr>)"
proof -
  have "upd t (on_dl (\<lambda>e. e\<lparr>ready_link := True\<rparr>)) (upd t (set_seat QDeadline \<circ> on_dl (\<lambda>e. e\<lparr>dl_tree_id := dl_next_enqueue_id c\<rparr>)) s) = s'"
    unfolding s' using assms(1) by (cases "s t", cases "dl (s t)") (simp add: upd_def set_seat_def on_dl_def dl_tie_def unlinked_def)
  then show ?thesis
    using assms(1,2) by (simp add: insert_ready_def dl_alloc_enqueue_id_def Let_def unlinked_def)
qed

lemma insert_throttled_eq:
  assumes "unlinked (s t)" "dl_next_enqueue_id c + 1 < 2 ^ 64" and s': "s' = upd t (dl_tie (dl_next_enqueue_id c) False) s"
  shows "insert_throttled s c t = Some (s', c\<lparr>dl_next_enqueue_id := dl_next_enqueue_id c + 1,
     dl_throttled := tree_insert (throttled_key s') t (dl_throttled c)\<rparr>)"
proof -
  have "upd t (on_dl (\<lambda>e. e\<lparr>throttled_link := True\<rparr>)) (upd t (set_seat QDeadline \<circ> on_dl (\<lambda>e. e\<lparr>dl_tree_id := dl_next_enqueue_id c\<rparr>)) s) = s'"
    unfolding s' using assms(1) by (cases "s t", cases "dl (s t)") (simp add: upd_def set_seat_def on_dl_def dl_tie_def unlinked_def)
  then show ?thesis
    using assms(1,2) by (simp add: insert_throttled_def dl_alloc_enqueue_id_def Let_def unlinked_def)
qed

lemma touches_tie: "touches t s (upd t (dl_tie i r) s)"
  by (rule touches_upd) (simp_all add: dl_tie_def task_wf_def sched_class_of_def)

lemma dl_tie_inv:
  assumes inv: "dl_inv s c" and t: "unlinked (s t)" "params (s t) \<noteq> None"
    and room: "dl_next_enqueue_id c + 1 + length (dl_throttled c) + (if r then 0 else 1) < 2 ^ 64"
    and s': "s' = upd t (dl_tie (dl_next_enqueue_id c) r) s"
    and c': "c' = c\<lparr>dl_next_enqueue_id := dl_next_enqueue_id c + 1,
       dl_ready := (if r then tree_insert (ready_key s') t (dl_ready c) else dl_ready c),
       dl_throttled := (if r then dl_throttled c else tree_insert (throttled_key s') t (dl_throttled c))\<rparr>"
  shows "dl_inv s' c'" and "dl_waiting c' = insert t (dl_waiting c)"
proof -
  note D = dl_invD [OF inv]
  have out: "t \<notin> dl_waiting c" using dl_unlinked_out [OF inv t(1)] .
  have same: "s' x = s x" if "x \<noteq> t" for x using that by (simp add: s')
  have id: "dl_tree_id (dl (s' t)) = dl_next_enqueue_id c" by (simp add: s' dl_tie_def)
  note fresh = fresh_key [OF inv out same id]
  have sw: "\<forall>x \<in> dl_waiting c. s' x = s x" using out same by metis
  note D' = dl_invD [OF dl_frame [OF inv sw]]
  show W: "dl_waiting c' = insert t (dl_waiting c)" by (simp add: c' dl_waiting_def)
  have "ordered (ready_key s') (dl_ready c')"
    unfolding c' using D'(1) fresh by (auto intro!: ordered_insert simp: ready_key_def dl_waiting_def)
  moreover have "ordered (throttled_key s') (dl_throttled c')"
    unfolding c' using D'(2) fresh by (auto intro!: ordered_insert simp: throttled_key_def dl_waiting_def)
  moreover have "inj_on (\<lambda>t. dl_tree_id (dl (s' t))) (dl_waiting c')"
    unfolding W using D'(5) fresh by (fastforce simp: inj_on_insert)
  moreover have "dl_tied s' c' t \<and> ready_link (dl (s' t)) = r \<and> throttled_link (dl (s' t)) = (\<not> r)"
    using t by (auto simp: s' c' dl_tied_def dl_tie_def unlinked_def params_def)
  moreover have "dl_tied s' c' x" if "dl_tied s' c x" for x using that by (auto simp: c' dl_tied_def)
  ultimately show "dl_inv s' c'"
    using D'(3,4) room unfolding dl_inv_def by (simp add: c' dl_waiting_def split: if_splits)
qed

lemma insert_ready_ok:
  assumes inv: "dl_inv s c" and t: "unlinked (s t)" "params (s t) \<noteq> None"
    and room: "dl_next_enqueue_id c + 1 + length (dl_throttled c) < 2 ^ 64"
  obtains s' c' where "insert_ready s c t = Some (s', c')" "dl_inv s' c'" "dl_waiting c' = insert t (dl_waiting c)" "touches t s s'"
    "dl_throttled c' = dl_throttled c" "dl_next_enqueue_id c' = dl_next_enqueue_id c + 1"
    "dl_used c' \<le> dl_used c + 2"
proof -
  define s' where "s' = upd t (dl_tie (dl_next_enqueue_id c) True) s"
  define c' where "c' = c\<lparr>dl_next_enqueue_id := dl_next_enqueue_id c + 1, dl_ready := tree_insert (ready_key s') t (dl_ready c)\<rparr>"
  have c'': "c' = c\<lparr>dl_next_enqueue_id := dl_next_enqueue_id c + 1,
       dl_ready := (if True then tree_insert (ready_key s') t (dl_ready c) else dl_ready c),
       dl_throttled := (if True then dl_throttled c else tree_insert (throttled_key s') t (dl_throttled c))\<rparr>"
    by (simp add: c'_def)
  have e: "insert_ready s c t = Some (s', c')"
    unfolding c'_def by (rule insert_ready_eq [OF t(1) _ s'_def]) (use room in linarith)
  show thesis
    by (rule that [OF e dl_tie_inv [OF inv t _ s'_def c'']])
      (use room touches_tie in \<open>simp_all add: c'_def s'_def dl_used_def\<close>)
qed

lemma insert_throttled_ok:
  assumes inv: "dl_inv s c" and t: "unlinked (s t)" "params (s t) \<noteq> None"
    and room: "dl_next_enqueue_id c + 2 + length (dl_throttled c) < 2 ^ 64"
  obtains s' c' where "insert_throttled s c t = Some (s', c')" "dl_inv s' c'" "dl_waiting c' = insert t (dl_waiting c)" "touches t s s'"
    "length (dl_throttled c') = length (dl_throttled c) + 1" "dl_next_enqueue_id c' = dl_next_enqueue_id c + 1"
    "dl_used c' \<le> dl_used c + 2"
proof -
  define s' where "s' = upd t (dl_tie (dl_next_enqueue_id c) False) s"
  define c' where "c' = c\<lparr>dl_next_enqueue_id := dl_next_enqueue_id c + 1, dl_throttled := tree_insert (throttled_key s') t (dl_throttled c)\<rparr>"
  have c'': "c' = c\<lparr>dl_next_enqueue_id := dl_next_enqueue_id c + 1,
       dl_ready := (if False then tree_insert (ready_key s') t (dl_ready c) else dl_ready c),
       dl_throttled := (if False then dl_throttled c else tree_insert (throttled_key s') t (dl_throttled c))\<rparr>"
    by (simp add: c'_def)
  have e: "insert_throttled s c t = Some (s', c')"
    unfolding c'_def by (rule insert_throttled_eq [OF t(1) _ s'_def]) (use room in linarith)
  show thesis
    by (rule that [OF e dl_tie_inv [OF inv t _ s'_def c'']])
      (use room touches_tie in \<open>simp_all add: c'_def s'_def dl_used_def\<close>)
qed

section \<open>Unlinking\<close>

lemma dl_remove_inv:
  assumes inv: "dl_inv s c" and same: "\<And>x. x \<noteq> t \<Longrightarrow> s' x = s x"
    and c': "c' = c\<lparr>dl_ready := remove1 t (dl_ready c), dl_throttled := remove1 t (dl_throttled c)\<rparr>"
  shows "dl_inv s' c'" and "dl_waiting c' = dl_waiting c - {t}"
proof -
  note D = dl_invD [OF inv]
  note dist = ordered_distinct [OF D(1)] ordered_distinct [OF D(2)]
  show W: "dl_waiting c' = dl_waiting c - {t}" using dist by (auto simp: c' dl_waiting_def)
  have "length (remove1 t (dl_throttled c)) \<le> length (dl_throttled c)" by (simp add: length_remove1)
  moreover have "inj_on (\<lambda>t. dl_tree_id (dl (s t))) (set (dl_ready c') \<union> set (dl_throttled c'))"
    by (rule inj_on_subset [OF D(5)]) (use W in \<open>auto simp: dl_waiting_def\<close>)
  ultimately have "dl_inv s c'"
    unfolding dl_inv_def using D(1-4,6) dist
    by (auto simp: c' dl_waiting_def dl_tied_def intro: ordered_remove1)
  then show "dl_inv s' c'" using dl_frame W same by blast
qed

lemma dl_sides: "\<lbrakk>dl_inv s c; t \<in> set (dl_ready c); t \<in> set (dl_throttled c)\<rbrakk> \<Longrightarrow> False"
  using dl_invD(3,4) by blast

lemma remove_ready_ok:
  assumes inv: "dl_inv s c" and t: "t \<in> set (dl_ready c)"
  obtains s' c' where "remove_ready s c t = (s', c')" "dl_inv s' c'" "dl_waiting c' = dl_waiting c - {t}" "touches t s s'" "unlinked (s' t)"
    "dl_throttled c' = dl_throttled c" "dl_next_enqueue_id c' = dl_next_enqueue_id c"
proof -
  define s' c' where "s' = upd t (on_dl (\<lambda>e. e\<lparr>ready_link := False\<rparr>)) s" and "c' = c\<lparr>dl_ready := remove1 t (dl_ready c)\<rparr>"
  have nt: "t \<notin> set (dl_throttled c)" using dl_sides [OF inv t] by blast
  have c'': "c' = c\<lparr>dl_ready := remove1 t (dl_ready c), dl_throttled := remove1 t (dl_throttled c)\<rparr>"
    by (simp add: c'_def remove1_idem [OF nt])
  have "unlinked (s' t)" using dl_invD(3) [OF inv t] by (simp add: s'_def unlinked_def dl_tied_def)
  moreover have "touches t s s'" by (simp add: s'_def)
  moreover have "dl_inv s' c'" "dl_waiting c' = dl_waiting c - {t}"
    using dl_remove_inv [OF inv _ c'', of s'] by (simp_all add: s'_def)
  ultimately show thesis using that by (simp add: remove_ready_def s'_def c'_def)
qed

lemma remove_throttled_ok:
  assumes inv: "dl_inv s c" and t: "t \<in> set (dl_throttled c)"
  obtains s' c' where "remove_throttled s c t = (s', c')" "dl_inv s' c'" "dl_waiting c' = dl_waiting c - {t}" "touches t s s'"
    "unlinked (s' t)" "dl_throttled c' = remove1 t (dl_throttled c)" "dl_next_enqueue_id c' = dl_next_enqueue_id c"
proof -
  define s' c' where "s' = upd t (on_dl (\<lambda>e. e\<lparr>throttled_link := False\<rparr>)) s"
    and "c' = c\<lparr>dl_throttled := remove1 t (dl_throttled c)\<rparr>"
  have nt: "t \<notin> set (dl_ready c)" using dl_sides [OF inv _ t] by blast
  have c'': "c' = c\<lparr>dl_ready := remove1 t (dl_ready c), dl_throttled := remove1 t (dl_throttled c)\<rparr>"
    by (simp add: c'_def remove1_idem [OF nt])
  have "unlinked (s' t)" using dl_invD(4) [OF inv t] by (simp add: s'_def unlinked_def dl_tied_def)
  moreover have "touches t s s'" by (simp add: s'_def)
  moreover have "dl_inv s' c'" "dl_waiting c' = dl_waiting c - {t}"
    using dl_remove_inv [OF inv _ c'', of s'] by (simp_all add: s'_def)
  ultimately show thesis using that by (simp add: remove_throttled_def s'_def c'_def)
qed

section \<open>Time\<close>

text \<open>
  One round of \<open>advance\<close> moves the first throttled task to the ready tree.
\<close>

lemma advance_round:
  assumes inv: "dl_inv s c" and thr: "dl_throttled c = t # ts" and due: "period_start_ns (dl (s t)) \<le> now"
  obtains s' c' where "dl_advance_loop (Suc n) s c now = dl_advance_loop n s' c' now" "dl_inv s' c'" "dl_waiting c' = dl_waiting c"
    "touches t s s'" "dl_throttled c' = ts" "dl_next_enqueue_id c' = dl_next_enqueue_id c + 1"
proof -
  have t: "t \<in> set (dl_throttled c)" by (simp add: thr)
  obtain s1 c1 where 1: "remove_throttled s c t = (s1, c1)" "dl_inv s1 c1" "dl_waiting c1 = dl_waiting c - {t}" "touches t s s1"
    "unlinked (s1 t)" "dl_throttled c1 = ts" "dl_next_enqueue_id c1 = dl_next_enqueue_id c"
    using remove_throttled_ok [OF inv t] thr by auto
  obtain p where p: "params (s1 t) = Some p"
    using dl_invD(4) [OF inv t] touches_attr [OF 1(4), of t] by (auto simp: dl_tied_def params_def)
  define s2 where "s2 = upd t (on_dl (\<lambda>e. e\<lparr>budget_left_ns := runtime_ns p, is_throttled := False,
      deadline_ns := sat_add now (rel_deadline_ns p), period_start_ns := sat_add now (period_ns p)\<rparr>)) s1"
  have "dl_inv s2 c1" by (rule dl_frame [OF 1(2)]) (use 1(3) in \<open>auto simp: s2_def\<close>)
  moreover have "unlinked (s2 t)" "params (s2 t) \<noteq> None" using 1(5) p by (simp_all add: s2_def unlinked_def)
  moreover have "dl_next_enqueue_id c1 + 1 + length (dl_throttled c1) < 2 ^ 64" using dl_invD(6) [OF inv] 1(6,7) thr by simp
  ultimately obtain s3 c3 where 3: "insert_ready s2 c1 t = Some (s3, c3)" "dl_inv s3 c3" "dl_waiting c3 = insert t (dl_waiting c1)"
    "touches t s2 s3" "dl_throttled c3 = dl_throttled c1" "dl_next_enqueue_id c3 = dl_next_enqueue_id c1 + 1"
    by (rule insert_ready_ok)
  have "dl_waiting c3 = dl_waiting c" using 3(3) 1(3) t by (auto simp: dl_waiting_def)
  moreover have "touches t s s3" using touches_trans [OF 1(4)] touches_trans [OF _ 3(4)] by (simp add: s2_def)
  moreover have "dl_advance_loop (Suc n) s c now = dl_advance_loop n s3 c3 now"
    using thr due 1(1) p 3(1) by (simp add: s2_def Let_def)
  ultimately show thesis using that 3(2,5,6) 1(6,7) by simp
qed

lemma dl_advance_loop_ok:
  assumes "dl_inv s c"
  shows "\<exists>s' c'. dl_advance_loop n s c now = Some (s', c') \<and> dl_inv s' c' \<and> dl_waiting c' = dl_waiting c
    \<and> touches_in (set (dl_throttled c)) s s' \<and> set (dl_throttled c') \<subseteq> set (dl_throttled c) \<and> (\<forall>x \<in> set (dl_throttled c'). s' x = s x)
    \<and> dl_next_enqueue_id c' + length (dl_throttled c') = dl_next_enqueue_id c + length (dl_throttled c)
    \<and> (length (dl_throttled c) \<le> n \<longrightarrow> (\<forall>x \<in> set (dl_throttled c'). now < period_start_ns (dl (s' x))))"
  using assms
proof (induction n arbitrary: s c)
  case 0
  then show ?case by simp
next
  case (Suc n)
  show ?case
  proof (cases "dl_throttled c")
    case Nil
    then show ?thesis using Suc.prems by simp
  next
    case (Cons t ts)
    show ?thesis
    proof (cases "period_start_ns (dl (s t)) \<le> now")
      case False
      have "now < period_start_ns (dl (s x))" if "x \<in> set (dl_throttled c)" for x
        using front_least [OF dl_invD(2) [OF Suc.prems], of t x] that Cons False by (auto simp: throttled_key_def less_eq_prod_def)
      then show ?thesis using Suc.prems Cons False by simp
    next
      case True
      obtain s1 c1 where 1: "dl_advance_loop (Suc n) s c now = dl_advance_loop n s1 c1 now" "dl_inv s1 c1"
        "dl_waiting c1 = dl_waiting c" "touches t s s1" "dl_throttled c1 = ts" "dl_next_enqueue_id c1 = dl_next_enqueue_id c + 1"
        using advance_round [OF Suc.prems Cons True] by blast
      obtain s2 c2 where 2: "dl_advance_loop n s1 c1 now = Some (s2, c2)" "dl_inv s2 c2" "dl_waiting c2 = dl_waiting c1"
        "touches_in (set ts) s1 s2" "set (dl_throttled c2) \<subseteq> set ts" "\<forall>x \<in> set (dl_throttled c2). s2 x = s1 x"
        "dl_next_enqueue_id c2 + length (dl_throttled c2) = dl_next_enqueue_id c1 + length ts"
        "length ts \<le> n \<longrightarrow> (\<forall>x \<in> set (dl_throttled c2). now < period_start_ns (dl (s2 x)))"
        using Suc.IH [OF 1(2)] unfolding 1(5) by blast
      have "t \<notin> set ts" using ordered_distinct [OF dl_invD(2) [OF Suc.prems]] Cons by simp
      then have "\<forall>x \<in> set (dl_throttled c2). s2 x = s x" using 2(5,6) touches_other [OF 1(4)] by (metis subsetD)
      moreover have "touches_in (set (dl_throttled c)) s s2"
        using touches_in_trans [OF touches_in_one [OF 1(4)] touches_in_mono [OF 2(4)], of "set (t # ts)" "set (t # ts)"] Cons by auto
      ultimately show ?thesis using 1(1,3,6) 2 Cons by auto
    qed
  qed
qed

lemma dl_advance_ok:
  assumes "dl_inv s c"
  obtains s' c' where "dl_advance s c now = Some (s', c')" "dl_inv s' c'" "dl_waiting c' = dl_waiting c"
    "touches_in (set (dl_throttled c)) s s'" "set (dl_throttled c') \<subseteq> set (dl_throttled c)" "\<forall>x \<in> set (dl_throttled c'). s' x = s x"
    "dl_next_enqueue_id c' + length (dl_throttled c') = dl_next_enqueue_id c + length (dl_throttled c)"
    "\<forall>x \<in> set (dl_throttled c'). now < period_start_ns (dl (s' x))"
  using dl_advance_loop_ok [OF assms, of "length (dl_throttled c)" now] that unfolding dl_advance_def by blast

section \<open>The contract\<close>

lemma dl_enqueue_ok:
  assumes inv: "dl_inv s c" and t: "unlinked (s t)" and room: "dl_room s c t"
  shows "\<exists>s' c'. dl_enqueue s c t kind now = Some (s', c') \<and> dl_inv s' c' \<and> dl_waiting c' = insert t (dl_waiting c) \<and> touches t s s' \<and> dl_used c' \<le> dl_used c + 2"
proof -
  have ready: "\<exists>s' c'. insert_ready s0 c t = Some (s', c') \<and> dl_inv s' c' \<and> dl_waiting c' = insert t (dl_waiting c) \<and> touches t s s' \<and> dl_used c' \<le> dl_used c + 2"
    if tch: "touches t s s0" and unl: "unlinked (s0 t)" for s0
  proof -
    have "dl_inv s0 c" using dl_frame [OF inv] dl_unlinked_out [OF inv t] touches_other [OF tch] by metis
    moreover have "params (s0 t) \<noteq> None" using room touches_attr [OF tch, of t] by (simp add: dl_room_def params_def)
    moreover have less: "dl_next_enqueue_id c + 1 + length (dl_throttled c) < 2 ^ 64" using room by (simp add: dl_room_def dl_used_def)
    ultimately obtain s' c' where "insert_ready s0 c t = Some (s', c')" "dl_inv s' c'" "dl_waiting c' = insert t (dl_waiting c)" "touches t s0 s'"
      "dl_used c' \<le> dl_used c + 2"
      using insert_ready_ok [of s0 c t, OF _ unl _ less] by blast
    then show ?thesis using touches_trans [OF tch] by blast
  qed
  have throttled: "\<exists>s' c'. insert_throttled s0 c t = Some (s', c') \<and> dl_inv s' c' \<and> dl_waiting c' = insert t (dl_waiting c) \<and> touches t s s' \<and> dl_used c' \<le> dl_used c + 2"
    if s0: "s0 = upd t (on_dl (\<lambda>e. e\<lparr>is_throttled := True\<rparr>)) s" for s0
  proof -
    have "dl_inv s0 c" using dl_frame [OF inv] dl_unlinked_out [OF inv t] by (auto simp: s0 upd_def)
    moreover have "unlinked (s0 t)" "params (s0 t) \<noteq> None" using t room by (simp_all add: s0 unlinked_def dl_room_def)
    moreover have "dl_next_enqueue_id c + 2 + length (dl_throttled c) < 2 ^ 64" using room by (simp add: dl_room_def dl_used_def)
    ultimately obtain s' c' where "insert_throttled s0 c t = Some (s', c')" "dl_inv s' c'" "dl_waiting c' = insert t (dl_waiting c)" "touches t s0 s'"
      "dl_used c' \<le> dl_used c + 2"
      by (rule insert_throttled_ok)
    then show ?thesis using touches_trans [of t s s0] by (auto simp: s0)
  qed
  show ?thesis
    using ready [of s] ready [of "upd t (replenish now) s"] throttled [OF refl] t
    by (cases kind) (simp_all add: dl_enqueue_def)
qed

lemma dl_dequeue_ok:
  assumes inv: "dl_inv s c" and t: "t \<in> dl_waiting c"
  shows "\<exists>s' c'. dl_dequeue s c t = (s', c', Some t) \<and> dl_inv s' c' \<and> dl_waiting c' = dl_waiting c - {t}
    \<and> idle_links (s' t) \<and> touches t s s' \<and> dl_used c' \<le> dl_used c"
proof -
  note D = dl_invD [OF inv]
  have seat: "seat (s t) = QDeadline" using dl_waiting_tied [OF inv t] by (simp add: dl_tied_def)
  have detach: "dl_inv (upd t (set_seat QDetached) s') c' \<and> idle_links (upd t (set_seat QDetached) s' t)
      \<and> touches t s (upd t (set_seat QDetached) s')"
    if "dl_inv s' c'" "dl_waiting c' = dl_waiting c - {t}" "touches t s s'" "unlinked (s' t)" for s' c'
    using dl_frame [OF that(1), of "upd t (set_seat QDetached) s'"] that touches_trans [OF that(3)]
    by (auto simp: idle_links_def)
  show ?thesis
  proof (cases "t \<in> set (dl_throttled c)")
    case True
    obtain s' c' where "remove_throttled s c t = (s', c')" "dl_inv s' c'" "dl_waiting c' = dl_waiting c - {t}" "touches t s s'"
      "unlinked (s' t)" "dl_throttled c' = remove1 t (dl_throttled c)" "dl_next_enqueue_id c' = dl_next_enqueue_id c"
      using remove_throttled_ok [OF inv True] by blast
    then show ?thesis
      using seat tree_find_member [OF D(2) True] detach [of s' c'] by (simp add: dl_dequeue_def length_remove1 dl_used_def)
  next
    case False
    then have r: "t \<in> set (dl_ready c)" using t by (simp add: dl_waiting_def)
    have "tree_find (throttled_key s) (throttled_key s t) (dl_throttled c) = None"
      unfolding tree_find_None
    proof
      fix x assume x: "x \<in> set (dl_throttled c)"
      then have "dl_tree_id (dl (s x)) \<noteq> dl_tree_id (dl (s t))"
        using inj_onD [OF D(5), of x t] t False by (auto simp: dl_waiting_def)
      then show "throttled_key s x \<noteq> throttled_key s t" by (simp add: throttled_key_def)
    qed
    moreover obtain s' c' where "remove_ready s c t = (s', c')" "dl_inv s' c'" "dl_waiting c' = dl_waiting c - {t}" "touches t s s'"
      "unlinked (s' t)" "dl_throttled c' = dl_throttled c" "dl_next_enqueue_id c' = dl_next_enqueue_id c"
      using remove_ready_ok [OF inv r] by blast
    ultimately show ?thesis
      using seat tree_find_member [OF D(1) r] detach [of s' c'] by (simp add: dl_dequeue_def dl_used_def)
  qed
qed

lemma dl_pick_next_ok:
  assumes inv: "dl_inv s c"
  shows "\<exists>s' c' r. dl_pick_next s c = (s', c', r) \<and> dl_inv s' c' \<and> dl_used c' \<le> dl_used c \<and>
      (case r of
         None \<Rightarrow> \<not> dl_has_runnable c \<and> s' = s \<and> dl_waiting c' = dl_waiting c
       | Some t \<Rightarrow> dl_has_runnable c \<and> t \<in> dl_waiting c \<and> dl_waiting c' = dl_waiting c - {t} \<and> idle_links (s' t) \<and> touches t s s'
           \<and> (\<forall>u \<in> set (dl_ready c). ready_key s t \<le> ready_key s u))"
proof (cases "dl_ready c")
  case Nil
  then show ?thesis using inv by (simp add: dl_pick_next_def dl_has_runnable_def)
next
  case (Cons t ts)
  then have t: "t \<in> set (dl_ready c)" by simp
  obtain s' c' where 1: "remove_ready s c t = (s', c')" "dl_inv s' c'" "dl_waiting c' = dl_waiting c - {t}" "touches t s s'"
      "unlinked (s' t)" "dl_throttled c' = dl_throttled c" "dl_next_enqueue_id c' = dl_next_enqueue_id c"
    using remove_ready_ok [OF inv t] by blast
  have least: "\<forall>u \<in> set (dl_ready c). ready_key s t \<le> ready_key s u"
    using front_least [OF dl_invD(1) [OF inv]] Cons by simp
  let ?s = "upd t (set_seat QDetached) s'"
  have "dl_inv ?s c'" by (rule dl_frame [OF 1(2)]) (use 1(3) in \<open>auto simp: upd_def\<close>)
  moreover have "touches t s ?s" using touches_trans [OF 1(4)] by simp
  moreover have "dl_pick_next s c = (?s, note_runner (?s t) c', Some t)"
    using Cons tree_find_member [OF dl_invD(1) [OF inv] t] 1(1) by (simp add: dl_pick_next_def Let_def)
  ultimately show ?thesis
    using 1 Cons t least by (simp add: dl_has_runnable_def idle_links_def dl_waiting_def dl_used_def)
qed

lemma dl_put_prev_ok:
  assumes inv: "dl_inv s c" and t: "idle_links (s t)" and room: "stays r \<Longrightarrow> dl_room s c t"
  shows "\<exists>s' c'. dl_put_prev s c t r = Some (s', c', stays r) \<and> dl_inv s' c' \<and> touches t s s' \<and> dl_used c' \<le> dl_used c + 2
    \<and> (if stays r then dl_waiting c' = insert t (dl_waiting c) else dl_waiting c' = dl_waiting c \<and> idle_links (s' t))"
proof -
  have u: "unlinked (s t)" and out: "t \<notin> dl_waiting c" using t dl_unlinked_out [OF inv] by (simp_all add: idle_links_def)
  have inv': "dl_inv s (clear_runner c)" using inv by simp
  show ?thesis
  proof (cases "stays r")
    case True
    then have p: "params (s t) \<noteq> None"
      and less: "dl_next_enqueue_id (clear_runner c) + 1 + length (dl_throttled (clear_runner c)) < 2 ^ 64"
        "dl_next_enqueue_id (clear_runner c) + 2 + length (dl_throttled (clear_runner c)) < 2 ^ 64"
      using room by (simp_all add: dl_room_def dl_used_def)
    have "\<exists>s' c'. (if is_throttled (dl (s t)) then insert_throttled s (clear_runner c) t else insert_ready s (clear_runner c) t)
        = Some (s', c') \<and> dl_inv s' c' \<and> dl_waiting c' = insert t (dl_waiting c) \<and> touches t s s' \<and> dl_used c' \<le> dl_used c + 2"
      using insert_ready_ok [OF inv' u p less(1)] insert_throttled_ok [OF inv' u p less(2)] 
      by (metis clear_runner_simps(2) dl_used_clear)
    then show ?thesis using True by (cases r) (auto simp: dl_put_prev_def stays_def)
  next
    case False
    have *: "dl_inv (upd t f s) (clear_runner c)" for f
      using dl_frame [OF inv', of "upd t f s"] out by (auto simp: upd_def)
    have "touches t s (upd t (set_seat QDetached \<circ> on_dl f) s)" for f by (rule touches_upd) simp_all
    then show ?thesis using False * u by (cases r) (auto simp: dl_put_prev_def stays_def idle_links_def unlinked_def dl_used_def)
  qed
qed

interpretation dl_ops: class_ops dl_inv dl_waiting dl_has_runnable dl_used dl_room
  "\<lambda>s c t. dl_enqueue s c t kind now" "\<lambda>s c t. Some (dl_dequeue s c t)" "\<lambda>s c. Some (dl_pick_next s c)" dl_put_prev for kind now
  apply unfold_locales
  subgoal by (rule dl_frame)
  subgoal by (drule (1) dl_waiting_tied) (simp add: dl_tied_def)
  subgoal by (rule dl_enqueue_ok) (simp_all add: idle_links_def)
  subgoal for s c t using dl_dequeue_ok [of s c t] by auto
  subgoal for s c using dl_pick_next_ok [of s c] by (fastforce split: option.splits)
  subgoal by (rule dl_put_prev_ok)
  done

section \<open>The remaining operations\<close>

lemma deadline_class_new_inv: "dl_inv s deadline_class_new" "dl_waiting deadline_class_new = {}" "dl_used deadline_class_new = 0"
  by (simp_all add: dl_inv_def dl_waiting_def deadline_class_new_def dl_used_def)

lemma idle_on_dl: "keeps_links f \<Longrightarrow> idle_links (on_dl f x) = idle_links x"
  by (simp add: idle_links_def unlinked_on_dl)

lemma idle_replenish [simp]: "idle_links (replenish now x) = idle_links x"
  by (simp add: idle_links_def)

lemma dl_account_touch: "touches t s (fst (dl_account s t elapsed))" "idle_links (fst (dl_account s t elapsed) t) = idle_links (s t)"
  by (auto simp: dl_account_def Let_def idle_links_def unlinked_def intro: touches_trans [OF touches_dl touches_dl])

lemma dl_set_curr_touch:
  "touches t s (fst (dl_set_curr s c t now))" "idle_links (s t) \<Longrightarrow> idle_links (fst (dl_set_curr s c t now) t)"
  by (auto simp: dl_set_curr_def Let_def idle_links_def intro: touches_trans [OF touches_replenish touches_seat])

lemma dl_set_curr_class: "\<exists>x. snd (dl_set_curr s c t now) = note_runner x c"
  by (auto simp: dl_set_curr_def Let_def)

text \<open>The keys and links of a waiter do not depend on its attributes, budget and flags.\<close>

lemma dl_attr_changed_ok:
  assumes inv: "dl_inv s c" and s0: "s0 = upd t (task_set_attr a) s" and p: "dl_params a \<noteq> None"
  shows "\<exists>s' c'. dl_attr_changed s0 c t is_curr = (s', c') \<and> dl_inv s' c' \<and> dl_waiting c' = dl_waiting c
    \<and> touches t s0 s' \<and> (idle_links (s t) \<longrightarrow> idle_links (s' t)) \<and> dl_used c' = dl_used c"
proof -
  define s' where "s' = upd t (on_dl (\<lambda>e. e\<lparr>is_active := False, is_throttled := False\<rparr>)) s0"
  have keys: "ready_key s' = ready_key s" "throttled_key s' = throttled_key s"
    "(\<lambda>x. dl_tree_id (dl (s' x))) = (\<lambda>x. dl_tree_id (dl (s x)))"
    by (auto simp: s'_def s0 ready_key_def throttled_key_def upd_def fun_eq_iff)
  have tied: "dl_tied s' c x" if "dl_tied s c x" for x
    using that p by (auto simp: dl_tied_def s'_def s0 upd_def params_def)
  have links: "ready_link (dl (s' x)) = ready_link (dl (s x))" "throttled_link (dl (s' x)) = throttled_link (dl (s x))" for x
    by (simp_all add: s'_def s0 upd_def)
  have "dl_inv s' c" using inv tied unfolding dl_inv_def keys links by auto
  moreover have "touches t s0 s'" by (simp add: s'_def)
  moreover have "idle_links (s' t) = idle_links (s t)" by (simp add: s'_def s0 idle_links_def unlinked_def)
  ultimately show ?thesis by (simp add: dl_attr_changed_def s'_def [symmetric] Let_def dl_used_def)
qed

lemma dl_switched_from_touch:
  "touches t s (fst (dl_switched_from s c t is_curr))" "idle_links (fst (dl_switched_from s c t is_curr) t) = idle_links (s t)"
  "snd (dl_switched_from s c t is_curr) \<in> {c, clear_runner c}"
  by (auto simp: dl_switched_from_def idle_links_def unlinked_def)

lemma dl_switched_to_touch:
  "touches t s (fst (dl_switched_to s c t is_curr now))" "idle_links (fst (dl_switched_to s c t is_curr now) t) = idle_links (s t)"
  "\<exists>x. snd (dl_switched_to s c t is_curr now) \<in> {c, note_runner x c}"
  by (auto simp: dl_switched_to_def Let_def)

end
