(* ===== verification/SchedFairInv.thy ===== *)
theory SchedFairInv
  imports SchedLib
begin

text \<open>
  The fair class keeps its invariant: both trees hold the same tasks in the order of their keys, the
  cached first elements, the counter, the weight sum and the weighted virtual runtime sum are exact, and
  the nominated buddy waits. Every operation is total on such a class. From the exact sums: the average
  virtual runtime is never below the smallest one, so an eligible waiter always exists, and the pick is
  the earliest deadline among the eligible waiters.
\<close>

section \<open>The invariant\<close>

definition fair_tied :: "store \<Rightarrow> fair_class \<Rightarrow> task_ref \<Rightarrow> bool" where
  "fair_tied s c t \<longleftrightarrow> seat (s t) = QFair \<and> deadline_link (fair (s t)) \<and> vruntime_link (fair (s t))
     \<and> tree_id (fair (s t)) < next_enqueue_id c \<and> i64_range (vruntime (fair (s t)))
     \<and> rt_links (s t) = None \<and> \<not> ready_link (dl (s t)) \<and> \<not> throttled_link (dl (s t))"

text \<open>The parts that do not concern the buddy, for the weights \<open>w\<close> the sums were built with.\<close>

definition fair_core :: "(task_ref \<Rightarrow> int) \<Rightarrow> store \<Rightarrow> fair_class \<Rightarrow> bool" where
  "fair_core w s c \<longleftrightarrow> ordered (deadline_key s) (f_ready c) \<and> ordered (vruntime_key s) (vruntime_tree c)
     \<and> set (vruntime_tree c) = set (f_ready c) \<and> (\<forall>t \<in> set (f_ready c). fair_tied s c t)
     \<and> first_deadline c = front (f_ready c) \<and> first_vruntime c = front (vruntime_tree c) \<and> f_queued c = length (f_ready c)
     \<and> sum_wv c = sum_list (map (\<lambda>t. vruntime (fair (s t)) * w t) (f_ready c)) \<and> total_weight c = sum_list (map w (f_ready c))
     \<and> next_enqueue_id c < 2 ^ 64 \<and> i64_range (min_vruntime c)"

definition buddy_waits :: "fair_class \<Rightarrow> bool" where
  "buddy_waits c \<longleftrightarrow> (\<forall>b. next_buddy c = Some b \<longrightarrow> b \<in> set (f_ready c))"

definition fair_inv :: "store \<Rightarrow> fair_class \<Rightarrow> bool" where
  "fair_inv s c \<longleftrightarrow> fair_core (\<lambda>t. fweight (s t)) s c \<and> buddy_waits c"

definition fair_waiting :: "fair_class \<Rightarrow> task_ref set" where
  "fair_waiting c = set (f_ready c)"

lemma fair_coreD:
  assumes "fair_core w s c"
  shows "ordered (deadline_key s) (f_ready c)" "ordered (vruntime_key s) (vruntime_tree c)"
    "set (vruntime_tree c) = set (f_ready c)" "t \<in> set (f_ready c) \<Longrightarrow> fair_tied s c t"
    "first_deadline c = front (f_ready c)" "first_vruntime c = front (vruntime_tree c)" "f_queued c = length (f_ready c)"
    "sum_wv c = sum_list (map (\<lambda>t. vruntime (fair (s t)) * w t) (f_ready c))" "total_weight c = sum_list (map w (f_ready c))"
    "next_enqueue_id c < 2 ^ 64" "i64_range (min_vruntime c)"
  using assms by (simp_all add: fair_core_def)

lemma fair_core_frame:
  assumes core: "fair_core w s c" and same: "\<forall>x \<in> set (f_ready c). s' x = s x \<and> w' x = w x"
  shows "fair_core w' s' c"
proof -
  note D = fair_coreD [OF core]
  have 1: "ordered (deadline_key s') (f_ready c) = ordered (deadline_key s) (f_ready c)"
    by (rule ordered_cong) (use same in \<open>simp add: deadline_key_def\<close>)
  have 2: "ordered (vruntime_key s') (vruntime_tree c) = ordered (vruntime_key s) (vruntime_tree c)"
    by (rule ordered_cong) (use same D(3) in \<open>simp add: vruntime_key_def\<close>)
  have 3: "sum_list (map (\<lambda>t. vruntime (fair (s' t)) * w' t) (f_ready c)) = sum_list (map (\<lambda>t. vruntime (fair (s t)) * w t) (f_ready c))"
    by (rule sum_list_cong) (use same in simp)
  have 4: "sum_list (map w' (f_ready c)) = sum_list (map w (f_ready c))" by (rule sum_list_cong) (use same in simp)
  show ?thesis using core same unfolding fair_core_def 1 2 3 4 by (simp add: fair_tied_def)
qed

lemma fair_frame: "\<lbrakk>fair_inv s c; \<forall>x \<in> fair_waiting c. s' x = s x\<rbrakk> \<Longrightarrow> fair_inv s' c"
  unfolding fair_inv_def fair_waiting_def using fair_core_frame [of "\<lambda>t. fweight (s t)" s c s' "\<lambda>t. fweight (s' t)"] by simp

lemma fair_unlinked_out: "\<lbrakk>fair_core w s c; unlinked (s t)\<rbrakk> \<Longrightarrow> t \<notin> set (f_ready c)"
  using fair_coreD(4) [of w s c t] by (auto simp: fair_tied_def unlinked_def)

lemma fair_core_buddy [simp]:
  "fair_core w s (c\<lparr>next_buddy := b\<rparr>) = fair_core w s c" "fair_core w s (c\<lparr>has_sync_wake := y\<rparr>) = fair_core w s c"
  "fair_core w s (clear_buddy c) = fair_core w s c" "fair_core w s (clear_buddy_if t c) = fair_core w s c"
  "fair_core w s (set_next_buddy s' t c) = fair_core w s c"
  by (simp_all add: fair_core_def fair_tied_def clear_buddy_def clear_buddy_if_def set_next_buddy_def split: option.splits)

lemma buddy_simps [simp]:
  "f_ready (clear_buddy c) = f_ready c" "f_ready (clear_buddy_if t c) = f_ready c" "f_ready (set_next_buddy s' t c) = f_ready c"
  "next_enqueue_id (clear_buddy c) = next_enqueue_id c" "next_enqueue_id (clear_buddy_if t c) = next_enqueue_id c"
  "next_enqueue_id (set_next_buddy s' t c) = next_enqueue_id c" "next_buddy (clear_buddy c) = None"
  "min_vruntime (clear_buddy_if t c) = min_vruntime c" "first_vruntime (clear_buddy_if t c) = first_vruntime c"
  "vruntime_tree (clear_buddy_if t c) = vruntime_tree c"
  by (simp_all add: clear_buddy_def clear_buddy_if_def set_next_buddy_def split: option.splits)

lemma update_min_simps [simp]:
  "f_ready (update_min_vruntime s cu c) = f_ready c" "next_enqueue_id (update_min_vruntime s cu c) = next_enqueue_id c"
  "next_buddy (update_min_vruntime s cu c) = next_buddy c" "vruntime_tree (update_min_vruntime s cu c) = vruntime_tree c"
  by (simp_all add: update_min_vruntime_def Let_def)

lemma i64_max: "\<lbrakk>i64_range a; i64_range b\<rbrakk> \<Longrightarrow> i64_range (max a b)"
  by (simp add: i64_range_def max_def)

lemma i64_min: "\<lbrakk>i64_range a; i64_range b\<rbrakk> \<Longrightarrow> i64_range (min a b)"
  by (simp add: i64_range_def min_def)

lemma update_min_core:
  assumes core: "fair_core w s c" and cu: "\<And>u. cu = Some u \<Longrightarrow> i64_range (vruntime (fair (s' u)))"
    and same: "\<forall>x \<in> set (f_ready c). s' x = s x"
  shows "fair_core w s (update_min_vruntime s' cu c)"
proof -
  note D = fair_coreD [OF core]
  have "i64_range (vruntime (fair (s' t)))" if "first_vruntime c = Some t" for t
    using that D(3,4,6) front_in_set [of "vruntime_tree c" t] same by (simp add: fair_tied_def)
  then have "i64_range (min_vruntime (update_min_vruntime s' cu c))"
    using cu D(11) by (auto simp: update_min_vruntime_def Let_def intro!: i64_max i64_min split: option.splits)
  then show ?thesis using core unfolding fair_core_def by (simp add: update_min_vruntime_def fair_tied_def Let_def)
qed

section \<open>Linking and unlinking\<close>

definition fair_tie :: "nat \<Rightarrow> sched_task \<Rightarrow> sched_task" where
  "fair_tie i x = x\<lparr>seat := QFair, fair := (fair x)\<lparr>tree_id := i, deadline_link := True, vruntime_link := True\<rparr>\<rparr>"

definition fair_untie :: "sched_task \<Rightarrow> sched_task" where
  "fair_untie x = x\<lparr>seat := QDetached, fair := (fair x)\<lparr>deadline_link := False, vruntime_link := False\<rparr>\<rparr>"

definition fair_linked :: "store \<Rightarrow> fair_class \<Rightarrow> task_ref \<Rightarrow> fair_class" where
  "fair_linked s c t = c\<lparr>next_enqueue_id := next_enqueue_id c + 1,
     f_ready := tree_insert (deadline_key s) t (f_ready c), vruntime_tree := tree_insert (vruntime_key s) t (vruntime_tree c),
     first_deadline := front (tree_insert (deadline_key s) t (f_ready c)),
     first_vruntime := front (tree_insert (vruntime_key s) t (vruntime_tree c)), f_queued := f_queued c + 1,
     sum_wv := sum_wv c + vruntime (fair (s t)) * fweight (s t), total_weight := total_weight c + fweight (s t)\<rparr>"

lemma touches_fair_tie: "touches t s (upd t (fair_tie i) s)"
  by (rule touches_upd) (simp_all add: fair_tie_def task_wf_def sched_class_of_def)

lemma touches_fair_untie: "touches t s (upd t fair_untie s)"
  by (rule touches_upd) (simp_all add: fair_untie_def task_wf_def sched_class_of_def)

lemma enqueue_tree_eq:
  assumes core: "fair_core w s c" and t: "unlinked (s t)" and room: "next_enqueue_id c + 1 < 2 ^ 64"
    and s': "s' = upd t (fair_tie (next_enqueue_id c)) s"
  shows "enqueue_tree s c t cu =
    Some (s', if cu \<noteq> None then update_min_vruntime s' cu (fair_linked s' c t) else fair_linked s' c t)"
proof -
  note D = fair_coreD [OF core]
  define s1 where "s1 = upd t (set_seat (seat_from_sched_class CFair) \<circ> on_fair (\<lambda>e. e\<lparr>tree_id := next_enqueue_id c\<rparr>)) s"
  have 1: "upd t (on_fair (\<lambda>e. e\<lparr>deadline_link := True, vruntime_link := True\<rparr>)) s1 = s'"
    unfolding s' s1_def
    by (cases "s t", cases "fair (s t)") (simp add: upd_def set_seat_def on_fair_def fair_tie_def seat_from_sched_class_def)
  have 2: "\<not> deadline_link (fair (s1 t))" "\<not> vruntime_link (fair (s1 t))"
    using t by (simp_all add: s1_def on_fair_def set_seat_def unlinked_def)
  have key: "(deadline (fair (s1 t)), next_enqueue_id c) = deadline_key s' t" "(vruntime (fair (s' t)), next_enqueue_id c) = vruntime_key s' t"
    by (simp_all add: s' s1_def deadline_key_def vruntime_key_def fair_tie_def on_fair_def set_seat_def)
  have w: "fweight (s1 t) = fweight (s' t)" "vruntime (fair (s t)) = vruntime (fair (s' t))"
    by (simp_all add: s' s1_def fair_tie_def on_fair_def set_seat_def fweight_def)
  have id: "(next_enqueue_id c + 1) mod 2 ^ 64 = next_enqueue_id c + 1" using room by (rule mod_less)
  have "enqueue_tree s c t cu = Some (s', let l = c\<lparr>next_enqueue_id := next_enqueue_id c + 1,
      f_ready := tree_insert (deadline_key s') t (f_ready c), vruntime_tree := tree_insert (vruntime_key s') t (vruntime_tree c),
      first_deadline := (case first_deadline c of None \<Rightarrow> Some t
        | Some x \<Rightarrow> if deadline_key s' t < deadline_key s' x then Some t else first_deadline c),
      first_vruntime := (case first_vruntime c of None \<Rightarrow> Some t
        | Some x \<Rightarrow> if vruntime_key s' t < vruntime_key s' x then Some t else first_vruntime c), f_queued := f_queued c + 1,
      sum_wv := sum_wv c + vruntime (fair (s' t)) * fweight (s' t), total_weight := total_weight c + fweight (s' t)\<rparr> in
      if cu \<noteq> None then update_min_vruntime s' cu l else l)"
    unfolding enqueue_tree_def alloc_enqueue_id_def Let_def prod.case s1_def [symmetric] 1 id w key using 2 by (simp cong: option.case_cong if_cong)
  moreover have f: "(case front xs of None \<Rightarrow> Some t | Some x \<Rightarrow> if k t < k x then Some t else front xs) = front (tree_insert k t xs)"
    for k :: "nat \<Rightarrow> int \<times> nat" and xs
    unfolding front_tree_insert by (auto split: option.splits)
  ultimately show ?thesis
    unfolding D(5,6) fair_linked_def Let_def f [of "deadline_key s'"] f [of "vruntime_key s'"] by simp
qed

lemma fair_linked_core:
  assumes core: "fair_core (\<lambda>x. fweight (s x)) s c" and t: "unlinked (s t)" "i64_range (vruntime (fair (s t)))"
    and room: "next_enqueue_id c + 1 < 2 ^ 64" and s': "s' = upd t (fair_tie (next_enqueue_id c)) s"
  shows "fair_core (\<lambda>x. fweight (s' x)) s' (fair_linked s' c t)"
proof -
  have out: "t \<notin> set (f_ready c)" using fair_unlinked_out [OF core t(1)] .
  have same: "s' x = s x" if "x \<in> set (f_ready c)" for x using that out by (auto simp: s' upd_def)
  have core': "fair_core (\<lambda>x. fweight (s' x)) s' c" by (rule fair_core_frame [OF core]) (use same in simp)
  note D = fair_coreD [OF core']
  have fresh: "tree_id (fair (s' x)) \<noteq> tree_id (fair (s' t))" if "x \<in> set (f_ready c)" for x
    using D(4) [OF that] by (simp add: fair_tied_def s' fair_tie_def)
  have "ordered (deadline_key s') (tree_insert (deadline_key s') t (f_ready c))"
    by (rule ordered_insert [OF D(1)]) (use fresh in \<open>auto simp: deadline_key_def\<close>)
  moreover have "ordered (vruntime_key s') (tree_insert (vruntime_key s') t (vruntime_tree c))"
    by (rule ordered_insert [OF D(2)]) (use fresh D(3) in \<open>auto simp: vruntime_key_def\<close>)
  moreover have "fair_tied s' (fair_linked s' c t) t"
    using t by (simp add: fair_tied_def fair_linked_def s' fair_tie_def unlinked_def)
  moreover have "fair_tied s' (fair_linked s' c t) x" if "x \<in> set (f_ready c)" for x
    using D(4) [OF that] by (simp add: fair_tied_def fair_linked_def)
  ultimately show ?thesis
    unfolding fair_core_def using D(3,7-11) room by (auto simp: fair_linked_def sum_list_tree_insert)
qed

lemma enqueue_tree_ok:
  assumes core: "fair_core (\<lambda>x. fweight (s x)) s c" and t: "unlinked (s t)" "i64_range (vruntime (fair (s t)))"
    and room: "next_enqueue_id c + 1 < 2 ^ 64" and cu: "\<And>u. cu = Some u \<Longrightarrow> i64_range (vruntime (fair (s u)))"
  obtains s' c' where "enqueue_tree s c t cu = Some (s', c')" "fair_core (\<lambda>x. fweight (s' x)) s' c'"
    "set (f_ready c') = insert t (set (f_ready c))" "next_buddy c' = next_buddy c" "next_enqueue_id c' = next_enqueue_id c + 1"
    "touches t s s'"
proof -
  define s' where "s' = upd t (fair_tie (next_enqueue_id c)) s"
  have 1: "fair_core (\<lambda>x. fweight (s' x)) s' (fair_linked s' c t)" by (rule fair_linked_core [OF core t room s'_def])
  have "vruntime (fair (s' u)) = vruntime (fair (s u))" for u by (simp add: s'_def upd_def fair_tie_def)
  then have "fair_core (\<lambda>x. fweight (s' x)) s' (update_min_vruntime s' cu (fair_linked s' c t))"
    by (intro update_min_core [OF 1]) (use cu in auto)
  moreover have "touches t s s'" unfolding s'_def by (rule touches_fair_tie)
  ultimately show thesis
    using that [OF enqueue_tree_eq [OF core t(1) room s'_def, of cu]] 1 by (auto simp: fair_linked_def split: if_splits)
qed

lemma dequeue_entity_ok:
  assumes core: "fair_core w s c" and t: "t \<in> set (f_ready c)" and qw: "case qw of Some x \<Rightarrow> x = w t | None \<Rightarrow> w t = fweight (s t)"
  obtains s' c' where "dequeue_entity_with_weight s c (deadline_key s t) qw = Some (s', c', Some t)" "fair_core w s' c'"
    "set (f_ready c') = set (f_ready c) - {t}" "next_buddy c' = next_buddy c" "next_enqueue_id c' = next_enqueue_id c"
    "touches t s s'" "idle_links (s' t)" "vruntime (fair (s' t)) = vruntime (fair (s t))" "fair_untie (s t) = s' t"
proof -
  note D = fair_coreD [OF core]
  note dist = ordered_distinct [OF D(1)] ordered_distinct [OF D(2)]
  have tv: "t \<in> set (vruntime_tree c)" using t D(3) by simp
  define s' where "s' = upd t fair_untie s"
  define c' where "c' = c\<lparr>f_ready := remove1 t (f_ready c), vruntime_tree := remove1 t (vruntime_tree c),
    first_deadline := front (remove1 t (f_ready c)), first_vruntime := front (remove1 t (vruntime_tree c)), f_queued := f_queued c - 1,
    sum_wv := sum_wv c - vruntime (fair (s t)) * w t, total_weight := total_weight c - w t\<rparr>"
  have st: "upd t (set_seat QDetached \<circ> on_fair (\<lambda>e. e\<lparr>deadline_link := False, vruntime_link := False\<rparr>)) s = s'"
    by (cases "s t") (simp add: s'_def upd_def set_seat_def on_fair_def fair_untie_def)
  have w: "(case qw of Some w \<Rightarrow> w | None \<Rightarrow> fweight (s t)) = w t" using qw by (auto split: option.splits)
  have "dequeue_entity_with_weight s c (deadline_key s t) qw = Some (s', c', Some t)"
    unfolding dequeue_entity_with_weight_def tree_find_member [OF D(1) t] Let_def option.case w st tree_find_member [OF D(2) tv]
    by (simp add: c'_def front_remove1 [OF dist(1)] front_remove1 [OF dist(2)] D(5,6))
  moreover have "fair_core w s c'"
    unfolding fair_core_def using D dist t
    by (auto simp: c'_def sum_list_remove1 fair_tied_def length_remove1 intro: ordered_remove1)
  then have "fair_core w s' c'"
    by (rule fair_core_frame) (use dist in \<open>auto simp: c'_def s'_def\<close>)
  moreover have "idle_links (s' t)"
    using D(4) [OF t] by (simp add: s'_def idle_links_def unlinked_def fair_untie_def fair_tied_def)
  moreover have "touches t s s'" unfolding s'_def by (rule touches_fair_untie)
  ultimately show thesis using that [of s' c'] dist by (simp add: c'_def s'_def fair_untie_def)
qed

section \<open>Fair fields\<close>

lemma on_fair_simps [simp]:
  "class_byte (on_fair f x) = class_byte x" "attr (on_fair f x) = attr x" "seat (on_fair f x) = seat x" "fair (on_fair f x) = f (fair x)"
  "rt (on_fair f x) = rt x" "rt_links (on_fair f x) = rt_links x" "dl (on_fair f x) = dl x"
  "sched_class_of (on_fair f x) = sched_class_of x"
  by (simp_all add: on_fair_def sched_class_of_def)

text \<open>Changes of the virtual times and the lag of a task.\<close>

definition retimes :: "(sched_task \<Rightarrow> sched_task) \<Rightarrow> sched_task \<Rightarrow> bool" where
  "retimes f x \<longleftrightarrow> class_byte (f x) = class_byte x \<and> attr (f x) = attr x \<and> unlinked (f x) = unlinked x \<and> seat (f x) = seat x
     \<and> weight (fair (f x)) = weight (fair x)
     \<and> (i64_range (vruntime (fair x)) \<longrightarrow> i64_range (vruntime (fair (f x)))) \<and> (i64_range (deadline (fair x)) \<longrightarrow> i64_range (deadline (fair (f x))))"

lemma retimes_touches: "retimes f (s t) \<Longrightarrow> touches t s (upd t f s)"
  by (rule touches_upd) (simp_all add: retimes_def task_wf_def sched_class_of_def)

lemma retimes_idle: "retimes f x \<Longrightarrow> idle_links (f x) = idle_links x"
  by (simp add: retimes_def idle_links_def)

lemma request_deadline_range [simp]: "i64_range (request_deadline vr req w)"
  by (simp add: request_deadline_def)

lemma retimes_set_request: "i64_range vr \<Longrightarrow> retimes (\<lambda>y. set_request vr (req y) y) x"
  by (simp add: retimes_def set_request_def unlinked_def)

lemma retimes_vlag: "retimes (on_fair (\<lambda>e. e\<lparr>vlag := g e\<rparr>)) x"
  by (simp add: retimes_def unlinked_def)

lemma avg_range: "fair_core w s c \<Longrightarrow> i64_range (avg_vruntime s c cu)"
  by (auto simp: avg_vruntime_def Let_def fair_coreD(11) split: option.splits)

lemma place_range: "fair_core w s c \<Longrightarrow> i64_range (place_entity c x avg ld)"
  by (auto simp: place_entity_def Let_def fair_coreD(11))

section \<open>Enqueueing and dequeueing\<close>

definition fair_room :: "store \<Rightarrow> fair_class \<Rightarrow> task_ref \<Rightarrow> bool" where
  "fair_room s c t \<longleftrightarrow> next_enqueue_id c + 2 < 2 ^ 64"

lemma task_wf_vruntime: "task_wf x \<Longrightarrow> i64_range (vruntime (fair x))"
  by (simp add: task_wf_def)

lemma enqueue_placed:
  assumes core: "fair_core (\<lambda>x. fweight (s x)) s c" and t: "unlinked (s t)" and wf: "\<forall>x. task_wf (s x)"
    and room: "fair_room s c t" and f: "retimes f (s t)"
  obtains s' c' where "enqueue_tree (upd t f s) c t cu = Some (s', c')" "fair_core (\<lambda>x. fweight (s' x)) s' c'"
    "set (f_ready c') = insert t (set (f_ready c))" "next_buddy c' = next_buddy c" "next_enqueue_id c' = next_enqueue_id c + 1"
    "touches t s s'"
proof -
  let ?s = "upd t f s"
  have out: "t \<notin> set (f_ready c)" using fair_unlinked_out [OF core t] .
  have tch: "touches t s ?s" using f by (rule retimes_touches)
  have "fair_core (\<lambda>x. fweight (?s x)) ?s c" by (rule fair_core_frame [OF core]) (use out in \<open>auto simp: upd_def\<close>)
  moreover have "unlinked (?s t)" using t f by (simp add: retimes_def)
  moreover have range: "i64_range (vruntime (fair (?s u)))" for u using task_wf_vruntime touches_wf [OF tch] wf by blast
  moreover have "next_enqueue_id c + 1 < 2 ^ 64" using room by (simp add: fair_room_def)
  ultimately obtain s' c' where 1: "enqueue_tree ?s c t cu = Some (s', c')" "fair_core (\<lambda>x. fweight (s' x)) s' c'"
    "set (f_ready c') = insert t (set (f_ready c))" "next_buddy c' = next_buddy c" "next_enqueue_id c' = next_enqueue_id c + 1"
    "touches t ?s s'"
    by (rule enqueue_tree_ok) (use range in auto)
  then show thesis using that touches_trans [OF tch] by blast
qed

lemma retimes_place_new:
  "fair_core w s c \<Longrightarrow> \<exists>f. place_new_entity s c t cu = upd t f s \<and> retimes f (s t)"
  by (intro exI [of _ "\<lambda>x. set_request (avg_vruntime s c cu) (class_request_ns c)
        (on_fair (\<lambda>e. e\<lparr>request_ns := class_request_ns c, vlag := 0\<rparr>) x)"])
    (simp add: place_new_entity_def Let_def retimes_def set_request_def unlinked_def avg_range)

lemma retimes_apply_lag:
  "fair_core w s c \<Longrightarrow> \<exists>f. apply_lag s c t cu = upd t f s \<and> retimes f (s t)"
  by (intro exI [of _ "\<lambda>x. set_request (place_entity c (s t) (avg_vruntime s c cu) (load s c cu)) (request_ns (fair x)) x"] conjI
      retimes_set_request place_range) (simp_all add: apply_lag_def Let_def)

lemma fair_enqueue_ok:
  assumes inv: "fair_inv s c" and t: "unlinked (s t)" and wf: "\<forall>x. task_wf (s x)" and room: "fair_room s c t"
  shows "\<exists>s' c'. fair_enqueue s c t kind cu = Some (s', c') \<and> fair_inv s' c' \<and> fair_waiting c' = insert t (fair_waiting c)
    \<and> touches t s s' \<and> next_enqueue_id c' \<le> next_enqueue_id c + 2"
proof -
  have core: "fair_core (\<lambda>x. fweight (s x)) s c" and buddy: "buddy_waits c" using inv by (simp_all add: fair_inv_def)
  have enq: "\<exists>s' c'. enqueue_tree s0 c t cu = Some (s', c') \<and> fair_core (\<lambda>x. fweight (s' x)) s' c'
      \<and> set (f_ready c') = insert t (set (f_ready c)) \<and> next_buddy c' = next_buddy c \<and> next_enqueue_id c' = next_enqueue_id c + 1
      \<and> touches t s s'" if "\<exists>f. s0 = upd t f s \<and> retimes f (s t)" for s0
    using that enqueue_placed [OF core t wf room] by metis
  obtain s1 c1 where 1: "enqueue_tree (place_new_entity s c t cu) c t cu = Some (s1, c1)" "fair_core (\<lambda>x. fweight (s1 x)) s1 c1"
      "set (f_ready c1) = insert t (set (f_ready c))" "next_buddy c1 = next_buddy c" "next_enqueue_id c1 = next_enqueue_id c + 1"
      "touches t s s1" using enq [OF retimes_place_new [OF core]] by blast
  obtain s2 c2 where 2: "enqueue_tree (apply_lag s c t cu) c t cu = Some (s2, c2)" "fair_core (\<lambda>x. fweight (s2 x)) s2 c2"
      "set (f_ready c2) = insert t (set (f_ready c))" "next_buddy c2 = next_buddy c" "next_enqueue_id c2 = next_enqueue_id c + 1"
      "touches t s s2" using enq [OF retimes_apply_lag [OF core]] by blast
  have b: "buddy_waits c1" "buddy_waits c2" using buddy 1(3,4) 2(3,4) by (simp_all add: buddy_waits_def)
  then have "buddy_waits (set_next_buddy s2 t c2)"
    using 2(3) by (auto simp: buddy_waits_def set_next_buddy_def split: option.splits if_splits)
  then have "buddy_waits (set_next_buddy s2 t c2\<lparr>has_sync_wake := y\<rparr>)" for y by (simp add: buddy_waits_def)
  then have wake: "\<exists>c'. enqueue_wake s c t cu sync = Some (s2, c') \<and> fair_inv s2 c' \<and> fair_waiting c' = insert t (fair_waiting c)
      \<and> next_enqueue_id c' \<le> next_enqueue_id c + 2" for sync
    using 2 \<open>buddy_waits (set_next_buddy s2 t c2)\<close> by (simp add: enqueue_wake_def Let_def fair_inv_def fair_waiting_def)
  have "\<exists>c'. fair_enqueue s c t kind cu = Some (if kind = ENew then s1 else s2, c') \<and> fair_inv (if kind = ENew then s1 else s2) c'
      \<and> fair_waiting c' = insert t (fair_waiting c) \<and> next_enqueue_id c' \<le> next_enqueue_id c + 2"
    using 1(1-5) 2(1-5) b wake [of False] wake [of "case kind of EWake sync \<Rightarrow> sync | _ \<Rightarrow> False"]
    by (cases kind) (simp_all add: fair_enqueue_def fair_inv_def fair_waiting_def)
  then show ?thesis using 1(6) 2(6) by metis
qed

lemma fair_contains_iff: "\<lbrakk>fair_core w s c; t \<in> set (f_ready c)\<rbrakk> \<Longrightarrow> fair_contains s c t"
  by (simp add: fair_contains_def tree_find_member fair_coreD(1))

lemma fair_dequeue_ok:
  assumes inv: "fair_inv s c" and t: "t \<in> fair_waiting c" and wf: "\<forall>x. task_wf (s x)"
  shows "\<exists>s' c'. fair_dequeue s c t cu = Some (s', c', Some t) \<and> fair_inv s' c' \<and> fair_waiting c' = fair_waiting c - {t}
    \<and> idle_links (s' t) \<and> touches t s s' \<and> next_enqueue_id c' \<le> next_enqueue_id c"
proof -
  have core: "fair_core (\<lambda>x. fweight (s x)) s c" and buddy: "buddy_waits c" using inv by (simp_all add: fair_inv_def)
  have tr: "t \<in> set (f_ready c)" using t by (simp add: fair_waiting_def)
  let ?c = "clear_buddy_if t c" let ?w = "\<lambda>x. fweight (s x)"
  have core0: "fair_core ?w s ?c" using core by simp
  obtain s1 c1 where 1: "dequeue_entity s ?c (deadline_key s t) = Some (s1, c1, Some t)" "fair_core ?w s1 c1"
    "set (f_ready c1) = set (f_ready c) - {t}" "next_buddy c1 = next_buddy ?c" "next_enqueue_id c1 = next_enqueue_id c"
    "touches t s s1" "idle_links (s1 t)"
    unfolding dequeue_entity_def by (rule dequeue_entity_ok [OF core0, of t None]) (use tr in auto)
  define lag where "lag = as_i64 (avg_vruntime s ?c cu - vruntime (fair (s t)))"
  define s2 where "s2 = upd t (on_fair (\<lambda>e. e\<lparr>vlag := clamp_vlag lag (int (weight e)) (request_ns e)\<rparr>)) s1"
  have tch: "touches t s1 s2" unfolding s2_def by (rule retimes_touches [OF retimes_vlag])
  have idle: "idle_links (s2 t)" unfolding s2_def upd_same retimes_idle [OF retimes_vlag] by (rule 1(7))
  have "touches t s s2" using touches_trans [OF 1(6) tch] .
  then have range: "i64_range (vruntime (fair (s2 u)))" for u using task_wf_vruntime touches_wf wf by blast
  have "fair_core (\<lambda>x. fweight (s2 x)) s2 c1"
    by (rule fair_core_frame [OF 1(2)]) (use 1(3) touches_other [OF tch] touches_other [OF 1(6)] in \<open>auto simp: fweight_def\<close>)
  then have "fair_core (\<lambda>x. fweight (s2 x)) s2 (update_min_vruntime s2 cu c1)" by (rule update_min_core) (use range in auto)
  moreover have "buddy_waits (update_min_vruntime s2 cu c1)"
    using buddy 1(3,4) by (auto simp: buddy_waits_def clear_buddy_if_def split: if_splits)
  moreover have "fair_dequeue s c t cu = Some (s2, update_min_vruntime s2 cu c1, Some t)"
    using 1(1) fair_contains_iff [OF core tr] by (simp add: fair_dequeue_def dequeue_with_lag_def Let_def s2_def lag_def)
  ultimately show ?thesis using \<open>touches t s s2\<close> idle 1(3,5) by (simp add: fair_inv_def fair_waiting_def)
qed

section \<open>Picking\<close>

lemma foldl_min: "foldl min k ks \<in> set (k # ks) \<and> (\<forall>x \<in> set (k # ks). foldl min k ks \<le> x)"
  for k :: "'k::linorder"
proof (induction ks arbitrary: k)
  case (Cons a ks)
  show ?case using Cons.IH [of "min k a"] by (auto simp: min_def split: if_splits)
qed simp

lemma min_key_spec: "min_key ks = Some m \<Longrightarrow> m \<in> set ks \<and> (\<forall>x \<in> set ks. m \<le> x)"
  by (cases ks) (use foldl_min in auto)

lemma eligible_prefix:
  assumes "ordered (vruntime_key s) ts"
  shows "set (takeWhile (\<lambda>t. is_eligible (vruntime (fair (s t))) avg) ts) = {t \<in> set ts. is_eligible (vruntime (fair (s t))) avg}"
  using assms
proof (induction ts)
  case (Cons a ts)
  then show ?case by (auto simp: ordered_Cons vruntime_key_def is_eligible_def less_prod_def)
qed simp

text \<open>The earliest deadline among the eligible waiters.\<close>

definition eligible :: "store \<Rightarrow> fair_class \<Rightarrow> int \<Rightarrow> task_ref set" where
  "eligible s c avg = {t \<in> set (f_ready c). is_eligible (vruntime (fair (s t))) avg}"

lemma earliest_eligible_spec:
  assumes core: "fair_core w s c"
  shows "earliest_eligible s c avg = None \<Longrightarrow> eligible s c avg = {}"
    and "earliest_eligible s c avg = Some k \<Longrightarrow> \<exists>t \<in> eligible s c avg. k = deadline_key s t \<and> (\<forall>u \<in> eligible s c avg. k \<le> deadline_key s u)"
proof -
  note D = fair_coreD [OF core]
  let ?es = "takeWhile (\<lambda>t. is_eligible (vruntime (fair (s t))) avg) (vruntime_tree c)"
  have es: "set ?es = eligible s c avg" unfolding eligible_prefix [OF D(2)] eligible_def D(3) ..
  show "eligible s c avg = {}" if "earliest_eligible s c avg = None"
  proof (cases "first_deadline c")
    case None
    then show ?thesis using D(5) by (simp add: eligible_def)
  next
    case (Some t)
    then have "min_key (map (deadline_key s) ?es) = None" using that by (simp add: earliest_eligible_def split: if_splits)
    then have "?es = []" by (cases ?es) simp_all
    then show ?thesis using es by simp
  qed
  assume k: "earliest_eligible s c avg = Some k"
  then obtain t where t: "first_deadline c = Some t" by (auto simp: earliest_eligible_def split: option.splits)
  show "\<exists>t \<in> eligible s c avg. k = deadline_key s t \<and> (\<forall>u \<in> eligible s c avg. k \<le> deadline_key s u)"
  proof (cases "is_eligible (vruntime (fair (s t))) avg")
    case True
    then have "k = deadline_key s t" using k t by (simp add: earliest_eligible_def)
    moreover have "t \<in> eligible s c avg" using True t D(5) front_in_set by (simp add: eligible_def)
    moreover have "deadline_key s t \<le> deadline_key s u" if "u \<in> eligible s c avg" for u
      using front_least [OF D(1), of t u] t D(5) that by (simp add: eligible_def)
    ultimately show ?thesis by blast
  next
    case False
    then have "min_key (map (deadline_key s) ?es) = Some k" using k t by (simp add: earliest_eligible_def)
    from min_key_spec [OF this] show ?thesis using es by auto
  qed
qed

text \<open>A picked task is the eligible buddy, or the earliest of the eligible waiters when there is one.\<close>

definition fair_choice :: "store \<Rightarrow> fair_class \<Rightarrow> task_ref \<Rightarrow> bool" where
  "fair_choice s c t \<longleftrightarrow> (let avg = avg_vruntime s c None; es = eligible s c avg in
     t \<in> es \<and> (if is_buddy_eligible s c avg then next_buddy c = Some t else \<forall>u \<in> es. deadline_key s t \<le> deadline_key s u))"

lemma fair_dequeued_inv:
  assumes core: "fair_core (\<lambda>x. fweight (s x)) s c" and t: "t \<in> set (f_ready c)"
  obtains s' c' where "dequeue_entity s c (deadline_key s t) = Some (s', c', Some t)" "fair_core (\<lambda>x. fweight (s' x)) s' c'"
    "set (f_ready c') = set (f_ready c) - {t}" "next_buddy c' = next_buddy c" "next_enqueue_id c' = next_enqueue_id c"
    "touches t s s'" "idle_links (s' t)"
proof -
  obtain s' c' where 1: "dequeue_entity s c (deadline_key s t) = Some (s', c', Some t)" "fair_core (\<lambda>x. fweight (s x)) s' c'"
    "set (f_ready c') = set (f_ready c) - {t}" "next_buddy c' = next_buddy c" "next_enqueue_id c' = next_enqueue_id c"
    "touches t s s'" "idle_links (s' t)"
    unfolding dequeue_entity_def by (rule dequeue_entity_ok [OF core, of t None]) (use t in auto)
  have "fair_core (\<lambda>x. fweight (s' x)) s' c'"
    by (rule fair_core_frame [OF 1(2)]) (use 1(3) touches_other [OF 1(6)] in \<open>auto simp: fweight_def\<close>)
  then show thesis using that 1 by blast
qed

lemma fair_pick_some:
  assumes inv: "fair_inv s c" and ne: "f_ready c \<noteq> []"
  obtains s' c' t where "fair_pick_next s c = Some (s', c', Some t)" "fair_inv s' c'" "t \<in> fair_waiting c"
    "fair_waiting c' = fair_waiting c - {t}" "next_enqueue_id c' = next_enqueue_id c" "touches t s s'" "idle_links (s' t)"
    "eligible s c (avg_vruntime s c None) \<noteq> {} \<longrightarrow> fair_choice s c t"
proof -
  have core: "fair_core (\<lambda>x. fweight (s x)) s c" and buddy: "buddy_waits c" using inv by (simp_all add: fair_inv_def)
  note D = fair_coreD [OF core]
  let ?avg = "avg_vruntime s c None"
  show thesis
  proof (cases "is_buddy_eligible s c ?avg")
    case True
    then obtain b where b: "next_buddy c = Some b" "is_eligible (vruntime (fair (s b))) ?avg"
      by (auto simp: is_buddy_eligible_def split: option.splits)
    let ?c = "c\<lparr>next_buddy := None, has_sync_wake := False\<rparr>"
    have "fair_core (\<lambda>x. fweight (s x)) s ?c" "b \<in> set (f_ready ?c)" using core buddy b by (simp_all add: buddy_waits_def)
    then obtain s' c' where 1: "dequeue_entity s ?c (deadline_key s b) = Some (s', c', Some b)" "fair_core (\<lambda>x. fweight (s' x)) s' c'"
      "set (f_ready c') = set (f_ready ?c) - {b}" "next_buddy c' = next_buddy ?c" "next_enqueue_id c' = next_enqueue_id ?c"
      "touches b s s'" "idle_links (s' b)"
      by (rule fair_dequeued_inv)
    have "fair_pick_next s c = Some (s', c', Some b)"
      using ne True b 1(1) by (simp add: fair_pick_next_def pick_buddy_def Let_def)
    moreover have "fair_choice s c b" using b True \<open>b \<in> set (f_ready ?c)\<close> by (simp add: fair_choice_def Let_def eligible_def)
    ultimately show ?thesis
      using that [of s' c' b] 1(2-7) \<open>b \<in> set (f_ready ?c)\<close> by (simp add: fair_inv_def buddy_waits_def fair_waiting_def)
  next
    case False
    then have pb: "pick_buddy s c = Some (s, c, None)" by (auto simp: pick_buddy_def Let_def split: option.splits)
    have "\<exists>t \<in> set (f_ready c). (case earliest_eligible s c ?avg of Some key \<Rightarrow> Some key | None \<Rightarrow> first_deadline_key s c) = Some (deadline_key s t)
        \<and> (eligible s c ?avg \<noteq> {} \<longrightarrow> fair_choice s c t)"
    proof (cases "earliest_eligible s c ?avg")
      case None
      obtain t ts where "f_ready c = t # ts" using ne by (cases "f_ready c") auto
      then show ?thesis using None D(5) earliest_eligible_spec(1) [OF core None] by (simp add: first_deadline_key_def)
    next
      case (Some k)
      from earliest_eligible_spec(2) [OF core Some] show ?thesis using Some False by (auto simp: fair_choice_def Let_def eligible_def)
    qed
    then obtain t where t: "t \<in> set (f_ready c)" "eligible s c ?avg \<noteq> {} \<longrightarrow> fair_choice s c t"
      and key: "(case earliest_eligible s c ?avg of Some key \<Rightarrow> Some key | None \<Rightarrow> first_deadline_key s c) = Some (deadline_key s t)" by blast
    obtain s' c' where 1: "dequeue_entity s c (deadline_key s t) = Some (s', c', Some t)" "fair_core (\<lambda>x. fweight (s' x)) s' c'"
      "set (f_ready c') = set (f_ready c) - {t}" "next_buddy c' = next_buddy c" "next_enqueue_id c' = next_enqueue_id c"
      "touches t s s'" "idle_links (s' t)"
      using fair_dequeued_inv [OF core t(1)] by blast
    have "fair_pick_next s c = Some (s', clear_buddy_if t c', Some t)"
      unfolding fair_pick_next_def using ne pb 1(1) by (simp add: key del: option.case_eq_if)
    moreover have "buddy_waits (clear_buddy_if t c')"
      using buddy 1(3,4) by (auto simp: buddy_waits_def clear_buddy_if_def clear_buddy_def split: if_splits)
    ultimately show ?thesis using that [of s' "clear_buddy_if t c'" t] 1(2-7) t by (simp add: fair_inv_def fair_waiting_def)
  qed
qed

lemma fair_pick_next_ok:
  assumes inv: "fair_inv s c"
  shows "\<exists>s' c' r. fair_pick_next s c = Some (s', c', r) \<and> fair_inv s' c' \<and> next_enqueue_id c' \<le> next_enqueue_id c \<and>
      (case r of
         None \<Rightarrow> \<not> fair_has_runnable c \<and> s' = s \<and> fair_waiting c' = fair_waiting c
       | Some t \<Rightarrow> fair_has_runnable c \<and> t \<in> fair_waiting c \<and> fair_waiting c' = fair_waiting c - {t} \<and> idle_links (s' t) \<and> touches t s s')"
proof (cases "f_ready c = []")
  case True
  then have "fair_pick_next s c = Some (s, clear_buddy c, None)" "fair_inv s (clear_buddy c)"
    using inv by (simp_all add: fair_pick_next_def fair_inv_def buddy_waits_def)
  then show ?thesis using True by (simp add: fair_has_runnable_def fair_waiting_def)
next
  case False
  obtain s' c' t where "fair_pick_next s c = Some (s', c', Some t)" "fair_inv s' c'" "t \<in> fair_waiting c"
    "fair_waiting c' = fair_waiting c - {t}" "next_enqueue_id c' = next_enqueue_id c" "touches t s s'" "idle_links (s' t)"
    "eligible s c (avg_vruntime s c None) \<noteq> {} \<longrightarrow> fair_choice s c t"
    by (rule fair_pick_some [OF inv False])
  then show ?thesis using False by (simp add: fair_has_runnable_def)
qed

section \<open>Leaving the processor\<close>

lemma retimes_comp: "\<lbrakk>retimes f x; retimes g (f x)\<rbrakk> \<Longrightarrow> retimes (\<lambda>y. g (f y)) x"
  by (simp add: retimes_def)

lemma retimes_vruntime: "i64_range vr \<Longrightarrow> retimes (on_fair (\<lambda>e. e\<lparr>vruntime := vr\<rparr>)) x"
  by (simp add: retimes_def unlinked_def)

lemma retimes_deadline: "retimes (on_fair (\<lambda>e. e\<lparr>deadline := request_deadline (vr e) (req e) (w e)\<rparr>)) x"
  by (simp add: retimes_def unlinked_def)

text \<open>What a preempted runner carries over: its virtual runtime, and a deadline for the rest of its slice.\<close>

lemma retimes_preempt:
  fixes s :: store and t :: task_ref and vr :: int
  assumes vr: "i64_range vr"
  defines "s1 \<equiv> upd t (on_fair (\<lambda>e. e\<lparr>vruntime := vr\<rparr>)) s"
  shows "\<exists>f. (if slice_left_ns (fair (s1 t)) = 0 then upd t (\<lambda>x. set_request vr (request_ns (fair x)) x) s1
      else if deadline (fair (s1 t)) \<le> vr
      then upd t (on_fair (\<lambda>e. e\<lparr>deadline := request_deadline vr (slice_left_ns (fair (s1 t))) (int (weight e))\<rparr>)) s1 else s1) = upd t f s
      \<and> retimes f (s t)"
proof -
  note v = retimes_vruntime [OF vr, of "s t"]
  consider (spent) "slice_left_ns (fair (s1 t)) = 0"
    | (late) "slice_left_ns (fair (s1 t)) \<noteq> 0" "deadline (fair (s1 t)) \<le> vr"
    | (kept) "slice_left_ns (fair (s1 t)) \<noteq> 0" "\<not> deadline (fair (s1 t)) \<le> vr" by blast
  then show ?thesis
  proof cases
    case spent
    show ?thesis unfolding if_P [OF spent] unfolding s1_def upd_upd
      by (rule exI, rule conjI, rule refl, rule retimes_comp [OF v], rule retimes_set_request [OF vr])
  next
    case late
    show ?thesis unfolding if_not_P [OF late(1)] if_P [OF late(2)] unfolding s1_def upd_upd
      by (rule exI, rule conjI, rule refl, rule retimes_comp [OF v], rule retimes_deadline)
  next
    case kept
    show ?thesis unfolding if_not_P [OF kept(1)] if_not_P [OF kept(2)] unfolding s1_def by (rule exI, rule conjI, rule refl, rule v)
  qed
qed

lemma fair_put_prev_ok:
  assumes inv: "fair_inv s c" and t: "idle_links (s t)" and wf: "\<forall>x. task_wf (s x)" and room: "stays r \<Longrightarrow> fair_room s c t"
  shows "\<exists>s' c'. fair_put_prev s c t r = Some (s', c', stays r) \<and> fair_inv s' c' \<and> touches t s s' \<and> next_enqueue_id c' \<le> next_enqueue_id c + 2
    \<and> (if stays r then fair_waiting c' = insert t (fair_waiting c) else fair_waiting c' = fair_waiting c \<and> idle_links (s' t))"
proof -
  have core: "fair_core (\<lambda>x. fweight (s x)) s c" and buddy: "buddy_waits c" using inv by (simp_all add: fair_inv_def)
  have u: "unlinked (s t)" using t by (simp add: idle_links_def)
  define c1 where "c1 = update_min_vruntime s (Some t) (clear_buddy_if t c)"
  have core1: "fair_core (\<lambda>x. fweight (s x)) s c1"
    unfolding c1_def by (rule update_min_core) (use core task_wf_vruntime wf in auto)
  have b1: "buddy_waits c1" using buddy by (auto simp: c1_def buddy_waits_def clear_buddy_if_def clear_buddy_def split: if_splits)
  have c1: "f_ready c1 = f_ready c" "next_enqueue_id c1 = next_enqueue_id c" by (simp_all add: c1_def)
  define vr where "vr = max (vruntime (fair (s t))) (min_vruntime c1)"
  have vr: "i64_range vr" unfolding vr_def using fair_coreD(11) [OF core1] task_wf_vruntime wf by (blast intro: i64_max)
  have requeue: "\<exists>s' c'. requeue_prev s0 c1 t = Some (s', c') \<and> fair_inv s' c' \<and> touches t s s'
      \<and> next_enqueue_id c' \<le> next_enqueue_id c + 2 \<and> fair_waiting c' = insert t (fair_waiting c)"
    if s0: "\<exists>f. s0 = upd t f s \<and> retimes f (s t)" and st: "stays r" for s0
  proof -
    obtain f where f: "s0 = upd t f s" "retimes f (s t)" using s0 by blast
    have "fair_room s c1 t" using room [OF st] by (simp add: fair_room_def c1)
    from enqueue_placed [OF core1 u wf this f(2), of None] obtain s' c' where
      "enqueue_tree s0 c1 t None = Some (s', c')" "fair_core (\<lambda>x. fweight (s' x)) s' c'" "set (f_ready c') = insert t (set (f_ready c1))"
      "next_buddy c' = next_buddy c1" "next_enqueue_id c' = next_enqueue_id c1 + 1" "touches t s s'" unfolding f(1) .
    then show ?thesis using b1 by (auto simp: requeue_prev_def fair_inv_def fair_waiting_def buddy_waits_def c1)
  qed
  have inv1: "fair_inv s c1" using core1 b1 by (simp add: fair_inv_def)
  have lag: "retimes (on_fair (\<lambda>e. e\<lparr>vlag := clamp_vlag g (int (weight e)) (request_ns e)\<rparr>)) (s t)" for g by (rule retimes_vlag)
  have "fair_inv (update_entity_lag s c1 t) c1"
    by (rule fair_frame [OF inv1])
      (use fair_unlinked_out [OF core u] in \<open>auto simp: update_entity_lag_def Let_def fair_waiting_def c1 upd_def\<close>)
  moreover have "touches t s (update_entity_lag s c1 t)" unfolding update_entity_lag_def Let_def by (rule retimes_touches, rule lag)
  moreover have "idle_links (update_entity_lag s c1 t t)"
    unfolding update_entity_lag_def Let_def upd_same retimes_idle [OF lag] by (rule t)
  ultimately have "r = LBlock \<or> r = LMigrate \<Longrightarrow> ?thesis"
    unfolding fair_put_prev_def c1_def [symmetric] Let_def by (auto simp: stays_def fair_waiting_def c1)
  moreover have "r = LExit \<Longrightarrow> ?thesis"
    unfolding fair_put_prev_def c1_def [symmetric] Let_def using inv1 t by (simp add: stays_def fair_waiting_def c1)
  moreover have "?thesis" if r: "r = LYield"
  proof -
    have "stays r" using r by (simp add: stays_def)
    moreover have "\<exists>f. upd t (\<lambda>x. set_request vr (request_ns (fair x)) x) s = upd t f s \<and> retimes f (s t)"
      using retimes_set_request [OF vr, of "\<lambda>x. request_ns (fair x)" "s t"] by blast
    ultimately show ?thesis
      using requeue [of "upd t (\<lambda>x. set_request vr (request_ns (fair x)) x) s"]
      unfolding fair_put_prev_def c1_def [symmetric] Let_def vr_def [symmetric] r leave_reason.case by (auto simp: stays_def)
  qed
  moreover have "?thesis" if r: "r = LPreempt"
  proof -
    have "stays r" using r by (simp add: stays_def)
    from requeue [OF retimes_preempt [OF vr, of t s] this] show ?thesis
      unfolding fair_put_prev_def c1_def [symmetric] Let_def vr_def [symmetric] r leave_reason.case by (auto simp: stays_def)
  qed
  ultimately show ?thesis by (cases r) blast+
qed

interpretation fair_ops: class_ops fair_inv fair_waiting fair_has_runnable next_enqueue_id fair_room
  "\<lambda>s c t. fair_enqueue s c t kind cu" "\<lambda>s c t. fair_dequeue s c t cu" fair_pick_next fair_put_prev for kind cu
  apply unfold_locales
  subgoal by (rule fair_frame)
  subgoal by (auto simp: fair_inv_def fair_waiting_def fair_tied_def dest: fair_coreD(4))
  subgoal by (rule fair_enqueue_ok) (simp_all add: idle_links_def)
  subgoal by (rule fair_dequeue_ok)
  subgoal by (rule fair_pick_next_ok)
  subgoal by (rule fair_put_prev_ok)
  done

section \<open>The remaining operations\<close>

lemma fair_class_new_inv: "fair_inv s (fair_class_new cfg)" "fair_waiting (fair_class_new cfg) = {}"
  by (simp_all add: fair_inv_def fair_core_def buddy_waits_def fair_waiting_def fair_class_new_def i64_range_def)

lemma update_deadline_touch:
  assumes wf: "task_wf (s t)"
  shows "touches t s (fst (update_deadline s c t))" "idle_links (fst (update_deadline s c t) t) = idle_links (s t)"
proof -
  have "retimes (set_request (vruntime (fair (s t))) (request_ns (fair (s t)))) (s t)"
    using retimes_set_request [OF task_wf_vruntime [OF wf], of "\<lambda>_. request_ns (fair (s t))"] .
  then show "touches t s (fst (update_deadline s c t))" "idle_links (fst (update_deadline s c t) t) = idle_links (s t)"
    using retimes_touches [of _ s t] retimes_idle by (simp_all add: update_deadline_def Let_def)
qed

lemma fair_account_touch:
  assumes wf: "task_wf (s t)"
  shows "touches t s (fst (fair_account s c t elapsed))" "idle_links (fst (fair_account s c t elapsed) t) = idle_links (s t)"
proof -
  define s1 where "s1 = (if elapsed > 0 then
      let delta = vruntime_delta elapsed (fweight (s t)) in
      upd t (on_fair (\<lambda>e. e\<lparr>vruntime := clamp I64_MIN I64_MAX (vruntime e + delta),
          slice_left_ns := slice_left_ns e - min elapsed (slice_left_ns e)\<rparr>)) s else s)"
  have rt: "retimes (on_fair (\<lambda>e. e\<lparr>vruntime := clamp I64_MIN I64_MAX (vruntime e + d), slice_left_ns := g e\<rparr>)) (s t)" for d g
    using clamp_range [of "vruntime (fair (s t)) + d"] by (simp add: retimes_def unlinked_def)
  have 1: "touches t s s1" "idle_links (s1 t) = idle_links (s t)"
    using retimes_touches [of _ s t] rt retimes_idle [OF rt] by (simp_all add: s1_def Let_def)
  have e: "fair_account s c t elapsed = update_deadline s1 c t" unfolding fair_account_def s1_def Let_def ..
  show "touches t s (fst (fair_account s c t elapsed))" "idle_links (fst (fair_account s c t elapsed) t) = idle_links (s t)"
    unfolding e using update_deadline_touch [of s1 t, OF touches_wf [OF 1(1) wf]] touches_trans [OF 1(1)] 1(2) by simp_all
qed

lemma peer_preempts_total:
  assumes core: "fair_core w s c"
  shows "\<exists>b. peer_preempts s c t = Some b"
proof -
  let ?e = "earliest_eligible s c (avg_vruntime s c (Some t))"
  have "\<exists>u. tree_find (deadline_key s) k (f_ready c) = Some u" if "?e = Some k" for k
    using earliest_eligible_spec(2) [OF core that] tree_find_member [OF fair_coreD(1) [OF core]] by (auto simp: eligible_def)
  then show ?thesis by (cases ?e) (auto simp: peer_preempts_def Let_def)
qed

lemma fair_steal_ok:
  assumes inv: "fair_inv s c" and wf: "\<forall>x. task_wf (s x)"
  shows "\<exists>s' c' r. fair_steal want s c cu = Some (s', c', r) \<and> fair_inv s' c' \<and> next_enqueue_id c' \<le> next_enqueue_id c \<and>
    (case r of
       None \<Rightarrow> s' = s \<and> c' = c \<and> (\<forall>t \<in> fair_waiting c. \<not> want (s t))
     | Some t \<Rightarrow> want (s t) \<and> t \<in> fair_waiting c \<and> fair_waiting c' = fair_waiting c - {t} \<and> idle_links (s' t) \<and> touches t s s')"
proof (cases "find (\<lambda>t. want (s t)) (f_ready c)")
  case None
  then have "\<forall>t \<in> fair_waiting c. \<not> want (s t)" by (simp add: find_None_iff fair_waiting_def)
  then show ?thesis using inv None by (simp add: fair_steal_def)
next
  case (Some t)
  then have t: "t \<in> fair_waiting c" "want (s t)" by (auto simp: find_Some_iff fair_waiting_def)
  have "fair_steal want s c cu = fair_dequeue s c t cu" using Some by (simp add: fair_steal_def fair_dequeue_def)
  moreover obtain s' c' where "fair_dequeue s c t cu = Some (s', c', Some t)" "fair_inv s' c'" "fair_waiting c' = fair_waiting c - {t}"
    "idle_links (s' t)" "touches t s s'" "next_enqueue_id c' \<le> next_enqueue_id c"
    using fair_dequeue_ok [OF inv t(1) wf, of cu] by blast
  ultimately show ?thesis using t by simp
qed

lemma fair_update_min_inv:
  assumes "fair_inv s c" "\<And>u. cu = Some u \<Longrightarrow> i64_range (vruntime (fair (s u)))"
  shows "fair_inv s (update_min_vruntime s cu c)"
  using assms update_min_core [of "\<lambda>x. fweight (s x)" s c cu s] by (simp add: fair_inv_def buddy_waits_def)

lemma fair_set_curr_ok:
  assumes inv: "fair_inv s c" and t: "idle_links (s t)" and wf: "\<forall>x. task_wf (s x)"
  shows "\<exists>s' c'. fair_set_curr s c t = (s', c') \<and> fair_inv s' c' \<and> fair_waiting c' = fair_waiting c \<and> idle_links (s' t) \<and> touches t s s'
    \<and> next_enqueue_id c' = next_enqueue_id c"
proof -
  have core: "fair_core (\<lambda>x. fweight (s x)) s c" using inv by (simp add: fair_inv_def)
  define s1 where "s1 = (if is_unplaced (s t) then place_new_entity s c t None else s)"
  obtain f where f: "place_new_entity s c t None = upd t f s" "retimes f (s t)" using retimes_place_new [OF core] by blast
  have 1: "touches t s s1" "idle_links (s1 t)" using retimes_touches [of f s t] f retimes_idle t by (auto simp: s1_def)
  have "t \<notin> fair_waiting c" using fair_ops.idle_not_waiting [OF inv t] .
  then have "fair_inv s1 c" using fair_frame [OF inv] touches_other [OF 1(1)] by metis
  then have "fair_inv s1 (update_min_vruntime s1 (Some t) c)"
    by (rule fair_update_min_inv) (use task_wf_vruntime touches_wf [OF 1(1)] wf in blast)
  then show ?thesis using 1 by (simp add: fair_set_curr_def s1_def [symmetric] fair_waiting_def Let_def)
qed

lemma update_entity_lag_touch: "touches t s (update_entity_lag s c t)" "idle_links (update_entity_lag s c t t) = idle_links (s t)"
  unfolding update_entity_lag_def Let_def upd_same
  by (rule retimes_touches, rule retimes_vlag) (rule retimes_idle, rule retimes_vlag)

lemma fair_switched_from_ok:
  assumes inv: "fair_inv s c" and t: "idle_links (s t)" and wf: "\<forall>x. task_wf (s x)"
  shows "\<exists>s' c'. fair_switched_from s c t is_curr = (s', c') \<and> fair_inv s' c' \<and> fair_waiting c' = fair_waiting c \<and> idle_links (s' t)
    \<and> touches t s s' \<and> next_enqueue_id c' = next_enqueue_id c"
proof -
  let ?s = "update_entity_lag s c t"
  have "t \<notin> fair_waiting c" using fair_ops.idle_not_waiting [OF inv t] .
  then have "fair_inv ?s c" using fair_frame [OF inv] touches_other [OF update_entity_lag_touch(1)] by metis
  then have "fair_inv ?s (update_min_vruntime ?s None c)" by (rule fair_update_min_inv) simp
  then show ?thesis using inv t update_entity_lag_touch by (simp add: fair_switched_from_def Let_def fair_waiting_def)
qed

lemma retimes_rescale: "retimes (rescale_vlag w) x" "retimes (rescale_deadline w) x"
proof -
  show v: "retimes (rescale_vlag w) x" for x by (simp add: rescale_vlag_def Let_def retimes_def unlinked_def)
  have "rescale_deadline w = (\<lambda>y. on_fair (\<lambda>e. e\<lparr>deadline :=
      request_deadline (vruntime e) (max (slice_left_ns (fair (rescale_vlag w y))) 1) (int (weight e))\<rparr>) (rescale_vlag w y))"
    by (simp add: rescale_deadline_def Let_def fun_eq_iff)
  then show "retimes (rescale_deadline w) x"
    using v [of x] by (simp add: retimes_def unlinked_def)
qed

text \<open>A new weight: the queued task is taken out with its old weight and linked again with the new one.\<close>

lemma fair_reweigh:
  assumes inv: "fair_inv s c" and t: "t \<in> fair_waiting c" and s0: "s0 = upd t (task_set_attr a) s" and wf: "\<forall>x. task_wf (s x)"
    and room: "fair_room s c t"
  shows "\<exists>s' c'. fair_attr_changed s0 c t (attr (s t)) False = Some (s', c') \<and> fair_inv s' c' \<and> fair_waiting c' = fair_waiting c
    \<and> touches t s0 s' \<and> next_enqueue_id c' \<le> next_enqueue_id c + 2"
proof -
  let ?w = "\<lambda>x. fweight (s x)" let ?ow = "int (nice_weight (nice (attr (s t))))"
  have core: "fair_core ?w s c" and buddy: "buddy_waits c" using inv by (simp_all add: fair_inv_def)
  have keys: "deadline_key s0 = deadline_key s" "vruntime_key s0 = vruntime_key s" "(\<lambda>x. vruntime (fair (s0 x)) * ?w x) = (\<lambda>x. vruntime (fair (s x)) * ?w x)"
    "fair_tied s0 c = fair_tied s c"
    by (auto simp: s0 deadline_key_def vruntime_key_def upd_def fun_eq_iff fair_tied_def)
  have core0: "fair_core ?w s0 c" using core unfolding fair_core_def keys .
  have tr: "t \<in> set (f_ready c)" using t by (simp add: fair_waiting_def)
  have ow: "?ow = ?w t" using wf by (simp add: task_wf_def fweight_def)
  obtain s1 c1 where 1: "dequeue_entity_with_weight s0 c (deadline_key s0 t) (Some ?ow) = Some (s1, c1, Some t)" "fair_core ?w s1 c1"
    "set (f_ready c1) = set (f_ready c) - {t}" "next_buddy c1 = next_buddy c" "next_enqueue_id c1 = next_enqueue_id c"
    "touches t s0 s1" "idle_links (s1 t)" "vruntime (fair (s1 t)) = vruntime (fair (s0 t))" "fair_untie (s0 t) = s1 t"
    by (rule dequeue_entity_ok [OF core0 tr, of "Some ?ow"]) (use ow in auto)
  define s2 where "s2 = upd t (rescale_deadline ?ow) s1"
  have 2: "touches t s0 s2" unfolding s2_def by (rule touches_trans [OF 1(6) retimes_touches], rule retimes_rescale)
  have "fair_core (\<lambda>x. fweight (s2 x)) s2 c1"
    by (rule fair_core_frame [OF 1(2)]) (use 1(3) touches_other [OF 1(6)] in \<open>auto simp: s2_def s0 upd_def fweight_def\<close>)
  moreover have "unlinked (s2 t)" using 1(7) retimes_rescale(2) by (simp add: s2_def retimes_def idle_links_def)
  moreover have "i64_range (vruntime (fair (s2 t)))"
    using 1(8) retimes_rescale(2) [of ?ow "s1 t"] task_wf_vruntime wf by (simp add: s2_def retimes_def s0)
  moreover have "next_enqueue_id c1 + 1 < 2 ^ 64" using room by (simp add: 1(5) fair_room_def)
  ultimately obtain s' c' where 3: "enqueue_tree s2 c1 t None = Some (s', c')" "fair_core (\<lambda>x. fweight (s' x)) s' c'"
    "set (f_ready c') = insert t (set (f_ready c1))" "next_buddy c' = next_buddy c1" "next_enqueue_id c' = next_enqueue_id c1 + 1"
    "touches t s2 s'"
    by (rule enqueue_tree_ok) auto
  have set: "set (f_ready c') = set (f_ready c)" using 3(3) 1(3) tr by auto
  have "seat (s0 t) = QFair" using fair_coreD(4) [OF core tr] by (simp add: s0 fair_tied_def)
  then have "fair_attr_changed s0 c t (attr (s t)) False = Some (s', c')"
    using 1(1) 3(1) by (simp add: fair_attr_changed_def Let_def s2_def)
  then show ?thesis
    using 3 1(4,5) buddy set touches_trans [OF 2 3(6)] by (simp add: fair_inv_def fair_waiting_def buddy_waits_def)
qed

lemma fair_attr_changed_ok:
  assumes inv: "fair_inv s c" and place: "idle_links (s t) \<or> t \<in> fair_waiting c" and cur: "is_curr \<Longrightarrow> idle_links (s t)"
    and s0: "s0 = upd t (task_set_attr a) s" and wf: "\<forall>x. task_wf (s x)" and room: "fair_room s c t"
  shows "\<exists>s' c'. fair_attr_changed s0 c t (attr (s t)) is_curr = Some (s', c') \<and> fair_inv s' c' \<and> fair_waiting c' = fair_waiting c
    \<and> touches t s0 s' \<and> (idle_links (s t) \<longrightarrow> idle_links (s' t)) \<and> next_enqueue_id c' \<le> next_enqueue_id c + 2"
proof (cases "idle_links (s t)")
  case False
  then have "\<not> is_curr" "t \<in> fair_waiting c" using cur place by blast+
  then show ?thesis using fair_reweigh [OF inv _ s0 wf room] False by auto
next
  case True
  let ?ow = "int (nice_weight (nice (attr (s t))))"
  have out: "t \<notin> fair_waiting c" using fair_ops.idle_not_waiting [OF inv True] .
  have seat: "seat (s0 t) \<noteq> QFair" using True by (simp add: s0 idle_links_def)
  have step: "fair_inv (upd t f s0) c \<and> touches t s0 (upd t f s0) \<and> idle_links (upd t f s0 t)" if f: "\<And>x. retimes f x" for f
  proof -
    have "fair_inv (upd t f s0) c" by (rule fair_frame [OF inv]) (use out in \<open>auto simp: s0 upd_def\<close>)
    moreover have "touches t s0 (upd t f s0)" using f by (rule retimes_touches)
    ultimately show ?thesis using True retimes_idle [OF f] by (simp add: s0)
  qed
  show ?thesis
    using step [OF retimes_rescale(1)] step [OF retimes_rescale(2)] seat by (simp add: fair_attr_changed_def Let_def)
qed

end
