(* ===== verification/SchedInv.thy ===== *)
theory SchedInv
  imports SchedRtInv SchedDlInv SchedFairInv
begin

text \<open>
  The run queue as a whole: every class keeps its invariant, a task waits in the class its class byte
  names, the runner and the idle task are linked nowhere. Every public operation of
  \<open>src/task/ksched/src/scheduler.rs\<close> is total on such a run queue and keeps it, and the tasks on the run
  queue are those that entered and have not left.
\<close>

section \<open>The invariant\<close>

definition waiting_in :: "scheduler \<Rightarrow> sched_class \<Rightarrow> task_ref set" where
  "waiting_in q c = (case c of CStop \<Rightarrow> set_option (stop_c q) | CDeadline \<Rightarrow> dl_waiting (deadline_c q) | CRt \<Rightarrow> rt_waiting (rt_c q)
     | CFair \<Rightarrow> fair_waiting (fair_c q) | CIdle \<Rightarrow> {})"

definition class_inv :: "store \<Rightarrow> scheduler \<Rightarrow> sched_class \<Rightarrow> bool" where
  "class_inv s q c = (case c of CStop \<Rightarrow> stop_inv s (stop_c q) | CDeadline \<Rightarrow> dl_inv s (deadline_c q) | CRt \<Rightarrow> rt_inv s (rt_c q)
     | CFair \<Rightarrow> fair_inv s (fair_c q) | CIdle \<Rightarrow> True)"

definition sched_core :: "store \<Rightarrow> scheduler \<Rightarrow> bool" where
  "sched_core s q \<longleftrightarrow> (\<forall>c. class_inv s q c) \<and> (\<forall>c. \<forall>t \<in> waiting_in q c. sched_class_of (s t) = c) \<and> (\<forall>x. task_wf (s x))
     \<and> sched_class_of (s (idle_c q)) = CIdle \<and> idle_links (s (idle_c q))"

definition runner_ok :: "store \<Rightarrow> scheduler \<Rightarrow> bool" where
  "runner_ok s q \<longleftrightarrow> (\<forall>t. cur q = Some t \<longrightarrow> idle_links (s t) \<and> (sched_class_of (s t) = CStop \<longrightarrow> stop_c q = None)
     \<and> (sched_class_of (s t) = CIdle \<longrightarrow> t = idle_c q))"

definition sched_inv :: "store \<Rightarrow> scheduler \<Rightarrow> bool" where
  "sched_inv s q \<longleftrightarrow> sched_core s q \<and> runner_ok s q"

definition sched_waiting :: "scheduler \<Rightarrow> task_ref set" where
  "sched_waiting q = (\<Union>c. waiting_in q c)"

text \<open>Tree identifiers drawn or reserved.\<close>

definition sched_used :: "scheduler \<Rightarrow> nat" where
  "sched_used q = dl_used (deadline_c q) + next_enqueue_id (fair_c q)"

lemma waiting_in_simps [simp]:
  "waiting_in q CStop = set_option (stop_c q)" "waiting_in q CDeadline = dl_waiting (deadline_c q)"
  "waiting_in q CRt = rt_waiting (rt_c q)" "waiting_in q CFair = fair_waiting (fair_c q)" "waiting_in q CIdle = {}"
  by (simp_all add: waiting_in_def)

lemma class_inv_simps [simp]:
  "class_inv s q CStop = stop_inv s (stop_c q)" "class_inv s q CDeadline = dl_inv s (deadline_c q)"
  "class_inv s q CRt = rt_inv s (rt_c q)" "class_inv s q CFair = fair_inv s (fair_c q)" "class_inv s q CIdle"
  by (simp_all add: class_inv_def)

lemma sched_coreD:
  assumes "sched_core s q"
  shows "class_inv s q c" "t \<in> waiting_in q c \<Longrightarrow> sched_class_of (s t) = c" "task_wf (s x)"
    "sched_class_of (s (idle_c q)) = CIdle" "idle_links (s (idle_c q))"
  using assms by (simp_all add: sched_core_def)

lemma core_parts:
  assumes "sched_core s q"
  shows "stop_inv s (stop_c q)" "dl_inv s (deadline_c q)" "rt_inv s (rt_c q)" "fair_inv s (fair_c q)" "\<forall>x. task_wf (s x)"
  using sched_coreD(1) [OF assms, of CStop] sched_coreD(1) [OF assms, of CDeadline] sched_coreD(1) [OF assms, of CRt]
    sched_coreD(1) [OF assms, of CFair] sched_coreD(3) [OF assms] by simp_all

lemma class_frame: "\<lbrakk>class_inv s q c; \<forall>x \<in> waiting_in q c. s' x = s x\<rbrakk> \<Longrightarrow> class_inv s' q c"
  by (cases c) (auto intro: stop_ops.frame dl_frame rt_frame fair_frame)

lemma core_waits: "\<lbrakk>sched_core s q; t \<in> waiting_in q c\<rbrakk> \<Longrightarrow> seat (s t) \<noteq> QDetached"
  using sched_coreD(1) [of s q c] by (cases c) (auto dest: stop_ops.waits dl_ops.waits rt_ops.waits fair_ops.waits)

lemma core_idle_out: "\<lbrakk>sched_core s q; idle_links (s t)\<rbrakk> \<Longrightarrow> t \<notin> waiting_in q c"
  using core_waits by (auto simp: idle_links_def)

text \<open>The parts of the run queue other than class \<open>c\<close>.\<close>

definition same_but :: "sched_class \<Rightarrow> scheduler \<Rightarrow> scheduler \<Rightarrow> bool" where
  "same_but c q q' \<longleftrightarrow> clock q' = clock q \<and> cur q' = cur q \<and> idle_c q' = idle_c q \<and> (c \<noteq> CStop \<longrightarrow> stop_c q' = stop_c q)
     \<and> (c \<noteq> CDeadline \<longrightarrow> deadline_c q' = deadline_c q) \<and> (c \<noteq> CRt \<longrightarrow> rt_c q' = rt_c q) \<and> (c \<noteq> CFair \<longrightarrow> fair_c q' = fair_c q)"

lemma same_but_refl [simp]: "same_but c q q"
  by (simp add: same_but_def)

lemma same_but_simps [simp]:
  "same_but CStop q (q\<lparr>stop_c := a\<rparr>)" "same_but CDeadline q (q\<lparr>deadline_c := b\<rparr>)" "same_but CRt q (q\<lparr>rt_c := d\<rparr>)"
  "same_but CFair q (q\<lparr>fair_c := e\<rparr>)"
  by (simp_all add: same_but_def)

lemma same_but_other: "\<lbrakk>same_but c q q'; d \<noteq> c\<rbrakk> \<Longrightarrow> waiting_in q' d = waiting_in q d \<and> class_inv s q' d = class_inv s q d"
  by (cases d; cases c) (simp_all add: same_but_def)

text \<open>A step of class \<open>c\<close> on the task \<open>t\<close>, which is of that class and waits in no other.\<close>

lemma core_change:
  assumes core: "sched_core s q" and q': "same_but c q q'" and off: "\<And>x. x \<noteq> t \<Longrightarrow> s' x = s x"
    and s': "sched_class_of (s' t) = sched_class_of (s t)" "task_wf (s' t)" and inv: "class_inv s' q' c"
    and t: "sched_class_of (s t) = c" and w: "waiting_in q' c \<subseteq> insert t (waiting_in q c)"
    and idle: "t = idle_c q \<Longrightarrow> idle_links (s' t)"
  shows "sched_core s' q'"
proof -
  note D = sched_coreD [OF core]
  have cls: "sched_class_of (s' x) = sched_class_of (s x)" for x using off s'(1) by (cases "x = t") auto
  have wf: "task_wf (s' x)" for x using off s'(2) D(3) [of x] by (cases "x = t") auto
  have "class_inv s' q' d" for d
  proof (cases "d = c")
    case False
    have "t \<notin> waiting_in q d" using D(2) [of t d] t False by blast
    then have "class_inv s' q d" using class_frame [OF D(1)] off by metis
    then show ?thesis using same_but_other [OF q' False] by blast
  qed (use inv in simp)
  moreover have "sched_class_of (s' x) = d" if "x \<in> waiting_in q' d" for x d
    using that w D(2) t same_but_other [OF q'] unfolding cls by (cases "d = c") auto
  moreover have "idle_c q' = idle_c q" using q' by (simp add: same_but_def)
  moreover have "idle_links (s' (idle_c q))" using idle D(5) off [of "idle_c q"] by (cases "idle_c q = t") auto
  ultimately show ?thesis unfolding sched_core_def using cls D(4) wf by auto
qed

lemma core_step:
  assumes core: "sched_core s q" and q': "same_but c q q'" and s': "touches t s s'" and inv: "class_inv s' q' c"
    and t: "sched_class_of (s t) = c" and w: "waiting_in q' c \<subseteq> insert t (waiting_in q c)"
    and idle: "t = idle_c q \<Longrightarrow> idle_links (s' t)"
  shows "sched_core s' q'"
  by (rule core_change [OF core q' touches_other [OF s'] touches_class [OF s'] touches_wf [OF s' sched_coreD(3) [OF core]] inv t w])
    (use idle in simp_all)

text \<open>A task that is linked nowhere may change arbitrarily as long as it stays well formed.\<close>

lemma core_retask:
  assumes core: "sched_core s q" and t: "idle_links (s t)" "t \<noteq> idle_c q" and off: "\<forall>x. x \<noteq> t \<longrightarrow> s' x = s x" and wf: "task_wf (s' t)"
  shows "sched_core s' q"
proof -
  note D = sched_coreD [OF core]
  have out: "t \<notin> waiting_in q c" for c using core_idle_out [OF core t(1)] .
  have same: "\<forall>x \<in> waiting_in q c. s' x = s x" for c using off out by metis
  have "class_inv s' q c" for c using class_frame [OF D(1) same] .
  moreover have "task_wf (s' x)" for x using off wf D(3) [of x] by (cases "x = t") auto
  ultimately show ?thesis unfolding sched_core_def using D(2,4,5) same off t(2) by auto
qed

lemma core_touch:
  assumes core: "sched_core s q" and t: "idle_links (s t)" and s': "touches t s s'" "idle_links (s' t)"
  shows "sched_core s' q"
proof (rule core_step [OF core same_but_refl s'(1) _ refl])
  have "t \<notin> waiting_in q c" for c using core_idle_out [OF core t] .
  then show "class_inv s' q (sched_class_of (s t))" using class_frame [OF sched_coreD(1) [OF core]] touches_other [OF s'(1)] by metis
qed (use s' in auto)

lemma set_option_inj: "set_option a = set_option b \<longleftrightarrow> a = b"
  by (cases a; cases b) auto

section \<open>The class dispatchers\<close>

lemma class_enqueue_ok:
  assumes core: "sched_core s q" and t: "idle_links (s t)" "sched_class_of (s t) = c" "c \<noteq> CIdle"
    and stop: "c = CStop \<Longrightarrow> cu = None \<and> stop_c q = None" and room: "sched_used q + 2 < 2 ^ 64"
  shows "\<exists>s' q'. class_enqueue s q c t kind cu = Some (s', q') \<and> sched_core s' q' \<and> same_but c q q'
    \<and> waiting_in q' c = insert t (waiting_in q c) \<and> touches t s s' \<and> sched_used q' \<le> sched_used q + 2"
proof -
  note P = core_parts [OF core]
  have ni: "t \<noteq> idle_c q" using sched_coreD(4) [OF core] t by auto
  have wf: "task_wf (s t)" using sched_coreD(3) [OF core] .
  have "\<exists>s' q'. class_enqueue s q c t kind cu = Some (s', q') \<and> same_but c q q' \<and> class_inv s' q' c
      \<and> waiting_in q' c = insert t (waiting_in q c) \<and> touches t s s' \<and> sched_used q' \<le> sched_used q + 2"
  proof (cases c)
    case CStop
    then show ?thesis using stop_ops.enq_ok [OF P(1) t(1) P(5)] stop
      by (auto simp: class_enqueue_def stop_enqueue_def sched_used_def)
  next
    case CDeadline
    have "dl_room s (deadline_c q) t" using wf t(2) room CDeadline by (auto simp: dl_room_def sched_used_def task_wf_def params_def is_kernel_only_def)
    from dl_ops.enq_ok [OF P(2) t(1) P(5) this, of kind "now_ns (clock q)"] show ?thesis
      using CDeadline by (auto simp: class_enqueue_def sched_used_def)
  next
    case CRt
    have "rt_room s (rt_c q) t" using wf t(2) CRt by (auto simp: rt_room_def task_wf_def is_kernel_only_def)
    from rt_ops.enq_ok [OF P(3) t(1) P(5) this, of kind] show ?thesis
      using CRt by (auto simp: class_enqueue_def sched_used_def)
  next
    case CFair
    have "fair_room s (fair_c q) t" using room by (simp add: fair_room_def sched_used_def)
    from fair_ops.enq_ok [OF P(4) t(1) P(5) this, of kind cu] show ?thesis
      using CFair by (auto simp: class_enqueue_def sched_used_def)
  qed (use t in simp)
  then obtain s' q' where "class_enqueue s q c t kind cu = Some (s', q')" "same_but c q q'" "class_inv s' q' c"
      "waiting_in q' c = insert t (waiting_in q c)" "touches t s s'" "sched_used q' \<le> sched_used q + 2" by blast
  moreover from this have "sched_core s' q'" using core_step [OF core] t ni by blast
  ultimately show ?thesis by blast
qed

lemma class_dequeue_ok:
  assumes core: "sched_core s q" and t: "t \<in> waiting_in q c"
  shows "\<exists>s' q'. class_dequeue s q c t cu = Some (s', q', Some t) \<and> sched_core s' q' \<and> same_but c q q'
    \<and> waiting_in q' c = waiting_in q c - {t} \<and> idle_links (s' t) \<and> touches t s s' \<and> sched_used q' \<le> sched_used q"
proof -
  note P = core_parts [OF core]
  have cls: "sched_class_of (s t) = c" using sched_coreD(2) [OF core t] .
  have "\<exists>s' q'. class_dequeue s q c t cu = Some (s', q', Some t) \<and> same_but c q q' \<and> class_inv s' q' c
      \<and> waiting_in q' c = waiting_in q c - {t} \<and> idle_links (s' t) \<and> touches t s s' \<and> sched_used q' \<le> sched_used q"
  proof (cases c)
    case CStop
    with t stop_ops.deq_ok [OF P(1) _ P(5), of t] show ?thesis by (auto simp: class_dequeue_def sched_used_def)
  next
    case CDeadline
    with t dl_ops.deq_ok [OF P(2) _ P(5), of t] show ?thesis by (auto simp: class_dequeue_def sched_used_def)
  next
    case CRt
    with t rt_ops.deq_ok [OF P(3) _ P(5), of t] show ?thesis by (auto simp: class_dequeue_def sched_used_def)
  next
    case CFair
    with t fair_ops.deq_ok [OF P(4) _ P(5), of t cu] show ?thesis by (auto simp: class_dequeue_def sched_used_def)
  qed (use t in simp)
  then obtain s' q' where 1: "class_dequeue s q c t cu = Some (s', q', Some t)" "same_but c q q'" "class_inv s' q' c"
      "waiting_in q' c = waiting_in q c - {t}" "idle_links (s' t)" "touches t s s'" "sched_used q' \<le> sched_used q" by blast
  moreover have "sched_core s' q'" by (rule core_step [OF core 1(2,6,3) cls]) (use 1(4,5) in auto)
  ultimately show ?thesis by blast
qed

text \<open>What a class hands over, or that it has nothing to run.\<close>

definition picked :: "store \<Rightarrow> scheduler \<Rightarrow> sched_class \<Rightarrow> store \<Rightarrow> scheduler \<Rightarrow> task_ref option \<Rightarrow> bool" where
  "picked s q c s' q' r \<longleftrightarrow> (case r of
       None \<Rightarrow> \<not> class_has_runnable q c \<and> s' = s \<and> waiting_in q' c = waiting_in q c
     | Some t \<Rightarrow> class_has_runnable q c \<and> (t \<in> waiting_in q c \<or> c = CIdle \<and> t = idle_c q) \<and> waiting_in q' c = waiting_in q c - {t}
         \<and> idle_links (s' t) \<and> touches t s s')"

lemma class_pick_inv:
  assumes core: "sched_core s q"
  shows "\<exists>s' q' r. class_pick_next s q c = Some (s', q', r) \<and> same_but c q q' \<and> class_inv s' q' c \<and> sched_used q' \<le> sched_used q \<and> picked s q c s' q' r"
proof -
  note P = core_parts [OF core]
  show ?thesis
  proof (cases c)
    case CStop
    then show ?thesis using P(1)
      by (cases "stop_c q") (simp_all add: class_pick_next_def stop_pick_next_def class_has_runnable_def picked_def stop_has_runnable_def
        sched_used_def stop_inv_def idle_links_def)
  next
    case CDeadline
    obtain s' k r where "dl_pick_next s (deadline_c q) = (s', k, r)" by (metis prod_cases3)
    with CDeadline dl_ops.pick_ok [OF P(2)] show ?thesis
      by (intro exI [of _ s'] exI [of _ "q\<lparr>deadline_c := k\<rparr>"] exI [of _ r]) (auto simp: class_pick_next_def class_has_runnable_def picked_def sched_used_def split: option.splits)
  next
    case CRt
    obtain s' k r where "rt_pick_next s (rt_c q) = Some (s', k, r)" "rt_inv s' k" "case r of
         None \<Rightarrow> \<not> rt_has_runnable (rt_c q) \<and> s' = s \<and> rt_waiting k = rt_waiting (rt_c q)
       | Some t \<Rightarrow> rt_has_runnable (rt_c q) \<and> t \<in> rt_waiting (rt_c q) \<and> rt_waiting k = rt_waiting (rt_c q) - {t} \<and> idle_links (s' t) \<and> touches t s s'"
      using rt_pick_next_ok [OF P(3)] by blast
    with CRt show ?thesis
      by (intro exI [of _ s'] exI [of _ "q\<lparr>rt_c := k\<rparr>"] exI [of _ r]) (auto simp: class_pick_next_def class_has_runnable_def picked_def sched_used_def split: option.splits)
  next
    case CFair
    obtain s' k r where "fair_pick_next s (fair_c q) = Some (s', k, r)" "fair_inv s' k" "next_enqueue_id k \<le> next_enqueue_id (fair_c q)" "case r of
         None \<Rightarrow> \<not> fair_has_runnable (fair_c q) \<and> s' = s \<and> fair_waiting k = fair_waiting (fair_c q)
       | Some t \<Rightarrow> fair_has_runnable (fair_c q) \<and> t \<in> fair_waiting (fair_c q) \<and> fair_waiting k = fair_waiting (fair_c q) - {t} \<and> idle_links (s' t) \<and> touches t s s'"
      using fair_pick_next_ok [OF P(4)] by blast
    with CFair show ?thesis
      by (intro exI [of _ s'] exI [of _ "q\<lparr>fair_c := k\<rparr>"] exI [of _ r]) (auto simp: class_pick_next_def class_has_runnable_def picked_def sched_used_def split: option.splits)
  next
    case CIdle
    then show ?thesis using sched_coreD(5) [OF core] by (simp add: class_pick_next_def class_has_runnable_def picked_def)
  qed
qed

lemma class_pick_next_ok:
  assumes core: "sched_core s q"
  shows "\<exists>s' q' r. class_pick_next s q c = Some (s', q', r) \<and> sched_core s' q' \<and> same_but c q q' \<and> sched_used q' \<le> sched_used q \<and> picked s q c s' q' r"
proof -
  obtain s' q' r where 1: "class_pick_next s q c = Some (s', q', r)" "same_but c q q'" "class_inv s' q' c" "sched_used q' \<le> sched_used q" "picked s q c s' q' r"
    using class_pick_inv [OF core] by blast
  have "sched_core s' q'"
  proof (cases r)
    case None
    then have e: "s' = s" and w: "waiting_in q' c = waiting_in q c" and b: "same_but c q q'" and i: "class_inv s' q' c" using 1 by (auto simp: picked_def)
    have "class_inv s q' d" for d
      using i e same_but_other [OF b] sched_coreD(1) [OF core] by (cases "d = c") blast+
    moreover have "waiting_in q' d = waiting_in q d" for d using w same_but_other [OF b] by (cases "d = c") blast+
    moreover have "idle_c q' = idle_c q" using b by (simp add: same_but_def)
    ultimately show ?thesis using core by (simp add: sched_core_def e)
  next
    case (Some t)
    have "sched_class_of (s t) = c" using 1(5) Some sched_coreD(2,4) [OF core] by (auto simp: picked_def)
    then show ?thesis by (rule core_step [OF core, of c q' t s', rotated 3]) (use 1 Some in \<open>auto simp: picked_def\<close>)
  qed
  then show ?thesis using 1 by blast
qed

lemma class_put_prev_ok:
  assumes core: "sched_core s q" and t: "idle_links (s t)" "sched_class_of (s t) = c" and stop: "c = CStop \<Longrightarrow> stop_c q = None"
    and room: "sched_used q + 2 < 2 ^ 64"
  shows "\<exists>s' q'. class_put_prev s q c t r = Some (s', q', stays r \<and> c \<noteq> CIdle) \<and> sched_core s' q' \<and> same_but c q q' \<and> touches t s s'
    \<and> sched_used q' \<le> sched_used q + 2
    \<and> (if stays r \<and> c \<noteq> CIdle then waiting_in q' c = insert t (waiting_in q c) else waiting_in q' c = waiting_in q c \<and> idle_links (s' t))"
proof -
  note P = core_parts [OF core]
  have wf: "task_wf (s t)" using sched_coreD(3) [OF core] .
  have "\<exists>s' q'. class_put_prev s q c t r = Some (s', q', stays r \<and> c \<noteq> CIdle) \<and> same_but c q q' \<and> class_inv s' q' c \<and> touches t s s'
    \<and> sched_used q' \<le> sched_used q + 2
    \<and> (if stays r \<and> c \<noteq> CIdle then waiting_in q' c = insert t (waiting_in q c) else waiting_in q' c = waiting_in q c \<and> idle_links (s' t))"
  proof (cases c)
    case CStop
    with stop_ops.put_ok [OF P(1) t(1) P(5), of r] stop show ?thesis by (cases "stays r") (auto simp: class_put_prev_def sched_used_def)
  next
    case CDeadline
    have "dl_room s (deadline_c q) t" using wf t(2) room CDeadline by (auto simp: dl_room_def sched_used_def task_wf_def params_def is_kernel_only_def)
    with CDeadline dl_put_prev_ok [OF P(2) t(1), of r] show ?thesis by (cases "stays r") (auto simp: class_put_prev_def sched_used_def)
  next
    case CRt
    have "rt_room s (rt_c q) t" using wf t(2) CRt by (auto simp: rt_room_def task_wf_def is_kernel_only_def)
    with CRt rt_put_prev_ok [OF P(3) t(1), of r] show ?thesis by (cases "stays r") (auto simp: class_put_prev_def sched_used_def)
  next
    case CFair
    have "fair_room s (fair_c q) t" using room by (simp add: fair_room_def sched_used_def)
    with CFair fair_put_prev_ok [OF P(4) t(1) P(5), of r] show ?thesis by (cases "stays r") (auto simp: class_put_prev_def sched_used_def)
  next
    case CIdle
    then show ?thesis using t by (auto simp: class_put_prev_def)
  qed
  then obtain s' q' where 1: "class_put_prev s q c t r = Some (s', q', stays r \<and> c \<noteq> CIdle)" "same_but c q q'" "class_inv s' q' c" "touches t s s'"
    "sched_used q' \<le> sched_used q + 2"
    "if stays r \<and> c \<noteq> CIdle then waiting_in q' c = insert t (waiting_in q c) else waiting_in q' c = waiting_in q c \<and> idle_links (s' t)" by blast
  moreover have "sched_core s' q'"
    by (rule core_step [OF core 1(2,4,3) t(2)]) (use 1(6) t(2) sched_coreD(4) [OF core] in \<open>auto split: if_splits\<close>)
  ultimately show ?thesis by blast
qed

lemma class_set_curr_ok:
  assumes core: "sched_core s q" and t: "idle_links (s t)" "sched_class_of (s t) = c" and stop: "c = CStop \<Longrightarrow> stop_c q = None"
  shows "\<exists>s' q'. class_set_curr s q c t = Some (s', q') \<and> sched_core s' q' \<and> same_but c q q' \<and> waiting_in q' c = waiting_in q c
    \<and> idle_links (s' t) \<and> touches t s s' \<and> sched_used q' = sched_used q"
proof -
  note P = core_parts [OF core]
  have out: "t \<notin> waiting_in q c" using core_idle_out [OF core t(1)] .
  have "\<exists>s' q'. class_set_curr s q c t = Some (s', q') \<and> same_but c q q' \<and> class_inv s' q' c \<and> waiting_in q' c = waiting_in q c
    \<and> idle_links (s' t) \<and> touches t s s' \<and> sched_used q' = sched_used q"
  proof (cases c)
    case CStop
    then show ?thesis using P(1) t stop by (simp add: class_set_curr_def stop_set_curr_def)
  next
    case CDeadline
    obtain x where x: "snd (dl_set_curr s (deadline_c q) t (now_ns (clock q))) = note_runner x (deadline_c q)" using dl_set_curr_class by blast
    let ?s = "fst (dl_set_curr s (deadline_c q) t (now_ns (clock q)))"
    have "dl_inv ?s (deadline_c q)" using dl_frame [OF P(2)] touches_other [OF dl_set_curr_touch(1)] out CDeadline by (metis waiting_in_simps(2))
    then show ?thesis using CDeadline x dl_set_curr_touch t(1)
      by (auto simp: class_set_curr_def case_prod_beta sched_used_def dl_used_def)
  next
    case CFair
    then show ?thesis using fair_set_curr_ok [OF P(4) t(1) P(5)] by (auto simp: class_set_curr_def sched_used_def)
  qed (use t P in \<open>auto simp: class_set_curr_def\<close>)
  then obtain s' q' where 1: "class_set_curr s q c t = Some (s', q')" "same_but c q q'" "class_inv s' q' c" "waiting_in q' c = waiting_in q c"
    "idle_links (s' t)" "touches t s s'" "sched_used q' = sched_used q" by blast
  moreover have "sched_core s' q'" by (rule core_step [OF core 1(2,6,3) t(2)]) (use 1(4,5) in auto)
  ultimately show ?thesis by blast
qed

lemma class_account_ok:
  assumes core: "sched_core s q" and t: "idle_links (s t)" "sched_class_of (s t) = c"
  shows "\<exists>s' q' e. class_account s q c t elapsed = Some (s', q', e) \<and> sched_core s' q' \<and> same_but c q q' \<and> waiting_in q' c = waiting_in q c
    \<and> idle_links (s' t) \<and> touches t s s' \<and> sched_used q' = sched_used q"
proof -
  note P = core_parts [OF core]
  have out: "t \<notin> waiting_in q d" for d using core_idle_out [OF core t(1)] .
  have frame: "class_inv s' q d" if "touches t s s'" for s' d
    using class_frame [OF sched_coreD(1) [OF core]] touches_other [OF that] out by metis
  have "\<exists>s' q' e. class_account s q c t elapsed = Some (s', q', e) \<and> same_but c q q' \<and> class_inv s' q' c \<and> waiting_in q' c = waiting_in q c
    \<and> idle_links (s' t) \<and> touches t s s' \<and> sched_used q' = sched_used q"
  proof (cases c)
    case CRt
    then show ?thesis using rt_account_ok [OF P(3), of t elapsed] t by (auto simp: class_account_def sched_used_def)
  next
    case CDeadline
    have 1: "touches t s (fst (dl_account s t elapsed))" "idle_links (fst (dl_account s t elapsed) t)" using dl_account_touch t by simp_all
    show ?thesis using 1 frame [OF 1(1), of CDeadline] CDeadline by (auto simp: class_account_def case_prod_beta)
  next
    case CFair
    have 1: "touches t s (fst (fair_account s (fair_c q) t elapsed))" "idle_links (fst (fair_account s (fair_c q) t elapsed) t)"
      using fair_account_touch [of s t] P(5) t by simp_all
    show ?thesis using 1 frame [OF 1(1), of CFair] CFair by (auto simp: class_account_def case_prod_beta)
  qed (use t P in \<open>auto simp: class_account_def\<close>)
  then obtain s' q' e where 1: "class_account s q c t elapsed = Some (s', q', e)" "same_but c q q'" "class_inv s' q' c" "waiting_in q' c = waiting_in q c"
    "idle_links (s' t)" "touches t s s'" "sched_used q' = sched_used q" by blast
  moreover have "sched_core s' q'" by (rule core_step [OF core 1(2,6,3) t(2)]) (use 1(4,5) in auto)
  ultimately show ?thesis by blast
qed

section \<open>Time and accounting\<close>

lemma same_but_waiting: "\<lbrakk>same_but c q q'; waiting_in q' c = waiting_in q c\<rbrakk> \<Longrightarrow> waiting_in q' d = waiting_in q d"
  using same_but_other by (cases "d = c") blast+

lemma dispatch_fields [simp]:
  "waiting_in (q\<lparr>clock := k\<rparr>) c = waiting_in q c" "waiting_in (q\<lparr>cur := x\<rparr>) c = waiting_in q c"
  "class_inv s (q\<lparr>clock := k\<rparr>) c = class_inv s q c" "class_inv s (q\<lparr>cur := x\<rparr>) c = class_inv s q c"
  by (cases c; simp)+

lemma core_fields [simp]:
  "sched_core s (q\<lparr>clock := k\<rparr>) = sched_core s q" "sched_core s (q\<lparr>cur := x\<rparr>) = sched_core s q"
  "sched_used (q\<lparr>clock := k\<rparr>) = sched_used q" "sched_used (q\<lparr>cur := x\<rparr>) = sched_used q"
  by (simp_all add: sched_core_def sched_used_def)

lemma advance_classes_ok:
  assumes core: "sched_core s q"
  shows "\<exists>s' q'. advance_classes s q = Some (s', q') \<and> sched_core s' q' \<and> (\<forall>c. waiting_in q' c = waiting_in q c)
    \<and> touches_in (set (dl_throttled (deadline_c q))) s s' \<and> clock q' = clock q \<and> cur q' = cur q \<and> idle_c q' = idle_c q \<and> stop_c q' = stop_c q
    \<and> fair_c q' = fair_c q \<and> rt_c q' = rt_advance (rt_c q) (now_ns (clock q)) \<and> sched_used q' = sched_used q
    \<and> dl_advance s (deadline_c q) (now_ns (clock q)) = Some (s', deadline_c q')"
proof -
  note P = core_parts [OF core]
  note D = sched_coreD [OF core]
  obtain s' d where d: "dl_advance s (deadline_c q) (now_ns (clock q)) = Some (s', d)" "dl_inv s' d" "dl_waiting d = dl_waiting (deadline_c q)"
    "touches_in (set (dl_throttled (deadline_c q))) s s'"
    "dl_next_enqueue_id d + length (dl_throttled d) = dl_next_enqueue_id (deadline_c q) + length (dl_throttled (deadline_c q))"
    using dl_advance_ok [OF P(2), of "now_ns (clock q)"] by metis
  define q' where "q' = q\<lparr>deadline_c := d, rt_c := rt_advance (rt_c q) (now_ns (clock q))\<rparr>"
  have w: "waiting_in q' c = waiting_in q c" for c by (cases c) (simp_all add: q'_def d(3))
  note T = touches_inD [OF d(4)]
  have "class_inv s' q c" if "c \<noteq> CDeadline" for c
  proof (rule class_frame [OF D(1)], rule ballI)
    fix x assume "x \<in> waiting_in q c"
    then have "x \<notin> waiting_in q CDeadline" using D(2) that by metis
    then show "s' x = s x" using T(1) by (simp add: dl_waiting_def)
  qed
  then have "class_inv s' q' c" for c using d(2) by (cases c) (force simp: q'_def class_inv_def)+
  moreover have "idle_c q \<notin> set (dl_throttled (deadline_c q))" using core_idle_out [OF core D(5), of CDeadline] by (simp add: dl_waiting_def)
  ultimately have "sched_core s' q'" unfolding sched_core_def w T(2) using D(2,3,4,5) T(1,4) by (auto simp: q'_def)
  then show ?thesis using d w by (intro exI [of _ s'] exI [of _ q']) (simp add: advance_classes_def q'_def sched_used_def dl_used_def)
qed

lemma account_runtime_simps [simp]:
  "class_byte (account_runtime n x) = class_byte x" "attr (account_runtime n x) = attr x" "idle_links (account_runtime n x) = idle_links x"
  "task_wf (account_runtime n x) = task_wf x"
  by (simp_all add: account_runtime_def idle_links_def unlinked_def task_wf_def sched_class_of_def)

lemma touches_runtime [simp]: "touches t s (upd t (account_runtime n) s)"
  by (rule touches_upd) simp_all

text \<open>
  What every operation starts with: the clock, the timers of the classes and the account of the runner.
  No task changes its place, and only tasks of this run queue are touched.
\<close>

definition charged :: "store \<Rightarrow> scheduler \<Rightarrow> store \<Rightarrow> scheduler \<Rightarrow> bool" where
  "charged s q s' q' \<longleftrightarrow> sched_inv s' q' \<and> (\<forall>c. waiting_in q' c = waiting_in q c) \<and> cur q' = cur q \<and> idle_c q' = idle_c q \<and> stop_c q' = stop_c q
     \<and> touches_in (sched_waiting q \<union> set_option (cur q)) s s' \<and> sched_used q' = sched_used q"

lemma charge_ok:
  assumes inv: "sched_inv s q"
  shows "\<exists>s' q' e. charge s q now = Some (s', q', e) \<and> charged s q s' q'"
proof -
  have core: "sched_core s q" and run: "runner_ok s q" using inv by (simp_all add: sched_inv_def)
  define k elapsed where "k = fst (clock_advance (clock q) now)" and "elapsed = snd (clock_advance (clock q) now)"
  have ke: "clock_advance (clock q) now = (k, elapsed)" by (simp add: k_def elapsed_def)
  have core0: "sched_core s (q\<lparr>clock := k\<rparr>)" using core by simp
  obtain s1 q1 where 1: "advance_classes s (q\<lparr>clock := k\<rparr>) = Some (s1, q1)" "sched_core s1 q1" "\<forall>c. waiting_in q1 c = waiting_in q c"
    "touches_in (set (dl_throttled (deadline_c q))) s s1" "cur q1 = cur q" "idle_c q1 = idle_c q" "stop_c q1 = stop_c q" "sched_used q1 = sched_used q"
    using advance_classes_ok [OF core0] by auto
  have sub: "set (dl_throttled (deadline_c q)) \<subseteq> sched_waiting q"
    by (auto simp: sched_waiting_def dl_waiting_def intro!: exI [of _ CDeadline])
  have tch1: "touches_in (sched_waiting q \<union> set_option (cur q)) s s1" by (rule touches_in_mono [OF 1(4)]) (use sub in blast)
  show ?thesis
  proof (cases "cur q")
    case None
    then have "charge s q now = Some (s1, q1, False)" using 1(1,5) by (simp add: charge_def ke)
    moreover have "charged s q s1 q1" using None 1 tch1 by (simp add: charged_def sched_inv_def runner_ok_def)
    ultimately show ?thesis by blast
  next
    case (Some t)
    have t: "idle_links (s t)" "sched_class_of (s t) = CStop \<longrightarrow> stop_c q = None" "sched_class_of (s t) = CIdle \<longrightarrow> t = idle_c q"
      using run Some by (simp_all add: runner_ok_def)
    have "t \<notin> set (dl_throttled (deadline_c q))" using core_idle_out [OF core t(1), of CDeadline] by (simp add: dl_waiting_def)
    then have st: "s1 t = s t" using touches_inD(1) [OF 1(4)] by blast
    define c where "c = sched_class_of (s1 t)"
    define s2 where "s2 = (if c \<noteq> CIdle \<and> elapsed \<noteq> 0 then upd t (account_runtime elapsed) s1 else s1)"
    have 2: "touches t s1 s2" "idle_links (s2 t)" using t st by (simp_all add: s2_def)
    have core2: "sched_core s2 q1" using core_touch [OF 1(2) _ 2] t st by simp
    obtain s3 q3 e where 3: "class_account s2 q1 c t elapsed = Some (s3, q3, e)" "sched_core s3 q3" "same_but c q1 q3"
        "waiting_in q3 c = waiting_in q1 c" "idle_links (s3 t)" "touches t s2 s3" "sched_used q3 = sched_used q1"
      using class_account_ok [OF core2 2(2)] touches_class [OF 2(1), of t] c_def by metis
    have "charge s q now = Some (s3, q3, e)"
      using 1(1,5) Some 3(1) by (simp add: charge_def ke Let_def c_def s2_def)
    moreover have "touches_in (sched_waiting q \<union> set_option (cur q)) s1 s3"
      using touches_in_one [OF touches_trans [OF 2(1) 3(6)]] Some by simp
    then have "touches_in (sched_waiting q \<union> set_option (cur q)) s s3" using touches_in_trans [OF tch1] by blast
    moreover have w: "waiting_in q3 d = waiting_in q1 d" for d using same_but_waiting [OF 3(3,4)] .
    have stop: "stop_c q3 = stop_c q" using w [of CStop] 1(7) by (simp add: set_option_inj)
    moreover have "runner_ok s3 q3"
      using 3(3,5) 1(5,6) stop Some t st touches_class [OF touches_trans [OF 2(1) 3(6)], of t] by (simp add: runner_ok_def same_but_def)
    ultimately show ?thesis
      using 1 3 w by (simp add: charged_def sched_inv_def same_but_def)
  qed
qed

lemma ex_bool [simp]: "\<exists>r. r" "\<exists>r. \<not> r"
  by blast+

lemma resched_total:
  assumes core: "sched_core s q"
  shows "\<exists>r. resched_needed s q kind e = Some r"
proof -
  have fair: "fair_core (\<lambda>x. fweight (s x)) s (fair_c q)" using core_parts(4) [OF core] by (simp add: fair_inv_def)
  have tick: "\<exists>r. class_tick_preempts s q c t = Some r" for c t
    using peer_preempts_total [OF fair, of t] by (cases c) (simp_all add: class_tick_preempts_def fair_tick_preempts_def)
  have wake: "\<exists>r. class_wakeup_preempts s q c t = Some r" for c t
    using peer_preempts_total [OF fair, of t] by (cases c) (simp_all add: class_wakeup_preempts_def fair_wakeup_preempts_def)
  show ?thesis
  proof (cases "cur q")
    case (Some t)
    then show ?thesis
      using tick [of "sched_class_of (s t)" t] wake [of "sched_class_of (s t)" t]
      by (cases "e \<or> higher_class_runnable q (sched_class_of (s t))"; cases kind) (simp_all add: resched_needed_def Let_def)
  qed (simp add: resched_needed_def)
qed

lemma curr_timer_total: "\<exists>v. class_curr_timer_ns s q c t = Some v"
  using rt_curr_timer_total [of s "rt_c q" t] by (cases c) (simp_all add: class_curr_timer_ns_def)

lemma next_event_total: "\<exists>n. compute_next_event s q = Some n"
proof (cases "cur q")
  case (Some t)
  obtain v where "class_curr_timer_ns s q (sched_class_of (s t)) t = Some v" using curr_timer_total by blast
  then show ?thesis using Some by (simp add: compute_next_event_def Let_def)
qed (simp add: compute_next_event_def Let_def)

section \<open>The tasks of a run queue\<close>

definition resident :: "scheduler \<Rightarrow> task_ref set" where
  "resident q = (sched_waiting q \<union> set_option (cur q)) - {idle_c q}"

text \<open>An operation kept the invariant, drew at most two identifiers and left the tasks \<open>R\<close> on the run queue.\<close>

definition ends_with :: "scheduler \<Rightarrow> task_ref set \<Rightarrow> store \<Rightarrow> scheduler \<Rightarrow> bool" where
  "ends_with q R s' q' \<longleftrightarrow> sched_inv s' q' \<and> idle_c q' = idle_c q \<and> sched_used q' \<le> sched_used q + 2 \<and> resident q' = R"

lemma charged_ends: "charged s q s' q' \<Longrightarrow> ends_with q (resident q) s' q'"
  by (simp add: charged_def ends_with_def resident_def sched_waiting_def)

lemma idle_not_in: "\<lbrakk>sched_inv s q; idle_links (s t)\<rbrakk> \<Longrightarrow> t \<notin> sched_waiting q"
  using core_idle_out [of s q t] by (auto simp: sched_inv_def sched_waiting_def)

lemma charged_same: "\<lbrakk>charged s q s' q'; t \<notin> sched_waiting q; cur q \<noteq> Some t\<rbrakk> \<Longrightarrow> s' t = s t"
  using touches_inD(1) [of "sched_waiting q \<union> set_option (cur q)" s s' t] by (auto simp: charged_def)

lemma charged_core: "charged s q s' q' \<Longrightarrow> sched_core s' q' \<and> runner_ok s' q' \<and> sched_waiting q' = sched_waiting q"
  by (simp add: charged_def sched_inv_def sched_waiting_def)

lemma sched_waiting_step:
  assumes "same_but c q q'"
  shows "waiting_in q' c = insert t (waiting_in q c) \<Longrightarrow> sched_waiting q' = insert t (sched_waiting q)"
    and "waiting_in q' c = waiting_in q c \<Longrightarrow> sched_waiting q' = sched_waiting q"
    and "\<lbrakk>waiting_in q' c = waiting_in q c - {t}; \<And>d. d \<noteq> c \<Longrightarrow> t \<notin> waiting_in q d\<rbrakk> \<Longrightarrow> sched_waiting q' = sched_waiting q - {t}"
proof -
  have split: "sched_waiting p = waiting_in p c \<union> (\<Union>d \<in> - {c}. waiting_in p d)" for p by (auto simp: sched_waiting_def)
  have o: "(\<Union>d \<in> - {c}. waiting_in q' d) = (\<Union>d \<in> - {c}. waiting_in q d)"
    using same_but_other [OF assms] by (intro SUP_cong) auto
  show "sched_waiting q' = insert t (sched_waiting q)" if "waiting_in q' c = insert t (waiting_in q c)"
    unfolding split o that by simp
  show "sched_waiting q' = sched_waiting q" if "waiting_in q' c = waiting_in q c" unfolding split o that ..
  show "sched_waiting q' = sched_waiting q - {t}" if "waiting_in q' c = waiting_in q c - {t}" "\<And>d. d \<noteq> c \<Longrightarrow> t \<notin> waiting_in q d"
    unfolding split o that(1) using that(2) by auto
qed

lemma waits_once: "\<lbrakk>sched_core s q; t \<in> waiting_in q c; d \<noteq> c\<rbrakk> \<Longrightarrow> t \<notin> waiting_in q d"
  using sched_coreD(2) by metis

section \<open>The public operations\<close>

lemma sched_update_ok:
  assumes "sched_inv s q"
  shows "\<exists>s' q' d. sched_update s q now kind = Some (s', q', d) \<and> ends_with q (resident q) s' q'"
proof -
  obtain s' q' e where 1: "charge s q now = Some (s', q', e)" "charged s q s' q'" using charge_ok [OF assms] by blast
  obtain r n where "resched_needed s' q' kind e = Some r" "compute_next_event s' q' = Some n"
    using resched_total charged_core [OF 1(2)] next_event_total by blast
  then show ?thesis using 1 charged_ends [OF 1(2)] by (simp add: sched_update_def)
qed

lemma sched_enqueue_ok:
  assumes inv: "sched_inv s q" and t: "idle_links (s t)" "cur q \<noteq> Some t" "sched_class_of (s t) \<noteq> CIdle"
    and stop: "sched_class_of (s t) = CStop \<Longrightarrow> stop_c q = None \<and> (\<forall>u. cur q = Some u \<longrightarrow> sched_class_of (s u) \<noteq> CStop)"
    and room: "sched_used q + 2 < 2 ^ 64"
  shows "\<exists>s' q' d. sched_enqueue s q t kind now = Some (s', q', d) \<and> ends_with q (insert t (resident q)) s' q'"
proof -
  obtain s1 q1 e where 1: "charge s q now = Some (s1, q1, e)" "charged s q s1 q1" using charge_ok [OF inv] by blast
  have st: "s1 t = s t" using charged_same [OF 1(2) idle_not_in [OF inv t(1)] t(2)] .
  have c1: "cur q1 = cur q" "stop_c q1 = stop_c q" "idle_c q1 = idle_c q" "sched_used q1 = sched_used q" "sched_waiting q1 = sched_waiting q"
    using 1(2) by (simp_all add: charged_def sched_waiting_def)
  have cls: "sched_class_of (s1 x) = sched_class_of (s x)" for x using 1(2) touches_inD(2) by (auto simp: charged_def)
  have core1: "sched_core s1 q1" "runner_ok s1 q1" using charged_core [OF 1(2)] by simp_all
  define c where "c = sched_class_of (s t)"
  have p: "idle_links (s1 t)" "sched_class_of (s1 t) = c" "c \<noteq> CIdle" "sched_used q1 + 2 < 2 ^ 64"
    using t st room c1(4) by (simp_all add: c_def)
  have cu: "c = CStop \<Longrightarrow> curr_for s1 (cur q1) c = None \<and> stop_c q1 = None" using stop c1 cls by (auto simp: c_def curr_for_def split: option.splits)
  obtain s2 q2 where 2: "class_enqueue s1 q1 c t kind (curr_for s1 (cur q1) c) = Some (s2, q2)" "sched_core s2 q2" "same_but c q1 q2"
    "waiting_in q2 c = insert t (waiting_in q1 c)" "touches t s1 s2" "sched_used q2 \<le> sched_used q1 + 2"
    using class_enqueue_ok [OF core1(1) p(1,2,3) cu p(4), of kind] by blast
  obtain r n where rn: "resched_needed s2 q2 UWakeProbe False = Some r" "compute_next_event s2 q2 = Some n"
    using resched_total [OF 2(2)] next_event_total by blast
  have c2: "cur q2 = cur q" "idle_c q2 = idle_c q" using 2(3) c1 by (simp_all add: same_but_def)
  have "runner_ok s2 q2"
    using core1(2) t(2) c1 c2 2(3) touches_other [OF 2(5)] stop cls unfolding runner_ok_def same_but_def c_def by (metis touches_class [OF 2(5)])
  moreover have "resident q2 = insert t (resident q)"
    using sched_waiting_step(1) [OF 2(3,4)] c1 c2 t(3) sched_coreD(4) [OF core1(1)] cls by (auto simp: resident_def)
  ultimately have "ends_with q (insert t (resident q)) s2 q2" using 2 c1 c2 by (simp add: ends_with_def sched_inv_def)
  then show ?thesis using 1(1) 2(1) rn cls by (simp add: sched_enqueue_def Let_def c_def)
qed

lemma charged_fields:
  assumes "charged s q s' q'"
  shows "cur q' = cur q" "stop_c q' = stop_c q" "idle_c q' = idle_c q" "sched_used q' = sched_used q" "sched_waiting q' = sched_waiting q"
    "waiting_in q' c = waiting_in q c" "sched_class_of (s' x) = sched_class_of (s x)" "attr (s' x) = attr (s x)" "sched_core s' q'" "runner_ok s' q'"
  using assms touches_inD(2,3) by (auto simp: charged_def sched_inv_def sched_waiting_def)

text \<open>A step that takes the waiter \<open>t\<close> of class \<open>c\<close> off the run queue.\<close>

lemma taken_ends:
  assumes core: "sched_core s q" and run: "runner_ok s q" and t: "t \<in> waiting_in q c"
    and s': "sched_core s' q'" "same_but c q q'" "waiting_in q' c = waiting_in q c - {t}" "touches t s s'" "sched_used q' \<le> sched_used q + 2"
  shows "ends_with q (resident q - {t}) s' q'"
proof -
  have nc: "cur q \<noteq> Some t" using run core_idle_out [OF core] t by (auto simp: runner_ok_def)
  have f: "cur q' = cur q" "idle_c q' = idle_c q" using s'(2) by (simp_all add: same_but_def)
  have stop: "stop_c q = None \<Longrightarrow> stop_c q' = None"
    using s'(2,3) by (cases "c = CStop") (auto simp: same_but_def)
  have "runner_ok s' q'"
    using run nc f stop touches_other [OF s'(4)] unfolding runner_ok_def by metis
  moreover have "sched_waiting q' = sched_waiting q - {t}" using sched_waiting_step(3) [OF s'(2,3)] waits_once [OF core t] by blast
  ultimately show ?thesis using s'(1,5) f nc by (auto simp: ends_with_def sched_inv_def resident_def)
qed

lemma ends_with_charged: "\<lbrakk>charged s q s1 q1; ends_with q1 R s' q'\<rbrakk> \<Longrightarrow> ends_with q R s' q'"
  by (simp add: ends_with_def charged_fields)

lemma resident_charged: "charged s q s1 q1 \<Longrightarrow> resident q1 = resident q"
  by (simp add: resident_def charged_fields)

lemma sched_dequeue_ok:
  assumes inv: "sched_inv s q" and t: "idle_links (s t) \<or> t \<in> sched_waiting q"
  shows "\<exists>s' q' r. sched_dequeue s q t now = Some (s', q', r) \<and> ends_with q (resident q - set_option r) s' q'
    \<and> r = (if t \<in> sched_waiting q then Some t else None)"
proof -
  obtain s1 q1 e where 1: "charge s q now = Some (s1, q1, e)" "charged s q s1 q1" using charge_ok [OF inv] by blast
  note C = charged_fields [OF 1(2)]
  show ?thesis
  proof (cases "t \<in> sched_waiting q")
    case True
    then obtain c where c: "t \<in> waiting_in q1 c" using C(6) by (auto simp: sched_waiting_def)
    have cls: "sched_class_of (s1 t) = c" using sched_coreD(2) [OF C(9) c] .
    obtain s2 q2 where 2: "class_dequeue s1 q1 c t (curr_for s1 (cur q1) c) = Some (s2, q2, Some t)" "sched_core s2 q2" "same_but c q1 q2"
      "waiting_in q2 c = waiting_in q1 c - {t}" "touches t s1 s2" "sched_used q2 \<le> sched_used q1"
      using class_dequeue_ok [OF C(9) c] by blast
    have "ends_with q1 (resident q1 - {t}) s2 q2" by (rule taken_ends [OF C(9,10) c 2(2-5)]) (use 2(6) in simp)
    then have "ends_with q (resident q - {t}) s2 q2" using ends_with_charged [OF 1(2)] resident_charged [OF 1(2)] by simp
    moreover have "sched_dequeue s q t now = Some (s2, q2, Some t)"
      using 1(1) 2(1) core_waits [OF C(9) c] cls by (simp add: sched_dequeue_def Let_def)
    ultimately show ?thesis using True by simp
  next
    case False
    then have idle: "idle_links (s t)" using t by blast
    have "idle_links (s1 t)"
    proof (cases "cur q = Some t")
      case True
      then show ?thesis using C(1,10) by (simp add: runner_ok_def)
    qed (use charged_same [OF 1(2) False] idle in simp)
    then have "sched_dequeue s q t now = Some (s1, q1, None)" using 1(1) by (simp add: sched_dequeue_def idle_links_def)
    then show ?thesis using False charged_ends [OF 1(2)] by simp
  qed
qed

lemma sched_steal_ok:
  assumes inv: "sched_inv s q"
  shows "\<exists>s' q' r. sched_steal want s q now = Some (s', q', r) \<and> ends_with q (resident q - set_option r) s' q'
    \<and> (\<forall>t. r = Some t \<longrightarrow> t \<in> waiting_in q CRt \<or> t \<in> waiting_in q CFair)"
proof -
  obtain s1 q1 e where 1: "charge s q now = Some (s1, q1, e)" "charged s q s1 q1" using charge_ok [OF inv] by blast
  note C = charged_fields [OF 1(2)] note P = core_parts [OF C(9)]
  have taken: "ends_with q (resident q - {t}) s' q'"
    if "t \<in> waiting_in q1 c" "same_but c q1 q'" "class_inv s' q' c" "waiting_in q' c = waiting_in q1 c - {t}" "touches t s1 s'" "idle_links (s' t)"
      "sched_used q' \<le> sched_used q1" for t c s' q'
  proof -
    have "sched_core s' q'" by (rule core_step [OF C(9) that(2,5,3) sched_coreD(2) [OF C(9) that(1)]]) (use that in auto)
    then have "ends_with q1 (resident q1 - {t}) s' q'" using taken_ends [OF C(9,10) that(1) _ that(2,4,5)] that(7) by simp
    then show ?thesis using ends_with_charged [OF 1(2)] resident_charged [OF 1(2)] by simp
  qed
  obtain s2 k r where 2: "rt_steal want s1 (rt_c q1) = Some (s2, k, r)" "rt_inv s2 k" "case r of
       None \<Rightarrow> s2 = s1 \<and> k = rt_c q1
     | Some t \<Rightarrow> t \<in> rt_waiting (rt_c q1) \<and> rt_waiting k = rt_waiting (rt_c q1) - {t} \<and> idle_links (s2 t) \<and> touches t s1 s2"
    using rt_steal_ok [OF P(3), of want] by (fastforce split: option.splits)
  show ?thesis
  proof (cases r)
    case (Some t)
    then have "ends_with q (resident q - {t}) s2 (q1\<lparr>rt_c := k\<rparr>)" using 2 by (intro taken [of t CRt]) (auto simp: sched_used_def)
    then show ?thesis using Some 1(1) 2 C(6) [of CRt] by (simp add: sched_steal_def Let_def)
  next
    case None
    then have e: "s2 = s1" "k = rt_c q1" using 2(3) by simp_all
    let ?cu = "curr_for s1 (cur q1) CFair"
    obtain s3 f r3 where 3: "fair_steal want s1 (fair_c q1) ?cu = Some (s3, f, r3)" "fair_inv s3 f" "next_enqueue_id f \<le> next_enqueue_id (fair_c q1)" "case r3 of
         None \<Rightarrow> s3 = s1 \<and> f = fair_c q1
       | Some t \<Rightarrow> t \<in> fair_waiting (fair_c q1) \<and> fair_waiting f = fair_waiting (fair_c q1) - {t} \<and> idle_links (s3 t) \<and> touches t s1 s3"
      using fair_steal_ok [OF P(4,5), of want ?cu] by (fastforce split: option.splits)
    have st: "sched_steal want s q now = Some (s3, q1\<lparr>fair_c := f\<rparr>, r3)"
      using 1(1) 2(1) None e 3(1) by (simp add: sched_steal_def Let_def)
    show ?thesis
    proof (cases r3)
      case None
      then show ?thesis using st 3(4) charged_ends [OF 1(2)] by simp
    next
      case (Some t)
      then have "ends_with q (resident q - {t}) s3 (q1\<lparr>fair_c := f\<rparr>)" using 3 by (intro taken [of t CFair]) (auto simp: sched_used_def)
      then show ?thesis using Some st 3(4) C(6) [of CFair] by simp
    qed
  qed
qed

text \<open>The rank loop stops at the first class that offers a task, and takes the task that class offers.\<close>

lemma runnable_other: "\<lbrakk>same_but c q q'; d \<noteq> c\<rbrakk> \<Longrightarrow> class_has_runnable q' d = class_has_runnable q d"
  by (cases d; cases c) (simp_all add: same_but_def class_has_runnable_def)

lemma pick_other:
  assumes "same_but c q q'" "d \<noteq> c" "class_pick_next s q' d = Some (s', q'', r)"
  shows "\<exists>p. class_pick_next s q d = Some (s', p, r)"
  using assms by (cases d; cases c) (auto simp: same_but_def class_pick_next_def bind_eq_Some_conv split: prod.splits)

definition picks_from :: "store \<Rightarrow> scheduler \<Rightarrow> sched_class list \<Rightarrow> store \<Rightarrow> sched_class \<Rightarrow> task_ref \<Rightarrow> bool" where
  "picks_from s q cs s' c t \<longleftrightarrow> (\<exists>ds es p. cs = ds @ c # es \<and> (\<forall>d \<in> set ds. \<not> class_has_runnable q d) \<and> class_has_runnable q c
     \<and> class_pick_next s q c = Some (s', p, Some t))"

lemma picks_fromI:
  "\<lbrakk>cs = ds @ c # es; \<forall>d \<in> set ds. \<not> class_has_runnable q d; class_has_runnable q c; class_pick_next s q c = Some (s', p, Some t)\<rbrakk>
     \<Longrightarrow> picks_from s q cs s' c t"
  unfolding picks_from_def by blast

lemma pick_by_rank_ok:
  assumes "sched_core s q" "distinct cs" "CIdle \<in> set cs"
  shows "\<exists>s' q' t c. pick_by_rank s q cs = Some (s', q', t) \<and> picks_from s q cs s' c t \<and> sched_core s' q' \<and> cur q' = Some t \<and> idle_links (s' t)
    \<and> sched_class_of (s' t) = c \<and> (t \<in> waiting_in q c \<or> c = CIdle \<and> t = idle_c q) \<and> sched_waiting q' = sched_waiting q - {t}
    \<and> (c = CStop \<longrightarrow> stop_c q' = None) \<and> idle_c q' = idle_c q \<and> sched_used q' \<le> sched_used q"
  using assms
proof (induction cs arbitrary: q)
  case (Cons a cs)
  obtain s1 q1 r where 1: "class_pick_next s q a = Some (s1, q1, r)" "sched_core s1 q1" "same_but a q q1" "sched_used q1 \<le> sched_used q"
    "picked s q a s1 q1 r"
    using class_pick_next_ok [OF Cons.prems(1), of a] by blast
  have f: "idle_c q1 = idle_c q" using 1(3) by (simp add: same_but_def)
  show ?case
  proof (cases r)
    case (Some t)
    have t: "class_has_runnable q a" "t \<in> waiting_in q a \<or> a = CIdle \<and> t = idle_c q" "waiting_in q1 a = waiting_in q a - {t}"
      "idle_links (s1 t)" "touches t s s1" using 1(5) Some by (simp_all add: picked_def)
    have cls: "sched_class_of (s t) = a" using t(2) sched_coreD(2,4) [OF Cons.prems(1)] by auto
    have "t \<notin> waiting_in q d" if "d \<noteq> a" for d using sched_coreD(2) [OF Cons.prems(1), of t d] cls that by blast
    then have w: "sched_waiting q1 = sched_waiting q - {t}" using sched_waiting_step(3) [OF 1(3) t(3)] by blast
    have pf: "picks_from s q (a # cs) s1 a t"
      by (rule picks_fromI [of _ "[]" _ cs _ _ _ q1]) (use 1(1) t(1) Some in simp_all)
    have stop: "a = CStop \<longrightarrow> stop_c q1 = None"
    proof
      assume a: "a = CStop"
      then have "stop_c q = Some t" using t(2) by (simp add: elem_set)
      then have "set_option (stop_c q1) = {}" using t(3) a by simp
      then show "stop_c q1 = None" by simp
    qed
    have e: "pick_by_rank s q (a # cs) = Some (s1, q1\<lparr>cur := Some t\<rparr>, t)" using 1(1) Some by simp
    have w': "sched_waiting (q1\<lparr>cur := Some t\<rparr>) = sched_waiting q - {t}" using w by (simp add: sched_waiting_def)
    show ?thesis
      by (rule exI [of _ s1], rule exI [of _ "q1\<lparr>cur := Some t\<rparr>"], rule exI [of _ t], rule exI [of _ a])
        (use e pf w' stop 1(2,4) t f cls touches_class [OF t(5), of t] in simp)
  next
    case None
    then have n: "\<not> class_has_runnable q a" "s1 = s" "waiting_in q1 a = waiting_in q a" using 1(5) by (simp_all add: picked_def)
    have d: "distinct cs" "CIdle \<in> set cs" "a \<notin> set cs"
      using Cons.prems n(1) by (auto simp: class_has_runnable_def)
    have core1: "sched_core s q1" using 1(2) n(2) by simp
    obtain s' q' t c where 2: "pick_by_rank s q1 cs = Some (s', q', t)" "picks_from s q1 cs s' c t" "sched_core s' q'" "cur q' = Some t" "idle_links (s' t)"
      "sched_class_of (s' t) = c" "t \<in> waiting_in q1 c \<or> c = CIdle \<and> t = idle_c q1" "sched_waiting q' = sched_waiting q1 - {t}"
      "c = CStop \<longrightarrow> stop_c q' = None" "idle_c q' = idle_c q1" "sched_used q' \<le> sched_used q1"
      using Cons.IH [OF core1 d(1,2)] by blast
    obtain ds es p where 3: "cs = ds @ c # es" "\<forall>d \<in> set ds. \<not> class_has_runnable q1 d" "class_has_runnable q1 c"
      "class_pick_next s q1 c = Some (s', p, Some t)" using 2(2) unfolding picks_from_def by blast
    have ca: "c \<noteq> a" "\<forall>d \<in> set ds. d \<noteq> a" using d(3) 3(1) by auto
    obtain p' where p': "class_pick_next s q c = Some (s', p', Some t)" using pick_other [OF 1(3) ca(1) 3(4)] by blast
    have "\<forall>d \<in> set ds. \<not> class_has_runnable q d" using 3(2) ca(2) runnable_other [OF 1(3)] by blast
    then have pf: "picks_from s q (a # cs) s' c t"
      by (intro picks_fromI [of _ "a # ds" _ es _ _ _ p']) (use 3(1,3) n(1) runnable_other [OF 1(3) ca(1)] p' in simp_all)
    have w: "waiting_in q1 c = waiting_in q c" "sched_waiting q1 = sched_waiting q"
      using same_but_waiting [OF 1(3) n(3)] sched_waiting_step(2) [OF 1(3) n(3)] by simp_all
    have e: "pick_by_rank s q (a # cs) = Some (s', q', t)" using 1(1) None n(2) 2(1) by simp
    show ?thesis
      by (rule exI [of _ s'], rule exI [of _ q'], rule exI [of _ t], rule exI [of _ c])
        (use e pf 2 w f 1(4) in simp)
  qed
qed simp

lemma sched_pick_next_ok:
  assumes inv: "sched_inv s q" and cur: "cur q = None"
  shows "\<exists>s' q' t s1 q1 c. sched_pick_next s q now = Some (s', q', t) \<and> ends_with q (resident q) s' q' \<and> cur q' = Some t
    \<and> advance_classes s (q\<lparr>clock := fst (clock_advance (clock q) now)\<rparr>) = Some (s1, q1) \<and> sched_core s1 q1 \<and> picks_from s1 q1 by_rank s' c t
    \<and> sched_class_of (s' t) = c"
proof -
  have core0: "sched_core s (q\<lparr>clock := fst (clock_advance (clock q) now)\<rparr>)" using inv by (simp add: sched_inv_def)
  obtain s1 q1 where 1: "advance_classes s (q\<lparr>clock := fst (clock_advance (clock q) now)\<rparr>) = Some (s1, q1)" "sched_core s1 q1"
    "\<forall>c. waiting_in q1 c = waiting_in q c" "idle_c q1 = idle_c q" "sched_used q1 = sched_used q"
    using advance_classes_ok [OF core0] by auto
  have d: "distinct by_rank" "CIdle \<in> set by_rank" by (simp_all add: by_rank_def)
  obtain s' q' t c where 2: "pick_by_rank s1 q1 by_rank = Some (s', q', t)" "picks_from s1 q1 by_rank s' c t" "sched_core s' q'" "cur q' = Some t"
      "idle_links (s' t)" "sched_class_of (s' t) = c" "t \<in> waiting_in q1 c \<or> c = CIdle \<and> t = idle_c q1" "sched_waiting q' = sched_waiting q1 - {t}"
      "c = CStop \<longrightarrow> stop_c q' = None" "idle_c q' = idle_c q1" "sched_used q' \<le> sched_used q1"
    using pick_by_rank_ok [OF 1(2) d] by blast
  have w: "sched_waiting q1 = sched_waiting q" using 1(3) by (simp add: sched_waiting_def)
  have "t \<in> sched_waiting q \<or> t = idle_c q" using 2(7) 1(3,4) by (auto simp: sched_waiting_def)
  then have "resident q' = resident q" using 2(4,8,10) w 1(4) cur by (auto simp: resident_def)
  moreover have "c = CIdle \<longrightarrow> t = idle_c q'" using 2(7,10) by auto
  then have "sched_inv s' q'" using 2(3,4,5,6,9) by (simp add: sched_inv_def runner_ok_def)
  ultimately have "ends_with q (resident q) s' q'" using 2(10,11) 1(4,5) by (simp add: ends_with_def)
  moreover have "sched_pick_next s q now = Some (s', q', t)" using cur 1(1) 2(1) by (simp add: sched_pick_next_def)
  ultimately show ?thesis using 1(1,2) 2(2,4,6) by blast
qed

end
