(* ===== verification/SchedRun.thy ===== *)
theory SchedRun
  imports SchedInv
begin

text \<open>
  Sequences of operations on one run queue. The runner leaves, tasks change their attributes and their
  class, and any sequence of legal operations runs without a panic, keeps the invariant of \<open>SchedInv\<close> and
  keeps exactly the tasks that entered and did not leave.
\<close>

section \<open>Leaving the processor\<close>

lemma leave_ok:
  assumes inv: "sched_inv s q" and cur: "cur q = Some t" and room: "sched_used q + 2 < 2 ^ 64"
  shows "\<exists>s' q'. leave s q now r = Some (s', q', t) \<and> cur q' = None
    \<and> ends_with q (if stays r then resident q else resident q - {t}) s' q'"
proof -
  obtain s1 q1 e where 1: "charge s q now = Some (s1, q1, e)" "charged s q s1 q1" using charge_ok [OF inv] by blast
  note C = charged_fields [OF 1(2)]
  have t: "idle_links (s1 t)" "sched_class_of (s1 t) = CStop \<Longrightarrow> stop_c q1 = None" using C(1,10) cur by (simp_all add: runner_ok_def)
  define c where "c = sched_class_of (s1 t)"
  define q0 where "q0 = q1\<lparr>cur := None\<rparr>"
  have q0: "sched_core s1 q0" "c = CStop \<Longrightarrow> stop_c q0 = None" "sched_used q0 + 2 < 2 ^ 64" using C(4,9) t(2) room by (simp_all add: q0_def c_def)
  obtain s2 q2 where 2: "class_put_prev s1 q0 c t r = Some (s2, q2, stays r \<and> c \<noteq> CIdle)" "sched_core s2 q2" "same_but c q0 q2" "touches t s1 s2"
    "sched_used q2 \<le> sched_used q0 + 2"
    "if stays r \<and> c \<noteq> CIdle then waiting_in q2 c = insert t (waiting_in q0 c) else waiting_in q2 c = waiting_in q0 c \<and> idle_links (s2 t)"
    using class_put_prev_ok [OF q0(1) t(1) c_def [symmetric] q0(2,3), of r] by blast
  have f: "cur q2 = None" "idle_c q2 = idle_c q" "sched_waiting q0 = sched_waiting q" "cur q0 = None"
    using 2(3) C(3,5) by (simp_all add: same_but_def q0_def sched_waiting_def)
  have out: "t \<notin> sched_waiting q" using core_idle_out [OF C(9) t(1)] C(6) by (simp add: sched_waiting_def)
  have idle: "c = CIdle \<longrightarrow> t \<notin> resident q" using C(1,3,10) cur by (auto simp: runner_ok_def c_def resident_def)
  have "sched_waiting q2 = (if stays r \<and> c \<noteq> CIdle then insert t (sched_waiting q) else sched_waiting q)"
    using 2(6) sched_waiting_step(1,2) [OF 2(3)] f(3) by (simp split: if_splits)
  then have "resident q2 = (if stays r then resident q else resident q - {t})"
    using f cur out idle by (auto simp: resident_def split: if_splits)
  moreover have "sched_inv s2 q2" using 2(2) f(1) by (simp add: sched_inv_def runner_ok_def)
  ultimately have "ends_with q (if stays r then resident q else resident q - {t}) s2 q2"
    using 2(5) f(2) C(4) by (simp add: ends_with_def q0_def)
  moreover have "leave s q now r = Some (s2, q2, t)" using 1(1) C(1) cur 2(1) by (simp add: leave_def c_def q0_def)
  ultimately show ?thesis using f(1) by blast
qed

lemma install_current_ok:
  assumes inv: "sched_inv s q" and cur: "cur q = None" and t: "idle_links (s t)" "sched_class_of (s t) = CStop \<Longrightarrow> stop_c q = None"
    "sched_class_of (s t) = CIdle \<Longrightarrow> t = idle_c q"
  shows "\<exists>s' q'. install_current s q t now = Some (s', q') \<and> cur q' = Some t \<and> ends_with q (insert t (resident q) - {idle_c q}) s' q'"
proof -
  have core0: "sched_core s (q\<lparr>clock := fst (clock_advance (clock q) now)\<rparr>)" using inv by (simp add: sched_inv_def)
  obtain s1 q1 where 1: "advance_classes s (q\<lparr>clock := fst (clock_advance (clock q) now)\<rparr>) = Some (s1, q1)" "sched_core s1 q1"
    "\<forall>c. waiting_in q1 c = waiting_in q c" "touches_in (set (dl_throttled (deadline_c q))) s s1" "idle_c q1 = idle_c q" "stop_c q1 = stop_c q"
    "sched_used q1 = sched_used q"
    using advance_classes_ok [OF core0] by auto
  have "t \<notin> waiting_in q CDeadline" using core_idle_out [of s q t CDeadline] inv t(1) by (simp add: sched_inv_def)
  then have st: "s1 t = s t" using touches_inD(1) [OF 1(4)] by (simp add: dl_waiting_def)
  define c where "c = sched_class_of (s1 t)"
  have p: "idle_links (s1 t)" "c = CStop \<Longrightarrow> stop_c q1 = None" using t 1(6) st by (simp_all add: c_def)
  obtain s2 q2 where 2: "class_set_curr s1 q1 c t = Some (s2, q2)" "sched_core s2 q2" "same_but c q1 q2" "waiting_in q2 c = waiting_in q1 c"
    "idle_links (s2 t)" "touches t s1 s2" "sched_used q2 = sched_used q1"
    using class_set_curr_ok [OF 1(2) p(1) c_def [symmetric] p(2)] by blast
  have w: "sched_waiting q2 = sched_waiting q" using sched_waiting_step(2) [OF 2(3,4)] 1(3) by (simp add: sched_waiting_def)
  have f: "idle_c q2 = idle_c q" using 2(3) 1(5) by (simp add: same_but_def)
  have "set_option (stop_c q2) = set_option (stop_c q)" using same_but_waiting [OF 2(3,4), of CStop] 1(6) by simp
  then have stop: "stop_c q2 = stop_c q" by (simp add: set_option_inj)
  have "runner_ok s2 (q2\<lparr>cur := Some t\<rparr>)"
    using 2(5) t(2,3) st stop f touches_class [OF 2(6), of t] by (simp add: runner_ok_def)
  moreover have "resident (q2\<lparr>cur := Some t\<rparr>) = insert t (resident q) - {idle_c q}"
    using w f cur by (auto simp: resident_def sched_waiting_def)
  ultimately have "ends_with q (insert t (resident q) - {idle_c q}) s2 (q2\<lparr>cur := Some t\<rparr>)"
    using 2(2,7) 1(7) f by (simp add: ends_with_def sched_inv_def)
  moreover have "install_current s q t now = Some (s2, q2\<lparr>cur := Some t\<rparr>)"
    using cur 1(1) 2(1) by (simp add: install_current_def c_def)
  ultimately show ?thesis by simp
qed

section \<open>Changing attributes\<close>

lemma valid_attr:
  assumes "attr_validate cfg a = Inr ()"
  shows "attr_class a = CRt \<Longrightarrow> 1 \<le> rt_priority a \<and> rt_priority a \<le> 99" "attr_class a = CDeadline \<Longrightarrow> dl_params a \<noteq> None"
    "\<not> is_kernel_only (attr_class a)"
  using assms
  by (cases "policy a"; auto simp: attr_validate_def attr_class_def policy_class_def is_kernel_only_def split: if_splits option.splits)+

lemma valid_task:
  assumes "attr_validate cfg a = Inr ()" "-20 \<le> nice a" "nice a \<le> 19" "task_wf x" "sched_class_of x = attr_class a"
  shows "task_wf (task_set_attr a x)"
  using assms valid_attr [OF assms(1)] nice_weight_range [of "nice a"] by (simp add: task_wf_def sched_class_of_def)

lemma class_attr_changed_ok:
  assumes core: "sched_core s q" and place: "idle_links (s t) \<or> t \<in> waiting_in q c" and cur: "is_curr \<Longrightarrow> idle_links (s t)"
    and c: "sched_class_of (s t) = c" "\<not> is_kernel_only c" "attr_class a = c"
    and a: "attr_validate cfg a = Inr ()" "-20 \<le> nice a" "nice a \<le> 19" and room: "sched_used q + 2 < 2 ^ 64"
  shows "\<exists>s' q'. class_attr_changed (upd t (task_set_attr a) s) q c t (attr (s t)) is_curr = Some (s', q') \<and> sched_core s' q' \<and> same_but c q q'
    \<and> waiting_in q' c = waiting_in q c \<and> (\<forall>x. x \<noteq> t \<longrightarrow> s' x = s x) \<and> sched_class_of (s' t) = c \<and> (idle_links (s t) \<longrightarrow> idle_links (s' t))
    \<and> sched_used q' \<le> sched_used q + 2"
proof -
  note P = core_parts [OF core]
  define s0 where "s0 = upd t (task_set_attr a) s"
  have wf0: "task_wf (s0 t)" using valid_task [OF a] sched_coreD(3) [OF core] c by (simp add: s0_def)
  have cls0: "sched_class_of (s0 t) = c" using c(1) by (simp add: s0_def sched_class_of_def)
  have "\<exists>s' q'. class_attr_changed s0 q c t (attr (s t)) is_curr = Some (s', q') \<and> same_but c q q' \<and> class_inv s' q' c
    \<and> waiting_in q' c = waiting_in q c \<and> touches t s0 s' \<and> (idle_links (s t) \<longrightarrow> idle_links (s' t)) \<and> sched_used q' \<le> sched_used q + 2"
  proof (cases c)
    case CDeadline
    then have "dl_params a \<noteq> None" using valid_attr(2) [OF a(1)] c by simp
    from dl_attr_changed_ok [OF P(2) s0_def this, of is_curr] show ?thesis
      using CDeadline by (auto simp: class_attr_changed_def sched_used_def)
  next
    case CRt
    have "rt_room s0 (rt_c q) t" using valid_attr(1) [OF a(1)] c CRt by (simp add: rt_room_def s0_def)
    moreover have "idle_links (s t) \<or> t \<in> rt_waiting (rt_c q)" using place CRt by simp
    ultimately show ?thesis using rt_attr_changed_ok [OF P(3) _ _ s0_def, of is_curr] cur CRt by (auto simp: class_attr_changed_def sched_used_def)
  next
    case CFair
    have "fair_room s (fair_c q) t" using room by (simp add: fair_room_def sched_used_def)
    moreover have "idle_links (s t) \<or> t \<in> fair_waiting (fair_c q)" using place CFair by simp
    ultimately show ?thesis using fair_attr_changed_ok [OF P(4) _ _ s0_def P(5), of is_curr] cur CFair by (auto simp: class_attr_changed_def sched_used_def)
  qed (use c in \<open>auto simp: is_kernel_only_def\<close>)
  then obtain s' q' where 1: "class_attr_changed s0 q c t (attr (s t)) is_curr = Some (s', q')" "same_but c q q'" "class_inv s' q' c"
    "waiting_in q' c = waiting_in q c" "touches t s0 s'" "idle_links (s t) \<longrightarrow> idle_links (s' t)" "sched_used q' \<le> sched_used q + 2" by blast
  have off: "s' x = s x" if "x \<noteq> t" for x using touches_other [OF 1(5) that] that by (simp add: s0_def)
  have cls: "sched_class_of (s' t) = c" using touches_class [OF 1(5), of t] cls0 by simp
  have ni: "t \<noteq> idle_c q" using sched_coreD(4) [OF core] c by (auto simp: is_kernel_only_def)
  have "sched_core s' q'"
    by (rule core_change [OF core 1(2) off _ touches_wf [OF 1(5) wf0] 1(3) c(1)]) (use cls c(1) 1(4) ni in auto)
  then show ?thesis using 1 off cls unfolding s0_def by blast
qed

text \<open>A detached task leaves its old class and joins its new one.\<close>

lemma switched_core:
  assumes core: "sched_core s q" and t: "sched_class_of (s t) = c" "idle_links (s' t)"
    and 1: "same_but c q q'" "class_inv s' q' c" "waiting_in q' c = waiting_in q c" "touches t s s'"
  shows "sched_core s' q'"
  by (rule core_step [OF core 1(1,4,2) t(1)]) (use 1(3) t(2) in auto)

lemma class_switched_from_ok:
  assumes core: "sched_core s q" and t: "idle_links (s t)" "sched_class_of (s t) = c"
  shows "\<exists>s' q'. class_switched_from s q c t is_curr = (s', q') \<and> sched_core s' q' \<and> same_but c q q' \<and> waiting_in q' c = waiting_in q c
    \<and> idle_links (s' t) \<and> touches t s s' \<and> sched_used q' = sched_used q"
proof -
  note P = core_parts [OF core]
  have frame: "class_inv s' q c" if "touches t s s'" for s'
    using class_frame [OF sched_coreD(1) [OF core]] touches_other [OF that] core_idle_out [OF core t(1)] by metis
  have "\<exists>s' q'. class_switched_from s q c t is_curr = (s', q') \<and> same_but c q q' \<and> class_inv s' q' c \<and> waiting_in q' c = waiting_in q c
    \<and> idle_links (s' t) \<and> touches t s s' \<and> sched_used q' = sched_used q"
  proof (cases c)
    case CDeadline
    let ?s = "fst (dl_switched_from s (deadline_c q) t is_curr)"
    have "dl_inv ?s (deadline_c q)" using frame [OF dl_switched_from_touch(1)] CDeadline by (metis class_inv_simps(2))
    then show ?thesis using CDeadline dl_switched_from_touch [where t = t and s = s and c = "deadline_c q" and is_curr = is_curr] t(1)
      by (auto simp: class_switched_from_def case_prod_beta sched_used_def)
  next
    case CRt
    then show ?thesis using frame [OF rt_switched_touch(1)] rt_switched_touch(1,3) t(1) by (simp add: class_switched_from_def)
  next
    case CFair
    then show ?thesis using fair_switched_from_ok [OF P(4) t(1) P(5), of is_curr] by (auto simp: class_switched_from_def sched_used_def)
  qed (use t frame [OF touches_refl] in \<open>auto simp: class_switched_from_def\<close>)
  then show ?thesis using switched_core [OF core t(2)] by blast
qed

lemma class_switched_to_ok:
  assumes core: "sched_core s q" and t: "idle_links (s t)" "sched_class_of (s t) = c"
  shows "\<exists>s' q'. class_switched_to s q c t is_curr = (s', q') \<and> sched_core s' q' \<and> same_but c q q' \<and> waiting_in q' c = waiting_in q c
    \<and> idle_links (s' t) \<and> touches t s s' \<and> sched_used q' = sched_used q"
proof -
  note P = core_parts [OF core]
  have frame: "class_inv s' q c" if "touches t s s'" for s'
    using class_frame [OF sched_coreD(1) [OF core]] touches_other [OF that] core_idle_out [OF core t(1)] by metis
  have "\<exists>s' q'. class_switched_to s q c t is_curr = (s', q') \<and> same_but c q q' \<and> class_inv s' q' c \<and> waiting_in q' c = waiting_in q c
    \<and> idle_links (s' t) \<and> touches t s s' \<and> sched_used q' = sched_used q"
  proof (cases c)
    case CDeadline
    let ?n = "now_ns (clock q)" let ?s = "fst (dl_switched_to s (deadline_c q) t is_curr ?n)"
    have "dl_inv ?s (deadline_c q)" using frame [OF dl_switched_to_touch(1)] CDeadline by (metis class_inv_simps(2))
    then show ?thesis using CDeadline dl_switched_to_touch [where t = t and s = s and c = "deadline_c q" and is_curr = is_curr and now = ?n] t(1)
      by (auto simp: class_switched_to_def case_prod_beta sched_used_def dl_used_def)
  next
    case CRt
    then show ?thesis using frame [OF rt_switched_touch(2)] rt_switched_touch(2,4) t(1) by (simp add: class_switched_to_def)
  next
    case CFair
    then show ?thesis using fair_set_curr_ok [OF P(4) t(1) P(5)] P(4) t(1)
      by (cases is_curr) (auto simp: class_switched_to_def fair_switched_to_def sched_used_def)
  qed (use t frame [OF touches_refl] in \<open>auto simp: class_switched_to_def\<close>)
  then show ?thesis using switched_core [OF core t(2)] by blast
qed

lemma rejoin_ok:
  assumes core: "sched_core s q" and t: "idle_links (s t)" "sched_class_of (s t) = oc" "t \<noteq> idle_c q"
    and a: "attr_validate cfg a = Inr ()" "-20 \<le> nice a" "nice a \<le> 19" "attr_class a = nc"
  shows "\<exists>s' q'. (let (s, q) = class_switched_from s q oc t is_curr; s = upd t (task_set_class nc \<circ> task_set_attr a) s in
      class_switched_to s q nc t is_curr) = (s', q') \<and> sched_core s' q' \<and> (\<forall>d. waiting_in q' d = waiting_in q d) \<and> idle_links (s' t)
    \<and> (\<forall>x. x \<noteq> t \<longrightarrow> s' x = s x) \<and> sched_class_of (s' t) = nc \<and> cur q' = cur q \<and> idle_c q' = idle_c q \<and> sched_used q' = sched_used q"
proof -
  obtain s1 q1 where 1: "class_switched_from s q oc t is_curr = (s1, q1)" "sched_core s1 q1" "same_but oc q q1" "waiting_in q1 oc = waiting_in q oc"
    "idle_links (s1 t)" "touches t s s1" "sched_used q1 = sched_used q" using class_switched_from_ok [OF core t(1,2)] by blast
  define s2 where "s2 = upd t (task_set_class nc \<circ> task_set_attr a) s1"
  have cls2: "sched_class_of (s2 t) = nc" by (simp add: s2_def task_set_class_def sched_class_of_def)
  have wf2: "task_wf (s2 t)"
    using touches_wf [OF 1(6) sched_coreD(3) [OF core], of t] nice_weight_range [OF a(2,3)] valid_attr [OF a(1)] a(2,3,4)
    by (simp add: s2_def task_set_class_def task_wf_def sched_class_of_def)
  have idle2: "idle_links (s2 t)" using 1(5) by (simp add: s2_def task_set_class_def idle_links_def unlinked_def)
  have i1: "idle_c q1 = idle_c q" "cur q1 = cur q" using 1(3) by (simp_all add: same_but_def)
  have core2: "sched_core s2 q1" by (rule core_retask [OF 1(2,5)]) (use t(3) i1 wf2 in \<open>auto simp: s2_def\<close>)
  obtain s3 q3 where 3: "class_switched_to s2 q1 nc t is_curr = (s3, q3)" "sched_core s3 q3" "same_but nc q1 q3" "waiting_in q3 nc = waiting_in q1 nc"
    "idle_links (s3 t)" "touches t s2 s3" "sched_used q3 = sched_used q1" using class_switched_to_ok [OF core2 idle2 cls2] by blast
  have off: "s3 x = s x" if "x \<noteq> t" for x
    using that touches_other [OF 3(6) that] touches_other [OF 1(6) that] by (simp add: s2_def)
  have "waiting_in q3 d = waiting_in q d" for d using same_but_waiting [OF 3(3,4)] same_but_waiting [OF 1(3,4)] by simp
  moreover have "cur q3 = cur q" "idle_c q3 = idle_c q" using 3(3) i1 by (simp_all add: same_but_def)
  ultimately show ?thesis
    using 1(1,7) 3 off touches_class [OF 3(6), of t] cls2 by (simp add: Let_def s2_def)
qed

lemma change_class_ok:
  assumes core: "sched_core s q" and place: "idle_links (s t) \<or> t \<in> waiting_in q oc" and cur: "is_curr \<Longrightarrow> idle_links (s t)"
    and c: "sched_class_of (s t) = oc" "attr_class (attr (s t)) = oc" "\<not> is_kernel_only oc"
    and a: "attr_validate cfg a = Inr ()" "-20 \<le> nice a" "nice a \<le> 19" and room: "sched_used q + 2 < 2 ^ 64"
  shows "\<exists>s' q'. change_class s q t (attr (s t)) a is_curr = Some (s', q') \<and> sched_core s' q' \<and> sched_waiting q' = sched_waiting q
    \<and> waiting_in q' CStop = waiting_in q CStop \<and> (\<forall>x. x \<noteq> t \<longrightarrow> s' x = s x) \<and> sched_class_of (s' t) = attr_class a
    \<and> (idle_links (s t) \<longrightarrow> idle_links (s' t)) \<and> cur q' = cur q \<and> idle_c q' = idle_c q \<and> sched_used q' \<le> sched_used q + 2"
proof -
  have ni: "t \<noteq> idle_c q" using sched_coreD(4) [OF core] c by (auto simp: is_kernel_only_def)
  have nk: "attr_class a \<noteq> CStop" "attr_class a \<noteq> CIdle" using valid_attr(3) [OF a(1)] by (auto simp: is_kernel_only_def)
  show ?thesis
  proof (cases "t \<in> waiting_in q oc")
    case False
    then have t: "idle_links (s t)" "seat (s t) = QDetached" using place by (auto simp: idle_links_def)
    obtain s' q' where 1: "(let (s, q) = class_switched_from s q oc t is_curr; s = upd t (task_set_class (attr_class a) \<circ> task_set_attr a) s in
        class_switched_to s q (attr_class a) t is_curr) = (s', q')" "sched_core s' q'" "\<forall>d. waiting_in q' d = waiting_in q d" "idle_links (s' t)"
      "\<forall>x. x \<noteq> t \<longrightarrow> s' x = s x" "sched_class_of (s' t) = attr_class a" "cur q' = cur q" "idle_c q' = idle_c q" "sched_used q' = sched_used q"
      using rejoin_ok [OF core t(1) c(1) ni a refl] by blast
    have "change_class s q t (attr (s t)) a is_curr = Some (s', q')"
      using 1(1) t(2) c(2) by (simp add: change_class_def Let_def split: prod.splits)
    then show ?thesis using 1(2-9) spec [OF 1(3), of CStop] by (simp add: sched_waiting_def)
  next
    case True
    have q: "seat (s t) \<noteq> QDetached" "\<not> idle_links (s t)" "\<not> is_curr"
      using core_waits [OF core True] cur by (auto simp: idle_links_def)
    obtain s1 q1 where 1: "class_dequeue s q oc t (curr_for s (cur q) oc) = Some (s1, q1, Some t)" "sched_core s1 q1" "same_but oc q q1"
      "waiting_in q1 oc = waiting_in q oc - {t}" "idle_links (s1 t)" "touches t s s1" "sched_used q1 \<le> sched_used q"
      using class_dequeue_ok [OF core True] by blast
    have f1: "idle_c q1 = idle_c q" "cur q1 = cur q" using 1(3) by (simp_all add: same_but_def)
    have cls1: "sched_class_of (s1 t) = oc" using touches_class [OF 1(6)] c(1) by simp
    obtain s2 q2 where 2: "(let (s, q) = class_switched_from s1 q1 oc t is_curr; s = upd t (task_set_class (attr_class a) \<circ> task_set_attr a) s in
        class_switched_to s q (attr_class a) t is_curr) = (s2, q2)" "sched_core s2 q2" "\<forall>d. waiting_in q2 d = waiting_in q1 d" "idle_links (s2 t)"
      "\<forall>x. x \<noteq> t \<longrightarrow> s2 x = s1 x" "sched_class_of (s2 t) = attr_class a" "cur q2 = cur q1" "idle_c q2 = idle_c q1" "sched_used q2 = sched_used q1"
      using rejoin_ok [OF 1(2,5) cls1 _ a refl] ni f1(1) by metis
    have room2: "sched_used q2 + 2 < 2 ^ 64" using room 1(7) 2(9) by simp
    obtain s3 q3 where 3: "class_enqueue s2 q2 (attr_class a) t EClassChange (curr_for s2 (cur q2) (attr_class a)) = Some (s3, q3)" "sched_core s3 q3"
      "same_but (attr_class a) q2 q3" "waiting_in q3 (attr_class a) = insert t (waiting_in q2 (attr_class a))" "touches t s2 s3"
      "sched_used q3 \<le> sched_used q2 + 2"
      using class_enqueue_ok [OF 2(2,4,6) nk(2) _ room2] nk(1) by blast
    have "sched_waiting q1 = sched_waiting q - {t}" using sched_waiting_step(3) [OF 1(3,4)] waits_once [OF core True] by blast
    then have w: "sched_waiting q3 = sched_waiting q"
      using sched_waiting_step(1) [OF 3(3,4)] 2(3) True by (auto simp: sched_waiting_def)
    have "oc \<noteq> CStop" using c(3) by (auto simp: is_kernel_only_def)
    then have "waiting_in q3 CStop = waiting_in q CStop"
      using same_but_other [OF 3(3)] same_but_other [OF 1(3)] 2(3) nk(1) by metis
    moreover have "change_class s q t (attr (s t)) a is_curr = Some (s3, q3)"
      using 1(1) 2(1) 3(1) q c(2) by (simp add: change_class_def Let_def split: prod.splits)
    moreover have "s3 x = s x" if "x \<noteq> t" for x using touches_other [OF 3(5) that] 2(5) touches_other [OF 1(6) that] that by simp
    moreover have "sched_class_of (s3 t) = attr_class a" using touches_class [OF 3(5)] 2(6) by simp
    moreover have "cur q3 = cur q" "idle_c q3 = idle_c q" using 3(3) 2(7,8) f1 by (simp_all add: same_but_def)
    ultimately show ?thesis using 3(2,6) w q(2) 1(7) 2(9) by simp
  qed
qed

definition apply_attr :: "store \<Rightarrow> scheduler \<Rightarrow> task_ref \<Rightarrow> sched_attr \<Rightarrow> bool \<Rightarrow> (store \<times> scheduler) option" where
  "apply_attr s q t a is_curr =
     (if attr_class (attr (s t)) = attr_class a then class_attr_changed (upd t (task_set_attr a) s) q (attr_class a) t (attr (s t)) is_curr
      else change_class s q t (attr (s t)) a is_curr)"

lemma apply_attr_ok:
  assumes core: "sched_core s q" "runner_ok s q" and t: "idle_links (s t) \<or> t \<in> sched_waiting q" "\<not> is_kernel_only (sched_class_of (s t))"
    and cur: "is_curr \<longleftrightarrow> cur q = Some t"
    and a: "attr_validate cfg a = Inr ()" "-20 \<le> nice a" "nice a \<le> 19" and room: "sched_used q + 2 < 2 ^ 64"
  shows "\<exists>s' q'. apply_attr s q t a is_curr = Some (s', q') \<and> ends_with q (resident q) s' q'"
proof -
  define c where "c = sched_class_of (s t)"
  have c: "sched_class_of (s t) = c" "attr_class (attr (s t)) = c" "\<not> is_kernel_only c"
    using sched_coreD(3) [OF core(1), of t] t(2) by (auto simp: c_def task_wf_def)
  have place: "idle_links (s t) \<or> t \<in> waiting_in q c" using t(1) sched_coreD(2) [OF core(1)] c(1) by (auto simp: sched_waiting_def)
  have idle: "is_curr \<Longrightarrow> idle_links (s t)" using core(2) cur by (simp add: runner_ok_def)
  have "\<exists>s' q'. apply_attr s q t a is_curr = Some (s', q') \<and> sched_core s' q' \<and> sched_waiting q' = sched_waiting q
      \<and> waiting_in q' CStop = waiting_in q CStop \<and> (\<forall>x. x \<noteq> t \<longrightarrow> s' x = s x) \<and> sched_class_of (s' t) = attr_class a
      \<and> (idle_links (s t) \<longrightarrow> idle_links (s' t)) \<and> cur q' = cur q \<and> idle_c q' = idle_c q \<and> sched_used q' \<le> sched_used q + 2"
  proof (cases "attr_class (attr (s t)) = attr_class a")
    case True
    then have ac: "attr_class a = c" using c(2) by simp
    obtain s' q' where "class_attr_changed (upd t (task_set_attr a) s) q c t (attr (s t)) is_curr = Some (s', q')" "sched_core s' q'"
      "same_but c q q'" "waiting_in q' c = waiting_in q c" "\<forall>x. x \<noteq> t \<longrightarrow> s' x = s x" "sched_class_of (s' t) = c"
      "idle_links (s t) \<longrightarrow> idle_links (s' t)" "sched_used q' \<le> sched_used q + 2"
      using class_attr_changed_ok [OF core(1) place idle c(1,3) ac a room] by blast
    then show ?thesis
      using True ac sched_waiting_step(2) [of c q q'] same_but_waiting [of c q q' CStop] by (simp add: same_but_def apply_attr_def)
  qed (use change_class_ok [OF core(1) place idle c a room] in \<open>simp add: apply_attr_def\<close>)
  then obtain s' q' where 2: "apply_attr s q t a is_curr = Some (s', q')" "sched_core s' q'" "sched_waiting q' = sched_waiting q"
      "waiting_in q' CStop = waiting_in q CStop" "\<forall>x. x \<noteq> t \<longrightarrow> s' x = s x" "sched_class_of (s' t) = attr_class a"
      "idle_links (s t) \<longrightarrow> idle_links (s' t)" "cur q' = cur q" "idle_c q' = idle_c q" "sched_used q' \<le> sched_used q + 2" by blast
  have stop: "stop_c q' = stop_c q" using 2(4) by (simp add: set_option_inj)
  have "idle_links (s' x) \<and> (sched_class_of (s' x) = CStop \<longrightarrow> stop_c q' = None) \<and> (sched_class_of (s' x) = CIdle \<longrightarrow> x = idle_c q')"
    if x: "cur q' = Some x" for x
    using x 2(5-9) stop core(2) valid_attr(3) [OF a(1)] by (cases "x = t") (auto simp: runner_ok_def is_kernel_only_def)
  then have "runner_ok s' q'" by (simp add: runner_ok_def)
  then show ?thesis using 2 by (simp add: ends_with_def sched_inv_def resident_def)
qed

lemma sched_set_attr_ok:
  assumes inv: "sched_inv s q" and place: "idle_links (s t) \<or> t \<in> sched_waiting q" and a: "-20 \<le> nice a" "nice a \<le> 19"
    and room: "sched_used q + 2 < 2 ^ 64"
  shows "\<exists>s' q' r. sched_set_attr cfg s q t a now = Some (s', q', r) \<and> ends_with q (resident q) s' q'"
proof (cases "attr_validate cfg a")
  case (Inl e)
  then show ?thesis using inv by (simp add: sched_set_attr_def ends_with_def)
next
  case (Inr u)
  then have v: "attr_validate cfg a = Inr ()" by simp
  obtain s1 q1 e where 1: "charge s q now = Some (s1, q1, e)" "charged s q s1 q1" using charge_ok [OF inv] by blast
  note C = charged_fields [OF 1(2)]
  have early: ?thesis if "sched_set_attr cfg s q t a now = Some (s1, q1, r)" for r using that charged_ends [OF 1(2)] by blast
  show ?thesis
  proof (cases "is_kernel_only (sched_class_of (s t))")
    case True
    then show ?thesis using early [of "Inl KernelClassImmutable"] v 1(1) by (simp add: sched_set_attr_def)
  next
    case nk: False
    have place1: "idle_links (s1 t) \<or> t \<in> sched_waiting q1"
      using place charged_same [OF 1(2), of t] C(1,5,10) by (cases "cur q = Some t") (auto simp: runner_ok_def)
    have nk1: "\<not> is_kernel_only (sched_class_of (s1 t))" "sched_used q1 + 2 < 2 ^ 64" using nk C(4,7) room by simp_all
    obtain s2 q2 where 2: "apply_attr s1 q1 t a (cur q1 = Some t) = Some (s2, q2)" "ends_with q1 (resident q1) s2 q2"
      using apply_attr_ok [OF C(9,10) place1 nk1(1) refl v a nk1(2)] by blast
    have e2: "ends_with q (resident q) s2 q2" using 2(2) ends_with_charged [OF 1(2)] resident_charged [OF 1(2)] by simp
    have core2: "sched_core s2 q2" using 2(2) by (simp add: ends_with_def sched_inv_def)
    obtain r n where rn: "resched_needed s2 q2 UWakeProbe False = Some r" "compute_next_event s2 q2 = Some n"
      using resched_total [OF core2] next_event_total by blast
    show ?thesis
    proof (cases "class_can_admit cfg s1 q1 (attr_class a) t a")
      case (Inl e)
      then show ?thesis using early [of "Inl e"] v 1(1) nk by (simp add: sched_set_attr_def Let_def)
    next
      case (Inr u)
      then have "sched_set_attr cfg s q t a now = Some (s2, q2, Inr \<lparr>resched = r, next_event_ns = n\<rparr>)"
        using v 1(1) nk 2(1) rn by (simp add: sched_set_attr_def Let_def apply_attr_def)
      then show ?thesis using e2 by blast
    qed
  qed
qed

section \<open>Sequences of operations\<close>

datatype sched_op =
    OUpdate nat update_kind
  | OEnqueue task_ref enqueue_kind nat
  | ODequeue task_ref nat
  | OSteal "sched_task \<Rightarrow> bool" nat
  | OPick nat
  | OYield nat
  | OPreempt nat
  | OBlock nat
  | OMigrate nat
  | OExit nat
  | OSetAttr task_ref sched_attr nat
  | OInstall task_ref nat

text \<open>
  An operation on a run queue together with the set of its tasks: \<open>R\<close> gains what enters and loses what
  leaves. This set is the abstract run queue.
\<close>

definition exec_op ::
  "sched_config \<Rightarrow> sched_op \<Rightarrow> store \<times> scheduler \<times> task_ref set \<Rightarrow> (store \<times> scheduler \<times> task_ref set) option" where
  "exec_op cfg p st = (case st of (s, q, R) \<Rightarrow>
     (case p of
        OUpdate now kind \<Rightarrow> do { (s, q, _) \<leftarrow> sched_update s q now kind; Some (s, q, R) }
      | OEnqueue t kind now \<Rightarrow> do { (s, q, _) \<leftarrow> sched_enqueue s q t kind now; Some (s, q, insert t R) }
      | ODequeue t now \<Rightarrow> do { (s, q, r) \<leftarrow> sched_dequeue s q t now; Some (s, q, R - set_option r) }
      | OSteal want now \<Rightarrow> do { (s, q, r) \<leftarrow> sched_steal want s q now; Some (s, q, R - set_option r) }
      | OPick now \<Rightarrow> do { (s, q, _) \<leftarrow> sched_pick_next s q now; Some (s, q, R) }
      | OYield now \<Rightarrow> do { (s, q) \<leftarrow> yield_current s q now; Some (s, q, R) }
      | OPreempt now \<Rightarrow> do { (s, q) \<leftarrow> preempt_current s q now; Some (s, q, R) }
      | OBlock now \<Rightarrow> do { t \<leftarrow> cur q; (s, q) \<leftarrow> block_current s q now; Some (s, q, R - {t}) }
      | OMigrate now \<Rightarrow> do { t \<leftarrow> cur q; (s, q) \<leftarrow> migrate_current s q now; Some (s, q, R - {t}) }
      | OExit now \<Rightarrow> do { (s, q, t) \<leftarrow> exit_current s q now; Some (s, q, R - {t}) }
      | OSetAttr t a now \<Rightarrow> do { (s, q, _) \<leftarrow> sched_set_attr cfg s q t a now; Some (s, q, R) }
      | OInstall t now \<Rightarrow> do { (s, q) \<leftarrow> install_current s q t now; Some (s, q, insert t R - {idle_c q}) }))"

text \<open>
  What a caller must respect: only detached tasks enter, one stop task per run queue, the runner leaves
  before the next pick, and a task handed to \<open>dequeue\<close> or \<open>set_attr\<close> is detached or waits here.
\<close>

definition waits_here :: "scheduler \<Rightarrow> task_ref \<Rightarrow> bool" where
  "waits_here q t \<longleftrightarrow> list_ex (\<lambda>c. t \<in> waiting_in q c) by_rank"

definition stop_free :: "store \<Rightarrow> scheduler \<Rightarrow> bool" where
  "stop_free s q \<longleftrightarrow> stop_c q = None \<and> (case cur q of None \<Rightarrow> True | Some u \<Rightarrow> sched_class_of (s u) \<noteq> CStop)"

definition op_legal :: "sched_op \<Rightarrow> store \<Rightarrow> scheduler \<Rightarrow> bool" where
  "op_legal p s q =
     (case p of
        OUpdate now kind \<Rightarrow> True
      | OEnqueue t kind now \<Rightarrow> idle_links (s t) \<and> cur q \<noteq> Some t \<and> sched_class_of (s t) \<noteq> CIdle \<and> (sched_class_of (s t) = CStop \<longrightarrow> stop_free s q)
      | ODequeue t now \<Rightarrow> idle_links (s t) \<or> waits_here q t
      | OSteal want now \<Rightarrow> True
      | OPick now \<Rightarrow> cur q = None
      | OSetAttr t a now \<Rightarrow> (idle_links (s t) \<or> waits_here q t) \<and> -20 \<le> nice a \<and> nice a \<le> 19
      | OInstall t now \<Rightarrow> cur q = None \<and> idle_links (s t) \<and> (sched_class_of (s t) = CStop \<longrightarrow> stop_c q = None)
          \<and> (sched_class_of (s t) = CIdle \<longrightarrow> t = idle_c q)
      | _ \<Rightarrow> cur q \<noteq> None)"

fun run_ops :: "sched_config \<Rightarrow> sched_op list \<Rightarrow> store \<times> scheduler \<times> task_ref set \<Rightarrow> (store \<times> scheduler \<times> task_ref set) option" where
  "run_ops cfg [] st = Some st"
| "run_ops cfg (p # ps) st = do { st \<leftarrow> exec_op cfg p st; run_ops cfg ps st }"

fun legal_run :: "sched_config \<Rightarrow> sched_op list \<Rightarrow> store \<times> scheduler \<times> task_ref set \<Rightarrow> bool" where
  "legal_run cfg [] st = True"
| "legal_run cfg (p # ps) st =
     (op_legal p (fst st) (fst (snd st)) \<and> (case exec_op cfg p st of None \<Rightarrow> True | Some st \<Rightarrow> legal_run cfg ps st))"

lemma waits_here_iff: "waits_here q t \<longleftrightarrow> t \<in> sched_waiting q"
proof -
  have "UNIV = set by_rank" by (auto simp: by_rank_def) (metis sched_class.exhaust)
  then show ?thesis by (simp add: waits_here_def sched_waiting_def list_ex_iff)
qed

lemma exec_op_ok:
  assumes inv: "sched_inv s q" and legal: "op_legal p s q" and room: "sched_used q + 2 < 2 ^ 64"
  shows "\<exists>s' q'. exec_op cfg p (s, q, resident q) = Some (s', q', resident q') \<and> sched_inv s' q' \<and> sched_used q' \<le> sched_used q + 2"
proof -
  have run: "\<exists>s' q' t. cur q = Some t \<and> leave s q now r = Some (s', q', t) \<and> ends_with q (if stays r then resident q else resident q - {t}) s' q'"
    if "cur q \<noteq> None" for now r using that leave_ok [OF inv _ room] by blast
  show ?thesis
  proof (cases p)
    case (OUpdate now kind)
    then show ?thesis using sched_update_ok [OF inv, of now kind] by (auto simp: exec_op_def ends_with_def)
  next
    case (OEnqueue t kind now)
    have "\<exists>s' q' d. sched_enqueue s q t kind now = Some (s', q', d) \<and> ends_with q (insert t (resident q)) s' q'"
      by (rule sched_enqueue_ok [OF inv]) (use legal room OEnqueue in \<open>auto simp: op_legal_def stop_free_def split: option.splits\<close>)
    then show ?thesis using OEnqueue by (auto simp: exec_op_def ends_with_def)
  next
    case (ODequeue t now)
    then show ?thesis using sched_dequeue_ok [OF inv, of t now] legal by (auto simp: exec_op_def ends_with_def op_legal_def waits_here_iff)
  next
    case (OSteal want now)
    then show ?thesis using sched_steal_ok [OF inv, of want now] by (auto simp: exec_op_def ends_with_def)
  next
    case (OPick now)
    then have "\<exists>s' q' t. sched_pick_next s q now = Some (s', q', t) \<and> ends_with q (resident q) s' q'"
      using sched_pick_next_ok [OF inv, of now] legal by (auto simp: op_legal_def)
    then show ?thesis using OPick by (auto simp: exec_op_def ends_with_def)
  next
    case (OYield now)
    then show ?thesis using run [of now LYield] legal by (auto simp: exec_op_def ends_with_def op_legal_def yield_current_def stays_def)
  next
    case (OPreempt now)
    then show ?thesis using run [of now LPreempt] legal by (auto simp: exec_op_def ends_with_def op_legal_def preempt_current_def stays_def)
  next
    case (OBlock now)
    then show ?thesis using run [of now LBlock] legal by (auto simp: exec_op_def ends_with_def op_legal_def block_current_def stays_def)
  next
    case (OMigrate now)
    then show ?thesis using run [of now LMigrate] legal by (auto simp: exec_op_def ends_with_def op_legal_def migrate_current_def stays_def)
  next
    case (OExit now)
    then show ?thesis using run [of now LExit] legal by (auto simp: exec_op_def ends_with_def op_legal_def exit_current_def stays_def)
  next
    case (OSetAttr t a now)
    then show ?thesis using sched_set_attr_ok [OF inv _ _ _ room, of t a cfg now] legal by (auto simp: exec_op_def ends_with_def op_legal_def waits_here_iff)
  next
    case (OInstall t now)
    then show ?thesis using install_current_ok [OF inv, of t now] legal by (auto simp: exec_op_def ends_with_def op_legal_def)
  qed
qed

lemma run_ops_ok:
  assumes "sched_inv s q" "legal_run cfg ps (s, q, resident q)" "sched_used q + 2 * length ps < 2 ^ 64"
  shows "\<exists>s' q'. run_ops cfg ps (s, q, resident q) = Some (s', q', resident q') \<and> sched_inv s' q'"
  using assms
proof (induction ps arbitrary: s q)
  case (Cons p ps)
  have legal: "op_legal p s q" and room: "sched_used q + 2 < 2 ^ 64" using Cons.prems(2,3) by simp_all
  obtain s' q' where 1: "exec_op cfg p (s, q, resident q) = Some (s', q', resident q')" "sched_inv s' q'" "sched_used q' \<le> sched_used q + 2"
    using exec_op_ok [OF Cons.prems(1) legal room] by blast
  have "legal_run cfg ps (s', q', resident q')" "sched_used q' + 2 * length ps < 2 ^ 64" using Cons.prems(2,3) 1 by simp_all
  from Cons.IH [OF 1(2) this] show ?case using 1(1) by simp
qed simp

text \<open>A run queue that was just created, over tasks that were not used before.\<close>

lemma scheduler_new_inv:
  assumes "\<forall>x. task_wf (s x) \<and> idle_links (s x)" "sched_class_of (s idle) = CIdle"
  shows "sched_inv s (scheduler_new cfg self idle now)" "resident (scheduler_new cfg self idle now) = {}" "sched_used (scheduler_new cfg self idle now) = 0"
proof -
  let ?q = "scheduler_new cfg self idle now"
  have w: "waiting_in ?q c = {}" for c
    by (cases c) (simp_all add: scheduler_new_def deadline_class_new_inv rt_class_new_inv fair_class_new_inv)
  moreover have "class_inv s ?q c" for c
    by (cases c) (simp_all add: scheduler_new_def stop_inv_def deadline_class_new_inv rt_class_new_inv fair_class_new_inv)
  moreover have "idle_c ?q = idle" "cur ?q = None" by (simp_all add: scheduler_new_def)
  ultimately show "sched_inv s ?q" "resident ?q = {}"
    using assms by (auto simp: sched_inv_def sched_core_def runner_ok_def resident_def sched_waiting_def)
  show "sched_used ?q = 0" by (simp add: sched_used_def scheduler_new_def deadline_class_new_inv fair_class_new_def)
qed

end
