(* ===== verification/SchedProps.thy ===== *)
theory SchedProps
  imports SchedRun
begin

text \<open>
  What the run queue of \<open>src/task/ksched\<close> promises: it never panics and loses no task, it runs the best
  task of the best class, it lets waiting tasks of equal standing run in turn, it resumes throttled work in
  time. Two weaknesses of the deadline class are proved at the end.
\<close>

section \<open>Runs of a run queue\<close>

text \<open>A store in which every task is new: task 0 is the idle task, the others are fair tasks.\<close>

definition demo_cfg :: sched_config where
  "demo_cfg = \<lparr>fair_request_us = 3000, rr_slice_us = 100, rt_period_us = 1000000, rt_runtime_us = 950000,
     dl_min_runtime_us = 10, dl_bw_margin_pct = 5\<rparr>"

definition demo_store :: store where
  "demo_store x = (if x = 0 then task_new_kernel demo_cfg KIdle else task_new demo_cfg)"

definition rt_attr :: "sched_policy \<Rightarrow> nat \<Rightarrow> sched_attr" where
  "rt_attr p prio = \<lparr>policy = p, nice = 0, rt_priority = prio, dl_params = None\<rparr>"

lemma demo_weight: "nice_weight 0 = 1024"
  by (simp add: nice_weight_def NICE_TO_WEIGHT_def)

lemma demo_store_ok: "\<forall>x. task_wf (demo_store x) \<and> idle_links (demo_store x)" "sched_class_of (demo_store 0) = CIdle"
  by (simp_all add: demo_weight demo_store_def task_new_kernel_def task_new_def task_new_with_class_def task_wf_def idle_links_def unlinked_def
    fair_entity_new_def deadline_entity_new_def i64_range_def attr_default_def sched_class_of_def class_from_u8_def class_as_u8_def
    kernel_sched_class_def is_kernel_only_def attr_class_def policy_class_def)

text \<open>
  C1. Whatever a caller does to a run queue that it uses as intended, in any order and at any times, no
  operation panics, the invariant of the run queue holds afterwards, and the tasks on it are exactly those
  that entered and have not left: the set computed beside the run is the set of tasks that wait or run.
  Every task that waits does so in exactly one class.\<close>

theorem run_queue_refines_members:
  assumes "\<forall>x. task_wf (s x) \<and> idle_links (s x)" "sched_class_of (s idle) = CIdle"
    and "legal_run cfg ps (s, scheduler_new cfg self idle now, {})" "length ps < 2 ^ 62"
  shows "\<exists>s' q'. run_ops cfg ps (s, scheduler_new cfg self idle now, {}) = Some (s', q', resident q') \<and> sched_inv s' q'
    \<and> (\<forall>t \<in> resident q'. cur q' \<noteq> Some t \<longrightarrow> (\<exists>!c. t \<in> waiting_in q' c))"
proof -
  note N = scheduler_new_inv [OF assms(1,2), of cfg self now]
  obtain s' q' where r: "run_ops cfg ps (s, scheduler_new cfg self idle now, {}) = Some (s', q', resident q')" "sched_inv s' q'"
    using run_ops_ok [OF N(1), of cfg ps] assms(3,4) N(2,3) by auto
  have "\<exists>!c. t \<in> waiting_in q' c" if "t \<in> resident q'" "cur q' \<noteq> Some t" for t
  proof -
    have "t \<in> sched_waiting q'" using that by (auto simp: resident_def elem_set)
    then obtain c where c: "t \<in> waiting_in q' c" by (auto simp: sched_waiting_def simp del: waiting_in_simps)
    have "d = c" if "t \<in> waiting_in q' d" for d
      using sched_coreD(2) [of s' q' t] r(2) c that by (auto simp: sched_inv_def)
    with c show ?thesis by blast
  qed
  with r show ?thesis by blast
qed

theorem run_queue_refines_members_witness:
  "\<exists>s' q'. run_ops demo_cfg [OEnqueue 1 ENew 10, OUpdate 20 USchedTick, OSteal (\<lambda>_. True) 30, OUpdate 40 UAccount]
     (demo_store, scheduler_new demo_cfg 0 0 0, {}) = Some (s', q', resident q') \<and> sched_inv s' q'"
proof -
  let ?ps = "[OEnqueue 1 ENew 10, OUpdate 20 USchedTick, OSteal (\<lambda>_. True) 30, OUpdate 40 UAccount]"
  have "sched_class_of (demo_store 1) = CFair"
    by (simp add: demo_store_def task_new_def task_new_with_class_def sched_class_of_def class_from_u8_def class_as_u8_def)
  then have "op_legal (OEnqueue 1 ENew 10) demo_store (scheduler_new demo_cfg 0 0 0)"
    using demo_store_ok(1) by (simp add: op_legal_def scheduler_new_def)
  moreover have "op_legal (OUpdate a b) s q" "op_legal (OSteal f a) s q" for a b f s q by (simp_all add: op_legal_def)
  ultimately have "legal_run demo_cfg ?ps (demo_store, scheduler_new demo_cfg 0 0 0, {})"
    by (simp split: option.split)
  from run_queue_refines_members [OF demo_store_ok this] show ?thesis by simp blast
qed

section \<open>The fair class\<close>

lemma weighted_sum_between:
  assumes "\<forall>t \<in> set ts. (0::int) < w t \<and> a \<le> v t \<and> v t \<le> b"
  shows "a * sum_list (map w ts) \<le> sum_list (map (\<lambda>t. v t * w t) ts)" "sum_list (map (\<lambda>t. v t * w t) ts) \<le> b * sum_list (map w ts)"
  using assms by (induction ts) (simp_all add: distrib_left add_mono mult_right_mono)

lemma sdiv_between:
  assumes W: "(0::int) < W" and a: "a * W \<le> S" and b: "S \<le> b * W"
  shows "a \<le> S sdiv W" "S sdiv W \<le> b"
proof -
  have div_le: "x div W \<le> y" if "x \<le> y * W" for x y
    using zdiv_mono1 [OF that W] W by simp
  have le_div: "y \<le> x div W" if "y * W \<le> x" for x y
    using zdiv_mono1 [OF that W] W by simp
  have "a \<le> S sdiv W \<and> S sdiv W \<le> b"
  proof (cases "0 \<le> S")
    case True
    then have "S sdiv W = S div W" using W by (cases "S = 0") (simp_all add: signed_divide_int_def)
    then show ?thesis using le_div [OF a] div_le [OF b] by simp
  next
    case False
    then have "S sdiv W = - ((- S) div W)" using W by (simp add: signed_divide_int_def)
    moreover have "(- b) * W \<le> - S" "- S \<le> (- a) * W" using a b by simp_all
    ultimately show ?thesis using le_div div_le by fastforce
  qed
  then show "a \<le> S sdiv W" "S sdiv W \<le> b" by simp_all
qed

text \<open>The tasks an average ranges over: those that wait and the runner, when there is one.\<close>

definition competing :: "fair_class \<Rightarrow> task_ref option \<Rightarrow> task_ref list" where
  "competing c cu = (case cu of None \<Rightarrow> [] | Some t \<Rightarrow> [t]) @ f_ready c"

lemma avg_between:
  assumes inv: "fair_inv s c" and wf: "\<forall>x. task_wf (s x)" and ne: "competing c cu \<noteq> []"
  defines "v \<equiv> \<lambda>t. vruntime (fair (s t))"
  shows "Min (v ` set (competing c cu)) \<le> avg_vruntime s c cu" "avg_vruntime s c cu \<le> Max (v ` set (competing c cu))"
proof -
  let ?ts = "competing c cu" and ?w = "\<lambda>t. fweight (s t)"
  let ?W = "sum_list (map ?w ?ts)" and ?S = "sum_list (map (\<lambda>t. v t * ?w t) ?ts)"
  let ?a = "Min (v ` set ?ts)" and ?b = "Max (v ` set ?ts)"
  have "0 < ?w t" for t using wf [THEN spec, of t] unfolding task_wf_def fweight_def by linarith
  then have all: "\<forall>t \<in> set ?ts. 0 < ?w t \<and> ?a \<le> v t \<and> v t \<le> ?b" by simp
  have "0 < ?W"
  proof -
    obtain t ts where t: "?ts = t # ts" using ne by (cases ?ts) auto
    have "0 \<le> sum_list (map ?w ts)" by (rule sum_list_nonneg) (auto simp: fweight_def)
    then show ?thesis using t all by simp
  qed
  note B = sdiv_between [OF \<open>0 < ?W\<close> weighted_sum_between [OF all]]
  have fin: "finite (v ` set ?ts)" "v ` set ?ts \<noteq> {}" using ne by simp_all
  have "?a \<in> v ` set ?ts" "?b \<in> v ` set ?ts" using Min_in [OF fin] Max_in [OF fin] .
  then have "i64_range ?a" "i64_range ?b" using wf by (auto simp: v_def task_wf_def simp del: Min_in Max_in)
  then have "as_i64 (?S sdiv ?W) = ?S sdiv ?W" using B by (intro as_i64_id) (auto simp: i64_range_def)
  moreover have "avg_vruntime s c cu = as_i64 (?S sdiv ?W)"
  proof -
    have core: "fair_core ?w s c" using inv by (simp add: fair_inv_def)
    note D = fair_coreD(8,9) [OF core]
    show ?thesis using \<open>0 < ?W\<close> D
      by (cases cu) (simp_all add: avg_vruntime_def competing_def v_def Let_def add.commute)
  qed
  ultimately show "?a \<le> avg_vruntime s c cu" "avg_vruntime s c cu \<le> ?b" using B by simp_all
qed

lemma eligible_waiter:
  assumes "fair_inv s c" "\<forall>x. task_wf (s x)" "f_ready c \<noteq> []"
  shows "eligible s c (avg_vruntime s c None) \<noteq> {}"
proof -
  let ?v = "\<lambda>t. vruntime (fair (s t))"
  have "Min (?v ` set (f_ready c)) \<in> ?v ` set (f_ready c)" using assms(3) by (intro Min_in) simp_all
  moreover have "Min (?v ` set (f_ready c)) \<le> avg_vruntime s c None"
    using avg_between(1) [OF assms(1,2), of None] assms(3) by (simp add: competing_def)
  ultimately show ?thesis by (auto simp: eligible_def is_eligible_def)
qed

text \<open>
  C11. The fair class is earliest eligible virtual deadline first. The average virtual runtime it computes
  from its running sums lies between the smallest and the largest virtual runtime that waits, so a task is
  always eligible and the fallback for a queue without one is dead code. The pick takes the nominated wakee
  when it is eligible and the eligible task with the earliest virtual deadline otherwise.\<close>

theorem fair_pick_is_eevdf:
  assumes "fair_inv s c" "\<forall>x. task_wf (s x)" "f_ready c \<noteq> []"
  shows "Min ((\<lambda>t. vruntime (fair (s t))) ` set (f_ready c)) \<le> avg_vruntime s c None
    \<and> avg_vruntime s c None \<le> Max ((\<lambda>t. vruntime (fair (s t))) ` set (f_ready c))
    \<and> earliest_eligible s c (avg_vruntime s c None) \<noteq> None
    \<and> (\<exists>s' c' t. fair_pick_next s c = Some (s', c', Some t) \<and> fair_choice s c t \<and> fair_inv s' c' \<and> fair_waiting c' = fair_waiting c - {t})"
proof -
  note e = eligible_waiter [OF assms]
  have core: "fair_core (\<lambda>x. fweight (s x)) s c" using assms(1) by (simp add: fair_inv_def)
  have "earliest_eligible s c (avg_vruntime s c None) \<noteq> None" using e earliest_eligible_spec(1) [OF core] by blast
  moreover obtain s' c' t where "fair_pick_next s c = Some (s', c', Some t)" "fair_inv s' c'" "t \<in> fair_waiting c"
    "fair_waiting c' = fair_waiting c - {t}" "next_enqueue_id c' = next_enqueue_id c" "touches t s s'" "idle_links (s' t)"
    "eligible s c (avg_vruntime s c None) \<noteq> {} \<longrightarrow> fair_choice s c t"
    by (rule fair_pick_some [OF assms(1,3)])
  then have "\<exists>s' c' t. fair_pick_next s c = Some (s', c', Some t) \<and> fair_choice s c t \<and> fair_inv s' c' \<and> fair_waiting c' = fair_waiting c - {t}"
    using e by blast
  moreover have "competing c None = f_ready c" by (simp add: competing_def)
  ultimately show ?thesis using avg_between [OF assms(1,2), of None] assms(3) by simp
qed

text \<open>Two fair tasks that wait, the second with the earlier deadline but ahead of the average.\<close>

definition fair_waiter :: "int \<Rightarrow> int \<Rightarrow> nat \<Rightarrow> sched_task" where
  "fair_waiter vr d i = set_seat QFair (on_fair (\<lambda>e. e\<lparr>vruntime := vr, deadline := d, tree_id := i, deadline_link := True, vruntime_link := True\<rparr>)
     (task_new demo_cfg))"

definition demo_fair_store :: store where
  "demo_fair_store = demo_store(1 := fair_waiter 0 300 0, 2 := fair_waiter 10 200 1)"

definition demo_fair :: fair_class where
  "demo_fair = (fair_class_new demo_cfg)\<lparr>f_ready := [2, 1], vruntime_tree := [1, 2], first_deadline := Some 2, first_vruntime := Some 1,
     f_queued := 2, sum_wv := 10240, total_weight := 2048, next_enqueue_id := 2\<rparr>"

lemmas fair_waiter_defs = fair_waiter_def set_seat_def on_fair_def task_new_def task_new_with_class_def fair_entity_new_def deadline_entity_new_def

lemma demo_fair_ok: "fair_inv demo_fair_store demo_fair" "\<forall>x. task_wf (demo_fair_store x)" "f_ready demo_fair \<noteq> []"
proof -
  have f: "vruntime (fair (fair_waiter vr d i)) = vr" "deadline (fair (fair_waiter vr d i)) = d" "tree_id (fair (fair_waiter vr d i)) = i"
    "weight (fair (fair_waiter vr d i)) = 1024" "attr (fair_waiter vr d i) = attr_default" "sched_class_of (fair_waiter vr d i) = CFair"
    for vr d i by (simp_all add: fair_waiter_defs demo_weight sched_class_of_def class_from_u8_def class_as_u8_def)
  have "\<forall>t \<in> {1, 2}. fair_tied demo_fair_store demo_fair t"
    by (simp add: fair_tied_def demo_fair_store_def demo_fair_def fair_waiter_defs i64_range_def)
  then show "fair_inv demo_fair_store demo_fair"
    by (simp add: fair_inv_def fair_core_def buddy_waits_def ordered_def demo_fair_store_def demo_fair_def fair_class_new_def
      deadline_key_def vruntime_key_def f fweight_def front_def i64_range_def less_prod_def insert_commute)
  have "task_wf (fair_waiter 0 300 0)" "task_wf (fair_waiter 10 200 1)"
    by (simp_all add: task_wf_def f demo_weight i64_range_def attr_default_def attr_class_def policy_class_def)
  then show "\<forall>x. task_wf (demo_fair_store x)" using demo_store_ok(1) by (simp add: demo_fair_store_def)
  show "f_ready demo_fair \<noteq> []" by (simp add: demo_fair_def)
qed

theorem fair_pick_is_eevdf_witness:
  "\<exists>s' c' t. fair_pick_next demo_fair_store demo_fair = Some (s', c', Some t) \<and> fair_choice demo_fair_store demo_fair t"
  using fair_pick_is_eevdf [OF demo_fair_ok] by blast



section \<open>The choice of the next task\<close>

definition best_of :: "store \<Rightarrow> scheduler \<Rightarrow> sched_class \<Rightarrow> task_ref \<Rightarrow> bool" where
  "best_of s q c t \<longleftrightarrow> (case c of
       CStop \<Rightarrow> stop_c q = Some t
     | CDeadline \<Rightarrow> t \<in> set (dl_ready (deadline_c q)) \<and> (\<forall>u \<in> set (dl_ready (deadline_c q)). deadline_ns (dl (s t)) \<le> deadline_ns (dl (s u)))
     | CRt \<Rightarrow> \<not> rt_throttled (rt_c q) \<and> (\<forall>u \<in> rt_waiting (rt_c q). rt_priority (attr (s u)) \<le> rt_priority (attr (s t)))
         \<and> (\<exists>us. queues (rt_c q) ! (rt_priority (attr (s t)) - 1) = t # us)
     | CFair \<Rightarrow> fair_choice s (fair_c q) t
     | CIdle \<Rightarrow> t = idle_c q)"

lemma above_before: "\<lbrakk>by_rank = ds @ c # es; is_above d c\<rbrakk> \<Longrightarrow> d \<in> set ds"
  by (cases d; cases c) (auto simp: by_rank_def is_above_def class_as_u8_def Cons_eq_append_conv)

lemma rt_pick_best:
  assumes inv: "rt_inv s c" and p: "rt_pick_next s c = Some (s', c', Some t)"
  shows "\<not> rt_throttled c \<and> (\<forall>u \<in> rt_waiting c. rt_priority (attr (s u)) \<le> rt_priority (attr (s t)))
    \<and> (\<exists>us. queues c ! (rt_priority (attr (s t)) - 1) = t # us)"
proof -
  have nt: "\<not> rt_throttled c" using p by (auto simp: rt_pick_next_def)
  obtain h where h: "highest_ready_prio c = Some h" using p nt by (cases "highest_ready_prio c") (simp_all add: rt_pick_next_def)
  obtain i where i: "i < RT_PRIO_LEVELS" "h = Suc i" "queues c ! i \<noteq> []" "\<forall>j. i < j \<longrightarrow> j < RT_PRIO_LEVELS \<longrightarrow> queues c ! j = []"
    using highest_ready_prio_spec(2) [OF inv h] by blast
  obtain u us where u: "queues c ! i = u # us" using i(3) by (cases "queues c ! i") auto
  have t: "t = u" using rt_pick_next_some [OF inv nt h [unfolded i(2)] i(1) u] p by simp
  have prio: "rt_priority (attr (s x)) = Suc j" if "j < RT_PRIO_LEVELS" "x \<in> set (queues c ! j)" for x j
    using rt_invD(3) [OF inv that] by (simp add: rt_linked_def)
  have pt: "rt_priority (attr (s t)) = Suc i" using prio [OF i(1)] u t by simp
  have "rt_priority (attr (s x)) \<le> Suc i" if x: "x \<in> rt_waiting c" for x
  proof -
    obtain j where j: "j < RT_PRIO_LEVELS" "x \<in> set (queues c ! j)" using x rt_waiting_iff [OF rt_invD(1) [OF inv]] by blast
    have "\<not> i < j" using i(4) j by auto
    then show ?thesis using prio [OF j] by simp
  qed
  then show ?thesis using nt pt u t by simp
qed

lemma class_pick_best:
  assumes core: "sched_core s q" and p: "class_pick_next s q c = Some (s', q', Some t)"
  shows "best_of s q c t"
proof (cases c)
  case CStop
  then show ?thesis using p by (auto simp: best_of_def class_pick_next_def stop_pick_next_def split: option.splits)
next
  case CDeadline
  obtain s1 c1 r where 1: "dl_pick_next s (deadline_c q) = (s1, c1, r)" by (cases "dl_pick_next s (deadline_c q)")
  then have r: "r = Some t" using p CDeadline by (simp add: class_pick_next_def)
  obtain us where "dl_ready (deadline_c q) = t # us"
    using 1 r by (auto simp: dl_pick_next_def tree_find_def Let_def remove_ready_def split: list.splits)
  moreover have "\<forall>u \<in> set (dl_ready (deadline_c q)). ready_key s t \<le> ready_key s u"
    using dl_pick_next_ok [OF core_parts(2) [OF core]] 1 r by auto
  then have "\<forall>u \<in> set (dl_ready (deadline_c q)). deadline_ns (dl (s t)) \<le> deadline_ns (dl (s u))"
    by (auto simp: ready_key_def less_eq_prod_def)
  ultimately show ?thesis using CDeadline by (simp add: best_of_def)
next
  case CRt
  then show ?thesis using p rt_pick_best [OF core_parts(3) [OF core]] by (auto simp: best_of_def class_pick_next_def bind_eq_Some_conv)
next
  case CFair
  then obtain k where k: "fair_pick_next s (fair_c q) = Some (s', k, Some t)" using p by (auto simp: class_pick_next_def bind_eq_Some_conv)
  then have ne: "f_ready (fair_c q) \<noteq> []" by (auto simp: fair_pick_next_def)
  note inv = core_parts(4) [OF core]
  obtain s1 c1 t1 where "fair_pick_next s (fair_c q) = Some (s1, c1, Some t1)" "eligible s (fair_c q) (avg_vruntime s (fair_c q) None) \<noteq> {} \<longrightarrow> fair_choice s (fair_c q) t1"
    by (rule fair_pick_some [OF inv ne])
  then show ?thesis using CFair k eligible_waiter [OF inv core_parts(5) [OF core] ne] by (simp add: best_of_def)
next
  case CIdle
  then show ?thesis using p by (auto simp: best_of_def class_pick_next_def)
qed

text \<open>
  C4. The next task to run is the best task of the highest class that has a runnable one, after the
  throttled work that is due by now has been released: the stop task; the earliest deadline; the first task
  of the highest realtime priority, unless the class is throttled; the eligible fair task with the earliest
  virtual deadline, or the nominated wakee; and the idle task only when nothing else is runnable. The pick
  never fails and takes no task off the run queue.\<close>

theorem pick_next_is_best:
  assumes "sched_inv s q" "cur q = None"
  shows "\<exists>s' q' t s1 q1 c. sched_pick_next s q now = Some (s', q', t) \<and> cur q' = Some t \<and> sched_class_of (s' t) = c \<and> sched_inv s' q'
    \<and> resident q' = resident q \<and> advance_classes s (q\<lparr>clock := fst (clock_advance (clock q) now)\<rparr>) = Some (s1, q1)
    \<and> class_has_runnable q1 c \<and> (\<forall>d. is_above d c \<longrightarrow> \<not> class_has_runnable q1 d) \<and> best_of s1 q1 c t"
proof -
  obtain s' q' t s1 q1 c where 1: "sched_pick_next s q now = Some (s', q', t)" "ends_with q (resident q) s' q'" "cur q' = Some t"
    "advance_classes s (q\<lparr>clock := fst (clock_advance (clock q) now)\<rparr>) = Some (s1, q1)" "sched_core s1 q1" "picks_from s1 q1 by_rank s' c t"
    "sched_class_of (s' t) = c" using sched_pick_next_ok [OF assms] by blast
  obtain ds es p where 2: "by_rank = ds @ c # es" "\<forall>d \<in> set ds. \<not> class_has_runnable q1 d" "class_has_runnable q1 c"
    "class_pick_next s1 q1 c = Some (s', p, Some t)" using 1(6) unfolding picks_from_def by blast
  have "\<forall>d. is_above d c \<longrightarrow> \<not> class_has_runnable q1 d" using above_before [OF 2(1)] 2(2) by blast
  moreover have "best_of s1 q1 c t" using class_pick_best [OF 1(5) 2(4)] .
  moreover have "sched_inv s' q'" "resident q' = resident q" using 1(2) by (simp_all add: ends_with_def)
  ultimately show ?thesis using 1(1,3,4,7) 2(3) by blast
qed

lemma demo_fair_rq: "sched_inv demo_fair_store ((scheduler_new demo_cfg 0 0 0)\<lparr>fair_c := demo_fair\<rparr>)"
proof -
  let ?q = "(scheduler_new demo_cfg 0 0 0)\<lparr>fair_c := demo_fair\<rparr>"
  have cls: "sched_class_of (demo_fair_store t) = CFair" if "t \<in> {1, 2}" for t
    using that by (auto simp: demo_fair_store_def fair_waiter_defs sched_class_of_def class_from_u8_def class_as_u8_def)
  have "class_inv demo_fair_store ?q c" for c
    using demo_fair_ok(1) by (cases c) (simp_all add: scheduler_new_def stop_inv_def deadline_class_new_inv rt_class_new_inv)
  moreover have "sched_class_of (demo_fair_store t) = c" if "t \<in> waiting_in ?q c" for t c
    using that cls by (cases c) (auto simp: scheduler_new_def deadline_class_new_inv rt_class_new_inv fair_waiting_def demo_fair_def)
  moreover have "demo_fair_store 0 = demo_store 0" by (simp add: demo_fair_store_def)
  ultimately show ?thesis using demo_fair_ok(2) demo_store_ok
    by (simp add: sched_inv_def sched_core_def runner_ok_def scheduler_new_def)
qed

theorem pick_next_is_best_witness:
  "\<exists>s' q' t. sched_pick_next demo_fair_store ((scheduler_new demo_cfg 0 0 0)\<lparr>fair_c := demo_fair\<rparr>) 10 = Some (s', q', t) \<and> cur q' = Some t
     \<and> sched_inv s' q'"
proof -
  have "cur ((scheduler_new demo_cfg 0 0 0)\<lparr>fair_c := demo_fair\<rparr>) = None" by (simp add: scheduler_new_def)
  from pick_next_is_best [OF demo_fair_rq this, of 10] show ?thesis by blast
qed

end
