(* ===== verification/SchedLive.thy ===== *)
theory SchedLive
  imports SchedProps
begin

text \<open>
  Progress of waiting tasks: round-robin tasks of one priority run in turn, and throttled work resumes when
  the timer the run queue asked for fires.
\<close>

section \<open>Round robin\<close>

text \<open>A scheduler tick and the switch it asks for: \<open>update\<close>, then \<open>preempt_current\<close> and \<open>pick_next\<close>.\<close>

definition tick_turn :: "store \<times> scheduler \<Rightarrow> nat \<Rightarrow> (store \<times> scheduler) option" where
  "tick_turn st now = do {
     (s, q, d) \<leftarrow> sched_update (fst st) (snd st) now USchedTick;
     if resched d then do {
       (s, q) \<leftarrow> preempt_current s q now;
       (s, q, _) \<leftarrow> sched_pick_next s q now;
       Some (s, q)
     }
     else Some (s, q)
   }"

fun tick_turns :: "store \<times> scheduler \<Rightarrow> nat list \<Rightarrow> (store \<times> scheduler) option" where
  "tick_turns st [] = Some st"
| "tick_turns st (now # nows) = do { st \<leftarrow> tick_turn st now; tick_turns st nows }"

definition is_rr :: "nat \<Rightarrow> sched_task \<Rightarrow> bool" where
  "is_rr i x \<longleftrightarrow> sched_class_of x = CRt \<and> policy (attr x) = SRr \<and> rt_priority (attr x) = Suc i"

text \<open>
  The runner is a round-robin task of level \<open>i\<close>, nothing of a higher level or class is on the run queue, and
  \<open>us\<close> waits at level \<open>i\<close>.
\<close>

definition rr_at :: "store \<Rightarrow> scheduler \<Rightarrow> task_ref \<Rightarrow> nat \<Rightarrow> task_ref list \<Rightarrow> bool" where
  "rr_at s q r i us \<longleftrightarrow> cur q = Some r \<and> is_rr i (s r) \<and> idle_links (s r) \<and> i < RT_PRIO_LEVELS
     \<and> stop_c q = None \<and> dl_ready (deadline_c q) = [] \<and> dl_throttled (deadline_c q) = [] \<and> rt_inv s (rt_c q) \<and> \<not> rt_throttled (rt_c q)
     \<and> queues (rt_c q) ! i = us \<and> (\<forall>j. i < j \<longrightarrow> j < RT_PRIO_LEVELS \<longrightarrow> queues (rt_c q) ! j = [])"

lemma rt_advance_running:
  assumes "\<not> rt_throttled c"
  shows "\<exists>p w. rt_advance c now = c\<lparr>used_ns := w, rt_period_start := p\<rparr> \<and> w \<le> used_ns c"
  using assms by (cases c) (auto simp: rt_advance_def Let_def)

lemma advance_no_deadlines:
  "dl_throttled (deadline_c q) = [] \<Longrightarrow> advance_classes s q = Some (s, q\<lparr>rt_c := rt_advance (rt_c q) (now_ns (clock q))\<rparr>)"
  by (cases q) (simp add: advance_classes_def dl_advance_def)

lemma charge_expired:
  assumes R: "rr_at s q r i us" "us \<noteq> []" and e: "e = now - last_ns (clock q)" "0 < e" "rr_left_ns (rt (s r)) \<le> e"
    and b: "used_ns (rt_c q) + e < rt_runtime_ns (rt_c q)"
  obtains q1 p w where "charge s q now = Some (upd r (\<lambda>x. on_rt (\<lambda>d. d\<lparr>rr_left_ns := rr_slice_ns (rt_c q), rr_rotate := True\<rparr>) (account_runtime e x)) s, q1, True)"
    "cur q1 = Some r" "stop_c q1 = None" "deadline_c q1 = deadline_c q" "last_ns (clock q1) = now"
    "rt_c q1 = (rt_c q)\<lparr>used_ns := w, rt_period_start := p\<rparr>" "w \<le> used_ns (rt_c q) + e"
proof -
  note R' = R(1) [unfolded rr_at_def is_rr_def]
  define q0 where "q0 = q\<lparr>clock := fst (clock_advance (clock q) now)\<rparr>"
  obtain p w where pw: "rt_advance (rt_c q) (now_ns (clock q0)) = (rt_c q)\<lparr>used_ns := w, rt_period_start := p\<rparr>" "w \<le> used_ns (rt_c q)"
    using rt_advance_running R' by blast
  define q1 where "q1 = q0\<lparr>rt_c := (rt_c q)\<lparr>used_ns := w, rt_period_start := p\<rparr>\<rparr>"
  have adv: "advance_classes s q0 = Some (s, q1)" using R' advance_no_deadlines [of q0 s] pw(1) by (simp add: q0_def q1_def)
  define v where "v = sat_add w e"
  have v: "v \<le> used_ns (rt_c q) + e" "v < rt_runtime_ns (rt_c q)" using pw(2) b by (simp_all add: v_def sat_add_def)
  define c2 where "c2 = (rt_c q)\<lparr>used_ns := v, rt_period_start := p\<rparr>"
  have "rt_inv s c2" using R' by (simp add: c2_def)
  then have occ: "has_same_prio_waiter c2 (Suc i) = Some True" using is_occupied_iff [of s c2 i] R' R(2) by (simp add: has_same_prio_waiter_def c2_def)
  define s1 where "s1 = upd r (account_runtime e) s"
  have s1: "attr (s1 r) = attr (s r)" "rt (s1 r) = rt (s r)" by (simp_all add: s1_def account_runtime_def)
  have c2': "rt_c q1\<lparr>used_ns := sat_add (used_ns (rt_c q1)) e\<rparr> = c2" "\<not> rt_runtime_ns c2 \<le> used_ns c2" "\<not> rt_throttled c2" "rr_slice_ns c2 = rr_slice_ns (rt_c q)"
    using v R' by (simp_all add: q1_def c2_def v_def)
  have acc: "rt_account s1 (rt_c q1) r e = Some (upd r (on_rt (\<lambda>d. d\<lparr>rr_left_ns := rr_slice_ns (rt_c q), rr_rotate := True\<rparr>)) s1, c2, True)"
    using e(2,3) R' s1 occ c2' by (simp add: rt_account_def Let_def min_absorb2)
  have "charge s q now = Some (upd r (\<lambda>x. on_rt (\<lambda>d. d\<lparr>rr_left_ns := rr_slice_ns (rt_c q), rr_rotate := True\<rparr>) (account_runtime e x)) s, q1\<lparr>rt_c := c2\<rparr>, True)"
    using adv acc R' e(1,2) unfolding charge_def q0_def
    by (simp add: clock_advance_def class_account_def q1_def q0_def s1_def upd_upd)
  then show thesis using that [of "q1\<lparr>rt_c := c2\<rparr>" p v] R' v(1) e(1,2) by (simp add: q1_def q0_def c2_def clock_advance_def)
qed

lemma preempt_rotated:
  assumes q: "cur q = Some r" "dl_throttled (deadline_c q) = []" "last_ns (clock q) = now"
    and r: "is_rr i (s r)" "idle_links (s r)" "i < RT_PRIO_LEVELS" "rr_rotate (rt (s r))"
    and c: "rt_inv s (rt_c q)" "\<not> rt_throttled (rt_c q)"
  obtains q' p w where "preempt_current s q now = Some (upd r (\<lambda>x. rt_tie (rt_self (rt_c q), i) (on_rt (\<lambda>d. d\<lparr>rr_rotate := False\<rparr>) x)) s, q')"
    "cur q' = None" "stop_c q' = stop_c q" "deadline_c q' = deadline_c q" "last_ns (clock q') = now"
    "rt_c q' = rt_pushed ((rt_c q)\<lparr>used_ns := w, rt_period_start := p\<rparr>) i r False" "w \<le> used_ns (rt_c q)"
proof -
  note r' = r(1) [unfolded is_rr_def]
  define q0 where "q0 = q\<lparr>clock := fst (clock_advance (clock q) now)\<rparr>"
  obtain p w where pw: "rt_advance (rt_c q) (now_ns (clock q0)) = (rt_c q)\<lparr>used_ns := w, rt_period_start := p\<rparr>" "w \<le> used_ns (rt_c q)"
    using rt_advance_running [OF c(2)] by blast
  define c1 where "c1 = (rt_c q)\<lparr>used_ns := w, rt_period_start := p\<rparr>"
  have adv: "advance_classes s q0 = Some (s, q0\<lparr>rt_c := c1\<rparr>)" using q advance_no_deadlines [of q0 s] pw(1) by (simp add: q0_def c1_def)
  have ch: "charge s q now = Some (s, q0\<lparr>rt_c := c1\<rparr>, False)"
    using adv q r' unfolding charge_def q0_def by (simp add: clock_advance_def class_account_def rt_account_def q0_def)
  define s0 where "s0 = upd r (on_rt (\<lambda>d. d\<lparr>rr_rotate := False\<rparr>)) s"
  have wait: "r \<notin> rt_waiting c1" using rt_ops.idle_not_waiting [of s c1 r] c(1) r(2) by (simp add: c1_def)
  have s0: "rt_inv s0 c1" "unlinked (s0 r)" "rt_priority (attr (s0 r)) = Suc i"
    using rt_frame [of s c1 s0] c(1) wait r(2) r' by (simp_all add: c1_def s0_def idle_links_def unlinked_def on_rt_def)
  note E = enqueue_ready_ok(1) [OF s0 r(3) refl refl, of False]
  have "rt_put_prev s c1 r LPreempt = Some (upd r (rt_tie (rt_self (rt_c q), i)) s0, rt_pushed c1 i r False, True)"
    using E r(4) by (simp add: rt_put_prev_def Let_def enqueue_tail_def s0_def c1_def)
  then have "preempt_current s q now = Some (upd r (\<lambda>x. rt_tie (rt_self (rt_c q), i) (on_rt (\<lambda>d. d\<lparr>rr_rotate := False\<rparr>) x)) s,
      q0\<lparr>rt_c := rt_pushed c1 i r False, cur := None\<rparr>)"
    using ch q r' by (simp add: preempt_current_def leave_def class_put_prev_def q0_def s0_def upd_upd)
  then show thesis using that [of "q0\<lparr>rt_c := rt_pushed c1 i r False, cur := None\<rparr>" p w] q pw(2) by (simp add: q0_def c1_def clock_advance_def)
qed

lemma highest_level:
  assumes inv: "rt_inv s c" and i: "i < RT_PRIO_LEVELS" "queues c ! i \<noteq> []" "\<forall>j. i < j \<longrightarrow> j < RT_PRIO_LEVELS \<longrightarrow> queues c ! j = []"
  shows "highest_ready_prio c = Some (Suc i)"
proof (cases "highest_ready_prio c")
  case None
  obtain x where "x \<in> set (queues c ! i)" using i(2) by (cases "queues c ! i") auto
  then have "x \<in> rt_waiting c" using i(1) rt_waiting_iff [OF rt_invD(1) [OF inv]] by blast
  then show ?thesis using highest_ready_prio_spec(1) [OF inv None] by simp
next
  case (Some p)
  obtain k where k: "k < RT_PRIO_LEVELS" "p = Suc k" "queues c ! k \<noteq> []" "\<forall>j. k < j \<longrightarrow> j < RT_PRIO_LEVELS \<longrightarrow> queues c ! j = []"
    using highest_ready_prio_spec(2) [OF inv Some] by blast
  then have "k = i" using i by (metis linorder_neqE_nat)
  then show ?thesis using Some k(2) by simp
qed

lemma pick_level:
  assumes q: "cur q = None" "stop_c q = None" "dl_ready (deadline_c q) = []" "dl_throttled (deadline_c q) = []"
    and c: "rt_inv s (rt_c q)" "\<not> rt_throttled (rt_c q)" and i: "i < RT_PRIO_LEVELS" "queues (rt_c q) ! i = u # us"
    "\<forall>j. i < j \<longrightarrow> j < RT_PRIO_LEVELS \<longrightarrow> queues (rt_c q) ! j = []"
  obtains q' p w where "sched_pick_next s q now = Some (upd u (\<lambda>x. rr_refill (rt_c q) (rt_untie x)) s, q', u)"
    "cur q' = Some u" "stop_c q' = None" "deadline_c q' = deadline_c q" "clock q' = fst (clock_advance (clock q) now)"
    "rt_c q' = rt_taken ((rt_c q)\<lparr>used_ns := w, rt_period_start := p\<rparr>) i u" "w \<le> used_ns (rt_c q)"
proof -
  define q0 where "q0 = q\<lparr>clock := fst (clock_advance (clock q) now)\<rparr>"
  obtain p w where pw: "rt_advance (rt_c q) (now_ns (clock q0)) = (rt_c q)\<lparr>used_ns := w, rt_period_start := p\<rparr>" "w \<le> used_ns (rt_c q)"
    using rt_advance_running [OF c(2)] by blast
  define c1 where "c1 = (rt_c q)\<lparr>used_ns := w, rt_period_start := p\<rparr>"
  have adv: "advance_classes s q0 = Some (s, q0\<lparr>rt_c := c1\<rparr>)" using q advance_no_deadlines [of q0 s] pw(1) by (simp add: q0_def c1_def)
  have c1: "rt_inv s c1" "\<not> rt_throttled c1" "queues c1 ! i = u # us" "rr_slice_ns c1 = rr_slice_ns (rt_c q)" using c i by (simp_all add: c1_def)
  have h: "highest_ready_prio c1 = Some (Suc i)" using highest_level [OF c1(1) i(1)] i(2,3) by (simp add: c1_def)
  note P = rt_pick_next_some [OF c1(1,2) h i(1) c1(3)]
  have "rr_refill c1 = rr_refill (rt_c q)" using c1(4) by (simp add: rr_refill_def fun_eq_iff)
  then have P': "rt_pick_next s c1 = Some (upd u (\<lambda>x. rr_refill (rt_c q) (rt_untie x)) s, rt_taken c1 i u, Some u)" using P by simp
  have "pick_by_rank s (q0\<lparr>rt_c := c1\<rparr>) by_rank
      = Some (upd u (\<lambda>x. rr_refill (rt_c q) (rt_untie x)) s, q0\<lparr>rt_c := rt_taken c1 i u, cur := Some u\<rparr>, u)"
    using q P' by (cases q) (simp add: by_rank_def class_pick_next_def stop_pick_next_def dl_pick_next_def q0_def)
  then have "sched_pick_next s q now = Some (upd u (\<lambda>x. rr_refill (rt_c q) (rt_untie x)) s, q0\<lparr>rt_c := rt_taken c1 i u, cur := Some u\<rparr>, u)"
    using q(1) adv by (simp add: sched_pick_next_def q0_def)
  then show thesis using that [of "q0\<lparr>rt_c := rt_taken c1 i u, cur := Some u\<rparr>" p w] q pw(2) by (simp add: q0_def c1_def)
qed

lemma rr_expire:
  assumes R: "rr_at s q r i us" "us \<noteq> []" and e: "e = now - last_ns (clock q)" "0 < e" "rr_left_ns (rt (s r)) \<le> e"
    and b: "used_ns (rt_c q) + e < rt_runtime_ns (rt_c q)"
  obtains s1 q1 d s2 q2 where "sched_update s q now USchedTick = Some (s1, q1, d)" "resched d" "preempt_current s1 q1 now = Some (s2, q2)"
    "cur q2 = None" "stop_c q2 = None" "deadline_c q2 = deadline_c q" "last_ns (clock q2) = now" "rt_inv s2 (rt_c q2)"
    "queues (rt_c q2) = (queues (rt_c q))[i := us @ [r]]" "\<not> rt_throttled (rt_c q2)" "rr_slice_ns (rt_c q2) = rr_slice_ns (rt_c q)"
    "rt_runtime_ns (rt_c q2) = rt_runtime_ns (rt_c q)" "used_ns (rt_c q2) \<le> used_ns (rt_c q) + e" "\<forall>x. x \<noteq> r \<longrightarrow> s2 x = s x"
proof -
  note R' = R(1) [unfolded rr_at_def]
  define f where "f = (\<lambda>x. on_rt (\<lambda>d. d\<lparr>rr_left_ns := rr_slice_ns (rt_c q), rr_rotate := True\<rparr>) (account_runtime e x))"
  obtain q1 p1 w1 where 1: "charge s q now = Some (upd r f s, q1, True)"
    "cur q1 = Some r" "stop_c q1 = None" "deadline_c q1 = deadline_c q" "last_ns (clock q1) = now"
    "rt_c q1 = (rt_c q)\<lparr>used_ns := w1, rt_period_start := p1\<rparr>" "w1 \<le> used_ns (rt_c q) + e"
    by (rule charge_expired [OF R e b]) (simp add: f_def)
  have out: "r \<notin> rt_waiting (rt_c q)" using rt_ops.idle_not_waiting [of s "rt_c q" r] R' by simp
  have s1: "is_rr i (upd r f s r)" "idle_links (upd r f s r)" "rr_rotate (rt (upd r f s r))" "rt_inv (upd r f s) (rt_c q1)" "\<not> rt_throttled (rt_c q1)"
    using R' rt_frame [of s "rt_c q" "upd r f s"] out 1(6)
    by (auto simp: f_def is_rr_def idle_links_def unlinked_def on_rt_def account_runtime_def sched_class_of_def upd_def)
  have d: "dl_throttled (deadline_c q1) = []" "i < RT_PRIO_LEVELS" using R' 1(4) by simp_all
  obtain n where "compute_next_event (upd r f s) q1 = Some n" using next_event_total by blast
  then have up: "sched_update s q now USchedTick = Some (upd r f s, q1, \<lparr>resched = True, next_event_ns = n\<rparr>)"
    using 1(1,2) by (simp add: sched_update_def resched_needed_def Let_def)
  define g where "g = (\<lambda>x. rt_tie (rt_self (rt_c q1), i) (on_rt (\<lambda>d. d\<lparr>rr_rotate := False\<rparr>) x))"
  define s2 where "s2 = upd r g (upd r f s)"
  obtain q2 p2 w2 where 2: "preempt_current (upd r f s) q1 now = Some (s2, q2)"
    "cur q2 = None" "stop_c q2 = None" "deadline_c q2 = deadline_c q" "last_ns (clock q2) = now"
    "rt_c q2 = rt_pushed ((rt_c q1)\<lparr>used_ns := w2, rt_period_start := p2\<rparr>) i r False" "w2 \<le> used_ns (rt_c q1)"
    by (rule preempt_rotated [OF 1(2) d(1) 1(5) s1(1,2) d(2) s1(3,4,5)]) (simp add: g_def s2_def 1(3,4))
  define c1 where "c1 = (rt_c q1)\<lparr>used_ns := w2, rt_period_start := p2\<rparr>"
  define s0 where "s0 = upd r (on_rt (\<lambda>d. d\<lparr>rr_rotate := False\<rparr>)) (upd r f s)"
  have s0: "rt_inv s0 c1" "unlinked (s0 r)" "rt_priority (attr (s0 r)) = Suc i"
    using rt_frame [of "upd r f s" "rt_c q1" s0] out s1 1(6)
    by (auto simp: c1_def s0_def is_rr_def idle_links_def unlinked_def on_rt_def upd_def)
  have s2: "s2 = upd r (rt_tie (rt_self c1, i)) s0" by (simp add: s2_def s0_def g_def upd_upd c1_def)
  have "rt_inv s2 (rt_c q2)" using enqueue_ready_ok(2) [OF s0 d(2) s2 2(6) [folded c1_def]] .
  moreover have "used_ns (rt_c q2) \<le> used_ns (rt_c q) + e" using 1(6,7) 2(6,7) by (simp add: rt_pushed_def)
  moreover have "\<forall>x. x \<noteq> r \<longrightarrow> s2 x = s x" by (simp add: s2_def)
  ultimately show thesis using that [OF up _ 2(1-5)] 2(6) 1(6) R' by (simp add: rt_pushed_def)
qed

lemma rr_turn:
  assumes R: "rr_at s q r i (u # us)" and e: "e = now - last_ns (clock q)" "0 < e" "rr_left_ns (rt (s r)) \<le> e"
    and b: "used_ns (rt_c q) + e < rt_runtime_ns (rt_c q)"
  obtains s' q' where "tick_turn (s, q) now = Some (s', q')" "cur q' = Some u" "is_rr i (s u) \<longrightarrow> rr_at s' q' u i (us @ [r])"
    "last_ns (clock q') = now" "used_ns (rt_c q') \<le> used_ns (rt_c q) + e" "rr_slice_ns (rt_c q') = rr_slice_ns (rt_c q)"
    "rt_runtime_ns (rt_c q') = rt_runtime_ns (rt_c q)" "\<forall>x. x \<noteq> r \<longrightarrow> x \<noteq> u \<longrightarrow> s' x = s x"
    "rr_left_ns (rt (s u)) \<le> rr_slice_ns (rt_c q) \<longrightarrow> rr_left_ns (rt (s' u)) \<le> rr_slice_ns (rt_c q)"
proof -
  note R' = R [unfolded rr_at_def]
  obtain s1 q1 d s2 q2 where 2: "sched_update s q now USchedTick = Some (s1, q1, d)" "resched d" "preempt_current s1 q1 now = Some (s2, q2)"
    "cur q2 = None" "stop_c q2 = None" "deadline_c q2 = deadline_c q" "last_ns (clock q2) = now" "rt_inv s2 (rt_c q2)"
    "queues (rt_c q2) = (queues (rt_c q))[i := (u # us) @ [r]]" "\<not> rt_throttled (rt_c q2)" "rr_slice_ns (rt_c q2) = rr_slice_ns (rt_c q)"
    "rt_runtime_ns (rt_c q2) = rt_runtime_ns (rt_c q)" "used_ns (rt_c q2) \<le> used_ns (rt_c q) + e" "\<forall>x. x \<noteq> r \<longrightarrow> s2 x = s x"
    by (rule rr_expire [OF R _ e b]) simp
  have l: "length (queues (rt_c q)) = RT_PRIO_LEVELS" and i: "i < RT_PRIO_LEVELS" using rt_invD(1) R' by blast+
  have lev: "queues (rt_c q2) ! i = u # (us @ [r])" "\<forall>j. i < j \<longrightarrow> j < RT_PRIO_LEVELS \<longrightarrow> queues (rt_c q2) ! j = []"
    using 2(9) l i R' by simp_all
  have dl2: "dl_ready (deadline_c q2) = []" "dl_throttled (deadline_c q2) = []" using 2(6) R' by simp_all
  obtain q3 p3 w3 where 3: "sched_pick_next s2 q2 now = Some (upd u (\<lambda>x. rr_refill (rt_c q2) (rt_untie x)) s2, q3, u)"
    "cur q3 = Some u" "stop_c q3 = None" "deadline_c q3 = deadline_c q2" "clock q3 = fst (clock_advance (clock q2) now)"
    "rt_c q3 = rt_taken ((rt_c q2)\<lparr>used_ns := w3, rt_period_start := p3\<rparr>) i u" "w3 \<le> used_ns (rt_c q2)"
    by (rule pick_level [OF 2(4,5) dl2 2(8,10) i lev])
  define s3 where "s3 = upd u (\<lambda>x. rr_refill (rt_c q2) (rt_untie x)) s2"
  have turn: "tick_turn (s, q) now = Some (s3, q3)" using 2(1-3) 3(1) by (simp add: tick_turn_def s3_def)
  have "u \<in> set (queues (rt_c q) ! i)" using R' by simp
  then have "u \<in> rt_waiting (rt_c q)" using i rt_waiting_iff [OF l] by blast
  then have "u \<noteq> r" using rt_ops.idle_not_waiting [of s "rt_c q" r] R' by blast
  then have su: "s2 u = s u" using 2(14) by blast
  define c where "c = (rt_c q2)\<lparr>used_ns := w3, rt_period_start := p3\<rparr>"
  have c: "rt_inv s2 c" "u \<in> set (queues c ! i)" using 2(8) lev(1) by (simp_all add: c_def)
  note T = rt_taken_ok [OF c(1) i c(2)]
  have "rt_inv s3 (rt_c q3)" using rt_frame [OF T(1), of s3] T(2) 3(6) by (auto simp: s3_def c_def upd_def)
  moreover have "queues (rt_c q3) ! i = us @ [r]" "\<forall>j. i < j \<longrightarrow> j < RT_PRIO_LEVELS \<longrightarrow> queues (rt_c q3) ! j = []" "\<not> rt_throttled (rt_c q3)"
    using 3(6) lev 2(10) rt_invD(1) [OF 2(8)] i by (simp_all add: rt_taken_def)
  moreover have u3: "s3 u = rr_refill (rt_c q2) (rt_untie (s u))" by (simp add: s3_def su)
  moreover have "idle_links (s3 u)" using T(3) unfolding u3 by (simp add: su rr_refill_def idle_links_def unlinked_def on_rt_def)
  moreover have "is_rr i (s u) \<longrightarrow> is_rr i (s3 u)" unfolding u3 by (simp add: is_rr_def rr_refill_def rt_untie_def on_rt_def sched_class_of_def)
  ultimately have "is_rr i (s u) \<longrightarrow> rr_at s3 q3 u i (us @ [r])" using 3(2,3,4) dl2 i by (simp add: rr_at_def)
  moreover have "rr_left_ns (rt (s u)) \<le> rr_slice_ns (rt_c q) \<longrightarrow> rr_left_ns (rt (s3 u)) \<le> rr_slice_ns (rt_c q)"
    unfolding u3 using 2(11) by (simp add: rr_refill_def rt_untie_def on_rt_def)
  moreover have "\<forall>x. x \<noteq> r \<longrightarrow> x \<noteq> u \<longrightarrow> s3 x = s x" using 2(14) by (simp add: s3_def)
  ultimately show thesis using that [OF turn 3(2)] 3(5,6,7) 2(7,11,12,13) by (simp add: clock_advance_def rt_taken_def)
qed

text \<open>Tick times that lie at least \<open>g\<close> apart.\<close>

fun spaced :: "nat \<Rightarrow> nat \<Rightarrow> nat list \<Rightarrow> bool" where
  "spaced g from [] = True"
| "spaced g from (n # ns) = (from + g \<le> n \<and> spaced g n ns)"

lemma spaced_last: "spaced g from ns \<Longrightarrow> from \<le> last (from # ns)"
  by (induction g "from" ns rule: spaced.induct) (auto simp: split: if_splits)

text \<open>
  C8. Round robin is fair within a priority level. A task behind \<open>n\<close> round-robin tasks of the same level, with
  nothing above the level on the run queue, runs after \<open>n + 1\<close> slice-long ticks: each tick finds the slice of
  the runner used up, asks for a switch, puts the runner at the end of its level and takes the first waiter.
  The ticks must fit into the realtime budget, beyond which the whole class is throttled.\<close>

theorem rr_waiter_runs:
  assumes "rr_at s q r i (ahead @ t # behind)" "\<forall>u \<in> set (r # ahead). is_rr i (s u) \<and> rr_left_ns (rt (s u)) \<le> rr_slice_ns (rt_c q)"
    and "length nows = Suc (length ahead)" "spaced (max 1 (rr_slice_ns (rt_c q))) (last_ns (clock q)) nows"
    and "used_ns (rt_c q) + (last nows - last_ns (clock q)) < rt_runtime_ns (rt_c q)"
  shows "\<exists>s' q'. tick_turns (s, q) nows = Some (s', q') \<and> cur q' = Some t"
  using assms
proof (induction ahead arbitrary: s q r behind nows)
  case Nil
  obtain n where n: "nows = [n]" using Nil.prems(3) by (cases nows) auto
  have e: "0 < n - last_ns (clock q)" "rr_left_ns (rt (s r)) \<le> n - last_ns (clock q)" using Nil.prems(2,4) n by auto
  have R: "rr_at s q r i (t # behind)" and b: "used_ns (rt_c q) + (n - last_ns (clock q)) < rt_runtime_ns (rt_c q)" using Nil.prems(1,5) n by simp_all
  obtain s' q' where "tick_turn (s, q) n = Some (s', q')" "cur q' = Some t" by (rule rr_turn [OF R refl e b])
  then show ?case using n by simp
next
  case (Cons u ahead)
  obtain n ns where n: "nows = n # ns" using Cons.prems(3) by (cases nows) auto
  then have ne: "ns \<noteq> []" using Cons.prems(3) by auto
  have e: "0 < n - last_ns (clock q)" "rr_left_ns (rt (s r)) \<le> n - last_ns (clock q)" using Cons.prems(2,4) n by auto
  have sp: "n \<le> last ns" "last_ns (clock q) \<le> n" using Cons.prems(4) n ne spaced_last [of _ n ns] by auto
  have R: "rr_at s q r i (u # (ahead @ t # behind))" using Cons.prems(1) by simp
  have b: "used_ns (rt_c q) + (n - last_ns (clock q)) < rt_runtime_ns (rt_c q)" using Cons.prems(5) n ne sp by auto
  obtain s' q' where 1: "tick_turn (s, q) n = Some (s', q')" "cur q' = Some u" "is_rr i (s u) \<longrightarrow> rr_at s' q' u i ((ahead @ t # behind) @ [r])"
    "last_ns (clock q') = n" "used_ns (rt_c q') \<le> used_ns (rt_c q) + (n - last_ns (clock q))" "rr_slice_ns (rt_c q') = rr_slice_ns (rt_c q)"
    "rt_runtime_ns (rt_c q') = rt_runtime_ns (rt_c q)" "\<forall>x. x \<noteq> r \<longrightarrow> x \<noteq> u \<longrightarrow> s' x = s x"
    "rr_left_ns (rt (s u)) \<le> rr_slice_ns (rt_c q) \<longrightarrow> rr_left_ns (rt (s' u)) \<le> rr_slice_ns (rt_c q)"
    by (rule rr_turn [OF R refl e b])
  have R1: "rr_at s' q' u i (ahead @ t # (behind @ [r]))" using 1(3) Cons.prems(2) by simp
  have d: "r \<notin> set ahead" "u \<notin> set ahead"
  proof -
    have "rt_inv s (rt_c q)" "idle_links (s r)" "i < RT_PRIO_LEVELS" "queues (rt_c q) ! i = u # (ahead @ t # behind)" using R by (simp_all add: rr_at_def)
    then show "u \<notin> set ahead" "r \<notin> set ahead"
      using rt_invD(2) [of s "rt_c q" i] rt_invD(3) [of s "rt_c q" i r] by (auto simp: rt_linked_def idle_links_def)
  qed
  have "\<forall>v \<in> set (u # ahead). is_rr i (s' v) \<and> rr_left_ns (rt (s' v)) \<le> rr_slice_ns (rt_c q')"
    using Cons.prems(2) 1(6,8,9) d R1 by (auto simp: rr_at_def)
  moreover have "length ns = Suc (length ahead)" "spaced (max 1 (rr_slice_ns (rt_c q'))) (last_ns (clock q')) ns" using Cons.prems(3,4) n 1(4,6) by simp_all
  moreover have "used_ns (rt_c q') + (last ns - last_ns (clock q')) < rt_runtime_ns (rt_c q')" using Cons.prems(5) n ne sp 1(4,5,7) by simp
  ultimately have "\<exists>s'' q''. tick_turns (s', q') ns = Some (s'', q'') \<and> cur q'' = Some t" by (rule Cons.IH [OF R1])
  then show ?case using 1(1) n by simp
qed

text \<open>Task 1 runs, tasks 2 and 3 wait at the same level.\<close>

definition rr_task :: sched_task where
  "rr_task = task_new_with_class demo_cfg CRt (rt_attr SRr 50)"

definition demo_rr_store :: store where
  "demo_rr_store = upd 3 (rt_tie (0, 49)) (upd 2 (rt_tie (0, 49)) (\<lambda>_. rr_task))"

definition demo_rr :: scheduler where
  "demo_rr = (scheduler_new demo_cfg 0 0 0)\<lparr>cur := Some 1, rt_c := rt_pushed (rt_pushed (rt_class_new demo_cfg 0) 49 2 False) 49 3 False\<rparr>"

lemmas rr_task_defs = rr_task_def task_new_with_class_def rt_attr_def

lemma demo_rr_ok: "rr_at demo_rr_store demo_rr 1 49 ([2] @ 3 # [])" "\<forall>u \<in> {1, 2}. is_rr 49 (demo_rr_store u) \<and> rr_left_ns (rt (demo_rr_store u)) \<le> 100000"
proof -
  let ?c = "rt_class_new demo_cfg 0" and ?s = "\<lambda>_. rr_task"
  have u: "unlinked rr_task" "rt_priority (attr rr_task) = Suc 49"
    by (simp_all add: rr_task_defs unlinked_def fair_entity_new_def deadline_entity_new_def)
  have c: "rt_self ?c = 0" by (simp add: rt_class_new_def)
  have 1: "rt_inv (upd 2 (rt_tie (0, 49)) ?s) (rt_pushed ?c 49 2 False)"
    by (rule enqueue_ready_ok(2) [OF rt_class_new_inv(1) _ _ _ _ refl]) (use u c in simp_all)
  have "rt_inv demo_rr_store (rt_pushed (rt_pushed ?c 49 2 False) 49 3 False)" unfolding demo_rr_store_def
    by (rule enqueue_ready_ok(2) [OF 1 _ _ _ _ refl]) (use u c in \<open>simp_all add: rt_pushed_def\<close>)
  then have 2: "rt_inv demo_rr_store (rt_c demo_rr)" by (simp add: demo_rr_def)
  have rr: "is_rr 49 rr_task" "idle_links rr_task" "rr_left_ns (rt rr_task) = 100000"
    using u by (simp_all add: is_rr_def rr_task_defs idle_links_def sched_class_of_def rt_entity_new_def default_rr_slice_ns_def us_to_ns_def demo_cfg_def)
  have q: "queues (rt_c demo_rr) = (replicate 99 [])[49 := [2, 3]]" "\<not> rt_throttled (rt_c demo_rr)"
    by (simp_all add: demo_rr_def rt_pushed_def rt_class_new_def)
  have j: "\<forall>j. 49 < j \<longrightarrow> j < 99 \<longrightarrow> queues (rt_c demo_rr) ! j = []" "queues (rt_c demo_rr) ! 49 = [2, 3]" unfolding q(1) by simp_all
  show "rr_at demo_rr_store demo_rr 1 49 ([2] @ 3 # [])"
    unfolding rr_at_def using 2 q(2) j rr
    by (simp add: demo_rr_store_def upd_def) (simp add: demo_rr_def scheduler_new_def deadline_class_new_def)
  show "\<forall>u \<in> {1, 2}. is_rr 49 (demo_rr_store u) \<and> rr_left_ns (rt (demo_rr_store u)) \<le> 100000"
    using rr by (simp add: demo_rr_store_def upd_def rt_tie_def is_rr_def sched_class_of_def)
qed

theorem rr_waiter_runs_witness: "\<exists>s' q'. tick_turns (demo_rr_store, demo_rr) [100000, 200000] = Some (s', q') \<and> cur q' = Some 3"
proof -
  have f: "rr_slice_ns (rt_c demo_rr) = 100000" "used_ns (rt_c demo_rr) = 0" "rt_runtime_ns (rt_c demo_rr) = 950000000" "last_ns (clock demo_rr) = 0"
    by (simp_all add: demo_rr_def rt_pushed_def rt_class_new_def scheduler_new_def clock_new_def demo_cfg_def default_rr_slice_ns_def
      default_rt_runtime_ns_def clamp_runtime_ns_def us_to_ns_def)
  show ?thesis by (rule rr_waiter_runs [OF demo_rr_ok(1)]) (use demo_rr_ok(2) f in simp_all)
qed

section \<open>Throttled work resumes\<close>

text \<open>Deadline tasks out of budget resume at their period start, the throttled realtime class at its period end.\<close>

definition due_at :: "store \<Rightarrow> scheduler \<Rightarrow> nat \<Rightarrow> bool" where
  "due_at s q due \<longleftrightarrow> (\<exists>t \<in> set (dl_throttled (deadline_c q)). period_start_ns (dl (s t)) = due)
     \<or> (rt_throttled (rt_c q) \<and> rt_waiting (rt_c q) \<noteq> {} \<and> rt_period_start (rt_c q) \<noteq> 0
        \<and> sat_add (rt_period_start (rt_c q)) (max (rt_period_ns (rt_c q)) 1) = due)"

lemma due_atE:
  assumes "due_at s q due"
  obtains (deadline) t where "t \<in> set (dl_throttled (deadline_c q))" "period_start_ns (dl (s t)) = due"
  | (realtime) "rt_throttled (rt_c q)" "rt_waiting (rt_c q) \<noteq> {}" "rt_period_start (rt_c q) \<noteq> 0"
      "sat_add (rt_period_start (rt_c q)) (max (rt_period_ns (rt_c q)) 1) = due"
  using assms unfolding due_at_def by blast

lemma not_due_stays:
  assumes "dl_inv s c" "t \<in> set (dl_throttled c)" "now < period_start_ns (dl (s t))" "dl_advance_loop n s c now = Some (s', c')"
  shows "t \<in> set (dl_throttled c') \<and> s' t = s t"
  using assms
proof (induction n arbitrary: s c)
  case (Suc n)
  obtain u us where u: "dl_throttled c = u # us" using Suc.prems(2) by (cases "dl_throttled c") auto
  show ?case
  proof (cases "period_start_ns (dl (s u)) \<le> now")
    case True
    obtain s1 c1 where 1: "dl_advance_loop (Suc n) s c now = dl_advance_loop n s1 c1 now" "dl_inv s1 c1" "touches u s s1" "dl_throttled c1 = us"
      using advance_round [OF Suc.prems(1) u True] by blast
    have "t \<noteq> u" using True Suc.prems(3) by auto
    then have "s1 t = s t" "t \<in> set (dl_throttled c1)" using touches_other [OF 1(3)] Suc.prems(2) u 1(4) by auto
    then show ?thesis using Suc.IH [OF 1(2)] Suc.prems(3,4) 1(1) by simp
  qed (use u Suc.prems in simp)
qed simp

text \<open>Charging a runner below the realtime class changes nothing but the runner after the classes advanced.\<close>

lemma charge_low:
  assumes inv: "sched_inv s q" and r: "cur q = Some r" "sched_class_of (s r) = CFair \<or> sched_class_of (s r) = CIdle"
    and k: "k = fst (clock_advance (clock q) now)"
  obtains s0 d s1 e where "dl_advance s (deadline_c q) (now_ns k) = Some (s0, d)"
    "charge s q now = Some (s1, q\<lparr>clock := k, deadline_c := d, rt_c := rt_advance (rt_c q) (now_ns k)\<rparr>, e)"
    "\<forall>x. x \<noteq> r \<longrightarrow> s1 x = s0 x" "sched_class_of (s1 r) = sched_class_of (s r)" "r \<notin> dl_waiting (deadline_c q)"
proof -
  have core: "sched_core s q" and l: "idle_links (s r)" using inv r(1) by (simp_all add: sched_inv_def runner_ok_def)
  obtain s0 d where d: "dl_advance s (deadline_c q) (now_ns k) = Some (s0, d)" "touches_in (set (dl_throttled (deadline_c q))) s s0"
    by (rule dl_advance_ok [OF core_parts(2) [OF core]])
  define q1 where "q1 = q\<lparr>clock := k, deadline_c := d, rt_c := rt_advance (rt_c q) (now_ns k)\<rparr>"
  have adv: "advance_classes s (q\<lparr>clock := k\<rparr>) = Some (s0, q1)" using d(1) by (simp add: advance_classes_def q1_def)
  have cls: "sched_class_of (s0 r) = sched_class_of (s r)" using touches_inD(2) [OF d(2)] .
  have wf: "task_wf (s0 r)" using touches_inD(4) [OF d(2)] core_parts(5) [OF core] by simp
  define e where "e = snd (clock_advance (clock q) now)"
  define s2 where "s2 = (if sched_class_of (s0 r) \<noteq> CIdle \<and> e \<noteq> 0 then upd r (account_runtime e) s0 else s0)"
  have s2: "\<forall>x. x \<noteq> r \<longrightarrow> s2 x = s0 x" "sched_class_of (s2 r) = sched_class_of (s r)" "task_wf (s2 r)"
    using cls wf by (simp_all add: s2_def account_runtime_def sched_class_of_def task_wf_def)
  have ch: "charge s q now = class_account s2 q1 (sched_class_of (s0 r)) r e"
    using adv r(1) by (simp add: charge_def case_prod_beta e_def k s2_def q1_def Let_def)
  have out: "r \<notin> dl_waiting (deadline_c q)" using core_idle_out [OF core l, of CDeadline] by simp
  show thesis
  proof (cases "sched_class_of (s0 r) = CFair")
    case True
    obtain s3 b where f: "fair_account s2 (fair_c q1) r e = (s3, b)" by fastforce
    have "touches r s2 s3" using fair_account_touch(1) [of s2 r, OF s2(3), of "fair_c q1" e] f by simp
    then have "\<forall>x. x \<noteq> r \<longrightarrow> s3 x = s0 x" "sched_class_of (s3 r) = sched_class_of (s r)"
      using s2 touches_other [of r s2 s3] touches_class [of r s2 s3] by auto
    then show ?thesis using that [OF d(1), of s3 b] ch True f out by (simp add: class_account_def q1_def)
  next
    case False
    then have "sched_class_of (s0 r) = CIdle" using cls r(2) by auto
    then show ?thesis using that [OF d(1), of s2 False] ch s2(1,2) out by (simp add: class_account_def q1_def)
  qed
qed

lemma foldl_min_with:
  assumes "c \<in> set cs" "f c = Some v"
  shows "\<exists>n. foldl (\<lambda>acc c. min_with acc (f c)) a cs = Some n \<and> n \<le> v"
proof -
  have mono: "\<exists>n. foldl (\<lambda>acc c. min_with acc (f c)) (Some m) cs = Some n \<and> n \<le> m" for cs and m :: nat
  proof (induction cs arbitrary: m)
    case (Cons c cs)
    obtain m' where "min_with (Some m) (f c) = Some m'" "m' \<le> m" by (cases "f c") (simp_all add: min_with_def)
    then show ?case using Cons [of m'] by fastforce
  qed simp
  show ?thesis using assms
  proof (induction cs arbitrary: a)
    case (Cons d ds)
    show ?case
    proof (cases "d = c")
      case True
      obtain m where "min_with a (f d) = Some m" "m \<le> v" using True Cons.prems(2) by (cases a) (simp_all add: min_with_def)
      then show ?thesis using mono [of m ds] by fastforce
    qed (use Cons in simp)
  qed simp
qed

lemma next_event_before:
  assumes "cur q = Some r" "class_timer_ns s q c = Some v" "compute_next_event s q = Some ne"
  shows "\<exists>n. ne = Some n \<and> n \<le> v"
proof (cases "higher_class_runnable q (sched_class_of (s r))")
  case False
  obtain w where w: "class_curr_timer_ns s q (sched_class_of (s r)) r = Some w" using assms(1,3) False
    by (auto simp: compute_next_event_def Let_def bind_eq_Some_conv)
  have "c \<in> set by_rank" by (cases c) (simp_all add: by_rank_def)
  from foldl_min_with [OF this, of "class_timer_ns s q" v "min_with None w"] show ?thesis
    using assms w False by (auto simp: compute_next_event_def Let_def)
qed (use assms in \<open>auto simp: compute_next_event_def Let_def\<close>)

lemma due_timer:
  assumes inv: "dl_inv s (deadline_c q)" and due: "due_at s q due" "now_ns (clock q) \<le> due"
  shows "\<exists>c v. class_timer_ns s q c = Some v \<and> now_ns (clock q) + v \<le> due"
  using due(1)
proof (cases rule: due_atE)
  case (deadline t)
  note t = deadline
  obtain f fs where f: "dl_throttled (deadline_c q) = f # fs" using t(1) by (cases "dl_throttled (deadline_c q)") auto
  have "throttled_key s f \<le> throttled_key s t" using front_least [OF dl_invD(2) [OF inv], of f t] t(1) f by simp
  then have "period_start_ns (dl (s f)) \<le> due" using t(2) by (auto simp: throttled_key_def less_eq_prod_def)
  then have "\<exists>v. class_timer_ns s q CDeadline = Some v \<and> v \<le> due - now_ns (clock q)"
    using f by (cases "dl_ready (deadline_c q)") (auto simp: class_timer_ns_def dl_class_timer_ns_def front_def)
  then show ?thesis using due(2) by fastforce
next
  case realtime
  then have "\<exists>v. class_timer_ns s q CRt = Some v \<and> v \<le> due - now_ns (clock q)"
    by (auto simp: class_timer_ns_def rt_class_timer_ns_def sat_add_def)
  then show ?thesis using due(2) by fastforce
qed

text \<open>An update before the due time leaves it due and arms the timer for it.\<close>

lemma update_before_due:
  assumes inv: "sched_inv s q" and r: "cur q = Some r" "sched_class_of (s r) = CFair \<or> sched_class_of (s r) = CIdle"
    and due: "due_at s q due" and now: "now_ns (clock q) \<le> now" "now < due"
  obtains s1 q1 d n where "sched_update s q now kind = Some (s1, q1, d)" "next_event_ns d = Some n" "now + n \<le> due" "sched_inv s1 q1"
    "cur q1 = Some r" "sched_class_of (s1 r) = sched_class_of (s r)" "due_at s1 q1 due" "now_ns (clock q1) = now"
proof -
  define k where "k = fst (clock_advance (clock q) now)"
  have kn: "now_ns k = now" using now(1) by (simp add: k_def clock_advance_def max_absorb1)
  obtain s0 d s1 e where 1: "dl_advance s (deadline_c q) (now_ns k) = Some (s0, d)"
    "charge s q now = Some (s1, q\<lparr>clock := k, deadline_c := d, rt_c := rt_advance (rt_c q) (now_ns k)\<rparr>, e)"
    "\<forall>x. x \<noteq> r \<longrightarrow> s1 x = s0 x" "sched_class_of (s1 r) = sched_class_of (s r)" "r \<notin> dl_waiting (deadline_c q)"
    by (rule charge_low [OF inv r k_def])
  define q1 where "q1 = q\<lparr>clock := k, deadline_c := d, rt_c := rt_advance (rt_c q) (now_ns k)\<rparr>"
  obtain s' q' D where u: "sched_update s q now kind = Some (s', q', D)" "sched_inv s' q'"
    using sched_update_ok [OF inv, of now kind] unfolding ends_with_def by blast
  then have eq: "s' = s1" "q' = q1" "compute_next_event s1 q1 = Some (next_event_ns D)"
    using 1(2) by (auto simp: sched_update_def q1_def bind_eq_Some_conv)
  have inv1: "sched_inv s1 q1" using u(2) eq by simp
  have dli: "dl_inv s (deadline_c q)" "dl_inv s1 (deadline_c q1)" using inv inv1 core_parts(2) by (auto simp: sched_inv_def)
  have due1: "due_at s1 q1 due" using due
  proof (cases rule: due_atE)
    case (deadline t)
    note t = deadline
    have "t \<in> set (dl_throttled d)" "s0 t = s t"
      using not_due_stays [OF dli(1) t(1)] t(2) now(2) 1(1) kn unfolding dl_advance_def by auto
    moreover have "s1 t = s0 t" using 1(3,5) t(1) by (auto simp: dl_waiting_def)
    ultimately have "\<exists>t \<in> set (dl_throttled (deadline_c q1)). period_start_ns (dl (s1 t)) = due"
      using t(2) by (intro bexI [of _ t]) (simp_all add: q1_def)
    then show ?thesis unfolding due_at_def by blast
  next
    case realtime
    then show ?thesis using now(2) kn by (simp add: due_at_def q1_def rt_advance_def)
  qed
  have c1: "now_ns (clock q1) = now" "cur q1 = Some r" using kn r(1) by (simp_all add: q1_def)
  obtain c v where v: "class_timer_ns s1 q1 c = Some v" "now + v \<le> due" using due_timer [OF dli(2) due1] c1(1) now(2) by auto
  obtain n where "next_event_ns D = Some n" "n \<le> v" using next_event_before [OF c1(2) v(1) eq(3)] by blast
  then show thesis using that [OF u(1)] eq(1,2) v(2) inv1 c1 1(4) due1 by auto
qed

text \<open>An update at the due time or later asks for a switch.\<close>

lemma update_when_due:
  assumes inv: "sched_inv s q" and r: "cur q = Some r" "sched_class_of (s r) = CFair \<or> sched_class_of (s r) = CIdle"
    and due: "due_at s q due" "due \<le> now"
  shows "\<exists>s1 q1 d. sched_update s q now kind = Some (s1, q1, d) \<and> resched d"
proof -
  define k where "k = fst (clock_advance (clock q) now)"
  have kn: "due \<le> now_ns k" using due(2) by (simp add: k_def clock_advance_def)
  obtain s0 d s1 e where 1: "dl_advance s (deadline_c q) (now_ns k) = Some (s0, d)"
    "charge s q now = Some (s1, q\<lparr>clock := k, deadline_c := d, rt_c := rt_advance (rt_c q) (now_ns k)\<rparr>, e)"
    "\<forall>x. x \<noteq> r \<longrightarrow> s1 x = s0 x" "sched_class_of (s1 r) = sched_class_of (s r)"
    by (rule charge_low [OF inv r k_def])
  define q1 where "q1 = q\<lparr>clock := k, deadline_c := d, rt_c := rt_advance (rt_c q) (now_ns k)\<rparr>"
  have core: "sched_core s q" using inv by (simp add: sched_inv_def)
  have "class_has_runnable q1 CDeadline \<or> class_has_runnable q1 CRt" using due(1)
  proof (cases rule: due_atE)
    case (deadline t)
    note t = deadline
    obtain s0' d' where "dl_advance s (deadline_c q) (now_ns k) = Some (s0', d')" "dl_waiting d' = dl_waiting (deadline_c q)"
      "\<forall>x \<in> set (dl_throttled d'). s0' x = s x" "\<forall>x \<in> set (dl_throttled d'). now_ns k < period_start_ns (dl (s0' x))"
      by (rule dl_advance_ok [OF core_parts(2) [OF core]])
    then have "t \<in> set (dl_ready d)" using 1(1) t kn unfolding dl_waiting_def by fastforce
    then show ?thesis by (auto simp: class_has_runnable_def dl_has_runnable_def q1_def)
  next
    case realtime
    then have "\<not> rt_throttled (rt_c q1)" "occupied (rt_c q1) = occupied (rt_c q)" using kn by (simp_all add: q1_def rt_advance_def Let_def)
    moreover have "occupied (rt_c q) \<noteq> 0" using realtime(2) highest_ready_prio_spec(1) [OF core_parts(3) [OF core]] by (auto simp: highest_ready_prio_def)
    ultimately show ?thesis by (simp add: class_has_runnable_def rt_has_runnable_def)
  qed
  then have "higher_class_runnable q1 (sched_class_of (s1 r))"
    using 1(4) r(2) by (auto simp: higher_class_runnable_def by_rank_def is_above_def class_as_u8_def)
  moreover have "cur q1 = Some r" using r(1) by (simp add: q1_def)
  ultimately have "resched_needed s1 q1 kind e = Some True" by (simp add: resched_needed_def Let_def)
  moreover obtain n where "compute_next_event s1 q1 = Some n" using next_event_total by blast
  ultimately show ?thesis using 1(2) by (simp add: sched_update_def q1_def)
qed

text \<open>
  C9. Throttled work comes back in time. While a fair task or the idle task runs and a deadline task waits
  for its next period, or realtime tasks wait for the end of a throttled period, every update asks for a
  timer event no later than the moment the work is due, the work stays due, and the first update at or after
  that moment asks for a switch.\<close>

theorem throttled_work_resumes:
  assumes "sched_inv s q" "cur q = Some r" "sched_class_of (s r) = CFair \<or> sched_class_of (s r) = CIdle"
    and "due_at s q due" "now_ns (clock q) \<le> now" "now < due"
  shows "\<exists>s1 q1 d n. sched_update s q now kind = Some (s1, q1, d) \<and> next_event_ns d = Some n \<and> now + n \<le> due \<and> due_at s1 q1 due
    \<and> (\<forall>later kind'. due \<le> later \<longrightarrow> (\<exists>s2 q2 d2. sched_update s1 q1 later kind' = Some (s2, q2, d2) \<and> resched d2))"
proof -
  obtain s1 q1 d n where 1: "sched_update s q now kind = Some (s1, q1, d)" "next_event_ns d = Some n" "now + n \<le> due" "sched_inv s1 q1"
    "cur q1 = Some r" "sched_class_of (s1 r) = sched_class_of (s r)" "due_at s1 q1 due" "now_ns (clock q1) = now"
    by (rule update_before_due [OF assms])
  have "\<exists>s2 q2 d2. sched_update s1 q1 later kind' = Some (s2, q2, d2) \<and> resched d2" if "due \<le> later" for later kind'
    using update_when_due [OF 1(4,5) _ 1(7) that] 1(6) assms(3) by simp
  then show ?thesis using 1(1,2,3,7) by blast
qed

text \<open>The idle task runs while a realtime task waits for the end of a throttled period.\<close>

definition demo_throttled_store :: store where
  "demo_throttled_store = upd 2 (rt_tie (0, 49)) (demo_store(2 := rr_task))"

definition demo_throttled :: scheduler where
  "demo_throttled = (scheduler_new demo_cfg 0 0 0)\<lparr>cur := Some 0,
     rt_c := (rt_pushed (rt_class_new demo_cfg 0) 49 2 False)\<lparr>rt_throttled := True, rt_period_start := 1\<rparr>\<rparr>"

lemma demo_throttled_ok: "sched_inv demo_throttled_store demo_throttled" "due_at demo_throttled_store demo_throttled 1000000001"
proof -
  let ?c = "rt_class_new demo_cfg 0" and ?s = "demo_store(2 := rr_task)"
  have u: "unlinked (?s 2)" "rt_priority (attr (?s 2)) = Suc 49" "rt_self ?c = 0"
    by (simp_all add: rr_task_defs unlinked_def fair_entity_new_def deadline_entity_new_def rt_class_new_def)
  have E: "rt_inv demo_throttled_store (rt_pushed ?c 49 2 False)" "rt_waiting (rt_pushed ?c 49 2 False) = insert 2 (rt_waiting ?c)"
    "touches 2 ?s demo_throttled_store"
    using enqueue_ready_ok(2-4) [of ?s ?c 2 49 demo_throttled_store _ False, OF rt_class_new_inv(1) u(1,2) _ _ refl] u(3)
    by (simp_all add: demo_throttled_store_def)
  have w: "waiting_in demo_throttled c = (if c = CRt then {2} else {})" for c
    using E(2) by (cases c) (simp_all add: demo_throttled_def scheduler_new_def deadline_class_new_inv rt_class_new_inv fair_class_new_inv)
  have i: "class_inv demo_throttled_store demo_throttled c" for c
    using E(1) by (cases c) (simp_all add: demo_throttled_def scheduler_new_def stop_inv_def deadline_class_new_inv fair_class_new_inv)
  have "task_wf rr_task"
    by (simp add: rr_task_defs task_wf_def fair_entity_new_def demo_weight i64_range_def sched_class_of_def attr_class_def policy_class_def)
  then have "task_wf (demo_throttled_store x)" for x
    using demo_store_ok(1) touches_wf [OF E(3), of x] by simp
  moreover have "sched_class_of (demo_throttled_store 2) = CRt" "demo_throttled_store 0 = demo_store 0"
    by (simp_all add: demo_throttled_store_def rt_tie_def rr_task_defs sched_class_of_def)
  ultimately show "sched_inv demo_throttled_store demo_throttled" using i w demo_store_ok
    by (simp add: sched_inv_def sched_core_def runner_ok_def) (simp add: demo_throttled_def scheduler_new_def)
  have "rt_period_ns (rt_c demo_throttled) = 1000000000" "rt_period_start (rt_c demo_throttled) = 1" "rt_throttled (rt_c demo_throttled)"
    by (simp_all add: demo_throttled_def rt_pushed_def rt_class_new_def default_rt_period_ns_def us_to_ns_def demo_cfg_def)
  then show "due_at demo_throttled_store demo_throttled 1000000001" using w [of CRt] by (simp add: due_at_def sat_add_def)
qed

theorem throttled_work_resumes_witness:
  "\<exists>s1 q1 d n. sched_update demo_throttled_store demo_throttled 5 USchedTick = Some (s1, q1, d) \<and> next_event_ns d = Some n \<and> 5 + n \<le> 1000000001"
proof -
  have "cur demo_throttled = Some 0" "now_ns (clock demo_throttled) \<le> 5"
    by (simp_all add: demo_throttled_def scheduler_new_def clock_new_def)
  moreover have "sched_class_of (demo_throttled_store 0) = CFair \<or> sched_class_of (demo_throttled_store 0) = CIdle"
    using demo_store_ok(2) by (simp add: demo_throttled_store_def)
  ultimately show ?thesis using throttled_work_resumes [OF demo_throttled_ok(1) _ _ demo_throttled_ok(2), of 0 5 USchedTick] by auto
qed

end
