(* ===== verification/SchedGaps.thy ===== *)
theory SchedGaps
  imports SchedLive
begin

text \<open>
  Two guarantees the deadline class documents and does not keep: a task that is out of budget is throttled,
  and the reservations of the tasks on a run queue stay within the admission limit.
\<close>

section \<open>Running without a budget\<close>

fun tick_updates :: "store \<times> scheduler \<Rightarrow> nat list \<Rightarrow> (store \<times> scheduler \<times> bool list) option" where
  "tick_updates (s, q) [] = Some (s, q, [])"
| "tick_updates (s, q) (now # nows) = do {
     (s, q, d) \<leftarrow> sched_update s q now USchedTick;
     (s, q, rs) \<leftarrow> tick_updates (s, q) nows;
     Some (s, q, resched d # rs)
   }"

lemma charge_deadline:
  assumes inv: "sched_inv s q" and r: "cur q = Some r" "sched_class_of (s r) = CDeadline" and e: "e = now - last_ns (clock q)"
  obtains s1 q1 where "charge s q now = Some (s1, q1, 0 < e \<and> 0 < budget_left_ns (dl (s r)) \<and> budget_left_ns (dl (s r)) \<le> e)"
    "cur q1 = Some r" "stop_c q1 = stop_c q" "sched_class_of (s1 r) = CDeadline" "attr (s1 r) = attr (s r)"
    "budget_left_ns (dl (s1 r)) = budget_left_ns (dl (s r)) - e"
    "is_throttled (dl (s1 r)) = (is_throttled (dl (s r)) \<or> 0 < e \<and> 0 < budget_left_ns (dl (s r)) \<and> budget_left_ns (dl (s r)) \<le> e)"
    "sum_exec_runtime_ns (s1 r) = min (sum_exec_runtime_ns (s r) + e) (if e = 0 then sum_exec_runtime_ns (s r) else U64_MAX)"
proof -
  have core: "sched_core s q" and l: "idle_links (s r)" using inv r(1) by (simp_all add: sched_inv_def runner_ok_def)
  define q0 where "q0 = q\<lparr>clock := fst (clock_advance (clock q) now)\<rparr>"
  have "sched_core s q0" using core by (simp add: q0_def)
  then obtain s0 q1 where 1: "advance_classes s q0 = Some (s0, q1)" "touches_in (set (dl_throttled (deadline_c q0))) s s0" "cur q1 = cur q0" "stop_c q1 = stop_c q0"
    using advance_classes_ok by blast
  have "r \<notin> dl_waiting (deadline_c q)" using core_idle_out [OF core l, of CDeadline] by simp
  then have s0: "s0 r = s r" using touches_inD(1) [OF 1(2)] by (simp add: q0_def dl_waiting_def)
  define s1 where "s1 = (if e \<noteq> 0 then upd r (account_runtime e) s0 else s0)"
  have s1: "dl (s1 r) = dl (s r)" "sched_class_of (s1 r) = CDeadline" "attr (s1 r) = attr (s r)"
    "sum_exec_runtime_ns (s1 r) = min (sum_exec_runtime_ns (s r) + e) (if e = 0 then sum_exec_runtime_ns (s r) else U64_MAX)"
    using s0 r(2) by (simp_all add: s1_def account_runtime_def sched_class_of_def sat_add_def)
  obtain s2 b where 2: "dl_account s1 r e = (s2, b)" by fastforce
  have "snd (clock_advance (clock q) now) = e" using e by (simp add: clock_advance_def)
  then have "charge s q now = class_account s1 q1 CDeadline r e"
    using 1(1,3) r s0 by (simp add: charge_def case_prod_beta q0_def Let_def s1_def)
  then have ch: "charge s q now = Some (s2, q1, b)" using 2 by (simp add: class_account_def)
  have "b = (0 < e \<and> 0 < budget_left_ns (dl (s r)) \<and> budget_left_ns (dl (s r)) \<le> e)" "budget_left_ns (dl (s2 r)) = budget_left_ns (dl (s r)) - e"
    "is_throttled (dl (s2 r)) = (is_throttled (dl (s r)) \<or> b)" "sched_class_of (s2 r) = CDeadline" "attr (s2 r) = attr (s r)"
    "sum_exec_runtime_ns (s2 r) = sum_exec_runtime_ns (s1 r)"
    using 2 s1 by (auto simp: dl_account_def Let_def on_dl_def sched_class_of_def split: if_splits)
  then show thesis using that ch s1(4) 1(3,4) r(1) by (auto simp: q0_def)
qed

text \<open>A deadline task that runs with no budget and is not marked throttled.\<close>

definition overruns :: "store \<Rightarrow> scheduler \<Rightarrow> task_ref \<Rightarrow> bool" where
  "overruns s q r \<longleftrightarrow> sched_inv s q \<and> cur q = Some r \<and> sched_class_of (s r) = CDeadline \<and> stop_c q = None
     \<and> budget_left_ns (dl (s r)) = 0 \<and> \<not> is_throttled (dl (s r))"

lemma overruns_tick:
  assumes o: "overruns s q r"
  obtains s1 q1 d where "sched_update s q now USchedTick = Some (s1, q1, d)" "\<not> resched d" "overruns s1 q1 r"
proof -
  note o' = o [unfolded overruns_def]
  have inv: "sched_inv s q" and r: "cur q = Some r" "sched_class_of (s r) = CDeadline" using o' by simp_all
  obtain s1 q1 where 1: "charge s q now = Some (s1, q1, False)" "cur q1 = Some r" "stop_c q1 = None" "sched_class_of (s1 r) = CDeadline"
    "budget_left_ns (dl (s1 r)) = 0" "\<not> is_throttled (dl (s1 r))"
    by (rule charge_deadline [OF inv r refl]) (use o' in simp)
  have rs: "resched_needed s1 q1 USchedTick False = Some False"
    using 1 by (simp add: resched_needed_def higher_class_runnable_def by_rank_def is_above_def class_as_u8_def class_has_runnable_def
      stop_has_runnable_def class_tick_preempts_def dl_tick_preempts_def)
  obtain n where n: "compute_next_event s1 q1 = Some n" using next_event_total by blast
  have u: "sched_update s q now USchedTick = Some (s1, q1, \<lparr>resched = False, next_event_ns = n\<rparr>)" using 1(1) rs n by (simp add: sched_update_def)
  then have "sched_inv s1 q1" using sched_update_ok [OF inv, of now USchedTick] by (auto simp: ends_with_def)
  then show thesis using that [OF u] 1 by (simp add: overruns_def)
qed

lemma overruns_ticks:
  "overruns s q r \<Longrightarrow> \<exists>s' q'. tick_updates (s, q) nows = Some (s', q', replicate (length nows) False) \<and> overruns s' q' r"
proof (induction nows arbitrary: s q)
  case (Cons now nows)
  obtain s1 q1 d where 1: "sched_update s q now USchedTick = Some (s1, q1, d)" "\<not> resched d" "overruns s1 q1 r" by (rule overruns_tick [OF Cons.prems])
  obtain s' q' where "tick_updates (s1, q1) nows = Some (s', q', replicate (length nows) False)" "overruns s' q' r" using Cons.IH [OF 1(3)] by blast
  then show ?case using 1(1,2) by simp
qed simp

text \<open>
  C16. A deadline task escapes its budget by asking for its own parameters. When the running task calls
  \<open>set_attr\<close> with a deadline policy while the time since the last account covers what is left of its budget,
  the account inside \<open>set_attr\<close> uses the budget up and marks the task throttled, the result of the account is
  dropped, and \<open>attr_changed\<close> clears the mark without refilling the budget. From then on an account does
  nothing: over any number of ticks the task keeps the processor, no tick asks for a switch, and its budget
  stays 0, unless a stop task arrives.\<close>

theorem set_attr_escapes_budget:
  assumes "sched_inv s q" "cur q = Some r" "sched_class_of (s r) = CDeadline" "stop_c q = None"
    and "budget_left_ns (dl (s r)) \<le> now - last_ns (clock q)" "attr_class a = CDeadline" "-20 \<le> nice a" "nice a \<le> 19"
    and "sched_used q + 2 < 2 ^ 64" "sched_set_attr cfg s q r a now = Some (s1, q1, Inr d)"
  shows "\<forall>nows. \<exists>s2 q2. tick_updates (s1, q1) nows = Some (s2, q2, replicate (length nows) False) \<and> cur q2 = Some r
    \<and> budget_left_ns (dl (s2 r)) = 0 \<and> \<not> is_throttled (dl (s2 r))"
proof -
  define e where "e = now - last_ns (clock q)"
  obtain s0 q0 b where 1: "charge s q now = Some (s0, q0, b)" "cur q0 = Some r" "stop_c q0 = None" "sched_class_of (s0 r) = CDeadline"
    "attr (s0 r) = attr (s r)" "budget_left_ns (dl (s0 r)) = 0"
    by (rule charge_deadline [OF assms(1,2,3) e_def]) (use assms(4,5) in \<open>simp add: e_def\<close>)
  have l: "idle_links (s r)" using assms(1,2) by (simp add: sched_inv_def runner_ok_def)
  have "attr_class (attr (s r)) = CDeadline" using assms(1,3) sched_coreD(3) [of s q r] by (auto simp: sched_inv_def task_wf_def is_kernel_only_def)
  moreover have "attr_validate cfg a = Inr ()" using assms(10) by (cases "attr_validate cfg a") (simp_all add: sched_set_attr_def)
  moreover have "class_can_admit cfg s0 q0 CDeadline r a = Inr ()"
    using assms(3,6,10) 1 calculation by (cases "class_can_admit cfg s0 q0 CDeadline r a") (simp_all add: sched_set_attr_def is_kernel_only_def Let_def)
  ultimately have "s1 = fst (dl_attr_changed (upd r (task_set_attr a) s0) (deadline_c q0) r True)"
    "q1 = q0\<lparr>deadline_c := snd (dl_attr_changed (upd r (task_set_attr a) s0) (deadline_c q0) r True)\<rparr>"
    using assms(3,6,10) 1
    by (auto simp: sched_set_attr_def is_kernel_only_def Let_def class_attr_changed_def bind_eq_Some_conv case_prod_beta)
  then have "cur q1 = Some r" "stop_c q1 = None" "sched_class_of (s1 r) = CDeadline" "budget_left_ns (dl (s1 r)) = 0" "\<not> is_throttled (dl (s1 r))"
    using 1 by (simp_all add: dl_attr_changed_def Let_def on_dl_def task_set_attr_def store_rt_prio_def sched_class_of_def)
  moreover have "sched_inv s1 q1" using sched_set_attr_ok [OF assms(1) _ assms(7,8,9), of r cfg now] l assms(10) by (auto simp: ends_with_def)
  ultimately have "overruns s1 q1 r" by (simp add: overruns_def)
  then show ?thesis using overruns_ticks by (fastforce simp: overruns_def)
qed

text \<open>A deadline task with half of its budget left runs.\<close>

definition dl_attr :: "nat \<Rightarrow> nat \<Rightarrow> sched_attr" where
  "dl_attr run period = \<lparr>policy = SDeadline, nice = 0, rt_priority = 0, dl_params = Some \<lparr>runtime_ns = run, rel_deadline_ns = period, period_ns = period\<rparr>\<rparr>"

definition demo_dl_store :: store where
  "demo_dl_store = demo_store(1 := on_dl (\<lambda>e. e\<lparr>budget_left_ns := 50000, deadline_ns := 1000000, period_start_ns := 1000000, is_active := True\<rparr>)
     (task_new_with_class demo_cfg CDeadline (dl_attr 100000 1000000)))"

definition demo_dl :: scheduler where
  "demo_dl = (scheduler_new demo_cfg 0 0 0)\<lparr>cur := Some 1, deadline_c := deadline_class_new\<lparr>running := Some \<lparr>runner_id = 0, runner_ppm = 100000\<rparr>\<rparr>\<rparr>"

lemma demo_dl_ok: "sched_inv demo_dl_store demo_dl" "sched_class_of (demo_dl_store 1) = CDeadline" "sched_used demo_dl = 0"
proof -
  have w: "waiting_in demo_dl c = {}" for c
    by (cases c) (simp_all add: demo_dl_def scheduler_new_def dl_waiting_def deadline_class_new_def rt_class_new_inv fair_class_new_inv)
  have "class_inv demo_dl_store demo_dl c" for c
    by (cases c) (simp_all add: demo_dl_def scheduler_new_def stop_inv_def dl_inv_def deadline_class_new_def ordered_def rt_class_new_inv fair_class_new_inv)
  moreover show c: "sched_class_of (demo_dl_store 1) = CDeadline"
    by (simp add: demo_dl_store_def on_dl_def task_new_with_class_def sched_class_of_def)
  moreover have "task_wf (demo_dl_store x)" for x
  proof (cases "x = 1")
    case True
    then show ?thesis using c
      by (simp add: demo_dl_store_def on_dl_def task_new_with_class_def task_wf_def fair_entity_new_def demo_weight i64_range_def dl_attr_def
        attr_class_def policy_class_def)
  qed (use demo_store_ok(1) in \<open>simp add: demo_dl_store_def\<close>)
  moreover have "idle_links (demo_dl_store 1)"
    by (simp add: demo_dl_store_def on_dl_def task_new_with_class_def idle_links_def unlinked_def fair_entity_new_def deadline_entity_new_def)
  moreover have "demo_dl_store 0 = demo_store 0" by (simp add: demo_dl_store_def)
  ultimately show "sched_inv demo_dl_store demo_dl" using w demo_store_ok
    by (simp add: sched_inv_def sched_core_def runner_ok_def) (simp add: demo_dl_def scheduler_new_def)
  show "sched_used demo_dl = 0" by (simp add: demo_dl_def scheduler_new_def sched_used_def dl_used_def deadline_class_new_def fair_class_new_def)
qed

lemma demo_dl_set_attr: "\<exists>s1 q1 d. sched_set_attr demo_cfg demo_dl_store demo_dl 1 (dl_attr 100000 1000000) 60000 = Some (s1, q1, Inr d)"
proof -
  let ?a = "dl_attr 100000 1000000" and ?s = demo_dl_store and ?q = demo_dl
  define k where "k = fst (clock_advance (clock ?q) 60000)"
  define q0 where "q0 = ?q\<lparr>clock := k, rt_c := rt_advance (rt_c ?q) (now_ns k)\<rparr>"
  have f: "clock ?q = clock_new 0" "cur ?q = Some 1" "deadline_c q0 = deadline_class_new\<lparr>running := Some \<lparr>runner_id = 0, runner_ppm = 100000\<rparr>\<rparr>"
    "dl_throttled (deadline_c ?q) = []" by (simp_all add: q0_def demo_dl_def scheduler_new_def deadline_class_new_def)
  have adv: "advance_classes ?s (?q\<lparr>clock := k\<rparr>) = Some (?s, q0)" using advance_no_deadlines [of "?q\<lparr>clock := k\<rparr>" ?s] f(4) by (simp add: q0_def)
  have e: "snd (clock_advance (clock ?q) 60000) = 60000" using f(1) by (simp add: clock_advance_def clock_new_def)
  define s0 where "s0 = fst (dl_account (upd 1 (account_runtime 60000) ?s) 1 60000)"
  have "cur q0 = Some 1" using f(2) by (simp add: q0_def)
  then have "charge ?s ?q 60000 = class_account (upd 1 (account_runtime 60000) ?s) q0 CDeadline 1 60000"
    using adv e demo_dl_ok(2) by (simp add: charge_def case_prod_beta k_def Let_def)
  then obtain b where ch: "charge ?s ?q 60000 = Some (s0, q0, b)" by (simp add: class_account_def s0_def case_prod_beta)
  have s0: "params (s0 1) = dl_params ?a" "seat (s0 1) = QDetached" "dl_tree_id (dl (s0 1)) = 0" "attr (s0 1) = ?a"
    by (simp_all add: s0_def dl_account_def Let_def demo_dl_store_def account_runtime_def on_dl_def task_new_with_class_def deadline_entity_new_def params_def)
  have ok: "attr_validate demo_cfg ?a = Inr ()" "class_can_admit demo_cfg s0 q0 CDeadline 1 ?a = Inr ()" "attr_class ?a = CDeadline"
    using s0 f(3) by (simp_all add: attr_validate_def dl_attr_def dl_params_new_def demo_cfg_def min_dl_runtime_ns_def us_to_ns_def class_can_admit_def
      dl_can_admit_def resident_load_ppm_def tree_load_ppm_def is_counted_def reserving_ppm_def load_ppm_def dl_bw_margin_ppm_def
      deadline_class_new_def sat_add_def attr_class_def policy_class_def)
  have l: "idle_links (?s 1)" using demo_dl_ok(1) f(2) by (simp add: sched_inv_def runner_ok_def)
  obtain s1 q1 r where r: "sched_set_attr demo_cfg ?s ?q 1 ?a 60000 = Some (s1, q1, r)"
    using sched_set_attr_ok [OF demo_dl_ok(1), of 1 ?a demo_cfg 60000] l demo_dl_ok(3) by (auto simp: dl_attr_def)
  then have "\<exists>d. r = Inr d" using ok ch demo_dl_ok(2) s0(4)
    by (auto simp: sched_set_attr_def is_kernel_only_def Let_def bind_eq_Some_conv)
  then show ?thesis using r by blast
qed

theorem set_attr_escapes_budget_witness:
  "\<exists>s1 q1 d s2 q2. sched_set_attr demo_cfg demo_dl_store demo_dl 1 (dl_attr 100000 1000000) 60000 = Some (s1, q1, Inr d)
     \<and> tick_updates (s1, q1) [70000, 900000000] = Some (s2, q2, [False, False]) \<and> budget_left_ns (dl (s2 1)) = 0"
proof -
  obtain s1 q1 d where 1: "sched_set_attr demo_cfg demo_dl_store demo_dl 1 (dl_attr 100000 1000000) 60000 = Some (s1, q1, Inr d)"
    using demo_dl_set_attr by blast
  have h: "cur demo_dl = Some 1" "stop_c demo_dl = None" "budget_left_ns (dl (demo_dl_store 1)) \<le> 60000 - last_ns (clock demo_dl)"
    "attr_class (dl_attr 100000 1000000) = CDeadline" "-20 \<le> nice (dl_attr 100000 1000000)" "nice (dl_attr 100000 1000000) \<le> 19" "sched_used demo_dl + 2 < 2 ^ 64"
    by (simp_all add: demo_dl_ok(3)) (simp_all add: demo_dl_def scheduler_new_def clock_new_def demo_dl_store_def on_dl_def dl_attr_def attr_class_def policy_class_def)
  from set_attr_escapes_budget [OF demo_dl_ok(1) h(1) demo_dl_ok(2) h(2-7) 1]
  obtain s2 q2 where "tick_updates (s1, q1) [70000, 900000000] = Some (s2, q2, replicate (length [70000::nat, 900000000]) False)" "budget_left_ns (dl (s2 1)) = 0" by blast
  then show ?thesis using 1 by auto
qed

section \<open>Admission of blocked tasks\<close>

text \<open>The tasks \<open>ts\<close> ask for the attributes \<open>a\<close>, none is refused; then they are woken.\<close>

fun admit_all :: "sched_config \<Rightarrow> sched_attr \<Rightarrow> nat \<Rightarrow> task_ref list \<Rightarrow> store \<times> scheduler \<Rightarrow> (store \<times> scheduler) option" where
  "admit_all cfg a now [] st = Some st"
| "admit_all cfg a now (t # ts) st = do {
     (s, q, r) \<leftarrow> sched_set_attr cfg (fst st) (snd st) t a now;
     (case r of Inl _ \<Rightarrow> None | Inr _ \<Rightarrow> admit_all cfg a now ts (s, q))
   }"

fun wake_all :: "nat \<Rightarrow> task_ref list \<Rightarrow> store \<times> scheduler \<Rightarrow> (store \<times> scheduler) option" where
  "wake_all now [] st = Some st"
| "wake_all now (t # ts) st = do { (s, q, _) \<leftarrow> sched_enqueue (fst st) (snd st) t (EWake False) now; wake_all now ts (s, q) }"

definition dl_unused :: "scheduler \<Rightarrow> bool" where
  "dl_unused q \<longleftrightarrow> cur q = None \<and> dl_throttled (deadline_c q) = [] \<and> running (deadline_c q) = None"

lemma charge_unused:
  assumes "dl_unused q"
  obtains q1 where "charge s q now = Some (s, q1, False)" "dl_unused q1" "deadline_c q1 = deadline_c q" "cur q1 = None"
proof -
  define q0 where "q0 = q\<lparr>clock := fst (clock_advance (clock q) now)\<rparr>"
  have "advance_classes s q0 = Some (s, q0\<lparr>rt_c := rt_advance (rt_c q0) (now_ns (clock q0))\<rparr>)"
    using assms by (intro advance_no_deadlines) (simp add: dl_unused_def q0_def)
  then have "charge s q now = Some (s, q0\<lparr>rt_c := rt_advance (rt_c q0) (now_ns (clock q0))\<rparr>, False)"
    using assms by (simp add: charge_def case_prod_beta q0_def dl_unused_def)
  then show thesis using that assms by (simp add: dl_unused_def q0_def)
qed

text \<open>A blocked task that holds a deadline reservation with budget left.\<close>

definition reserves :: "dl_params \<Rightarrow> sched_task \<Rightarrow> bool" where
  "reserves p x \<longleftrightarrow> sched_class_of x = CDeadline \<and> params x = Some p \<and> budget_left_ns (dl x) = runtime_ns p \<and> idle_links x"

lemma admit_one:
  assumes q: "dl_unused q" "dl_ready (deadline_c q) = []" and t: "sched_class_of (s t) = CFair" "attr_class (attr (s t)) = CFair" "idle_links (s t)"
    and a: "attr_validate cfg a = Inr ()" "attr_class a = CDeadline" "dl_params a = Some p" "load_ppm p \<le> 1000000 - dl_bw_margin_ppm cfg"
  obtains s' q' d where "sched_set_attr cfg s q t a now = Some (s', q', Inr d)" "\<forall>x. x \<noteq> t \<longrightarrow> s' x = s x" "reserves p (s' t)"
    "dl_unused q'" "dl_ready (deadline_c q') = []"
proof -
  obtain q1 where 1: "charge s q now = Some (s, q1, False)" "dl_unused q1" "deadline_c q1 = deadline_c q" "cur q1 = None" by (rule charge_unused [OF q(1)])
  have "resident_load_ppm s (deadline_c q1) = 0" "\<not> is_counted (deadline_c q1) (s t)"
    using 1(2,3) q(2) t(3) by (simp_all add: dl_unused_def resident_load_ppm_def tree_load_ppm_def sat_add_def is_counted_def idle_links_def)
  then have adm: "class_can_admit cfg s q1 CDeadline t a = Inr ()"
    using a(3,4) by (simp add: class_can_admit_def dl_can_admit_def sat_add_def min_def)
  define f where "f = (\<lambda>x. replenish (now_ns (clock q1)) (task_set_class CDeadline (task_set_attr a x)))"
  have ch: "change_class s q1 t (attr (s t)) a False = Some (upd t f s, q1)"
    using t a(2) by (cases q1) (simp add: change_class_def Let_def idle_links_def class_switched_from_def fair_switched_from_def
      class_switched_to_def dl_switched_to_def upd_upd comp_def f_def)
  obtain n where n: "compute_next_event (upd t f s) q1 = Some n" using next_event_total by blast
  have "sched_set_attr cfg s q t a now = Some (upd t f s, q1, Inr \<lparr>resched = True, next_event_ns = n\<rparr>)"
    using a(1,2) t(1,2) 1(1,4) adm ch n by (simp add: sched_set_attr_def is_kernel_only_def Let_def resched_needed_def)
  moreover have "params (task_set_class CDeadline (task_set_attr a x)) = Some p" for x
    using a(3) by (simp add: params_def task_set_class_def task_set_attr_def store_rt_prio_def)
  then have "reserves p (upd t f s t)" using t(3) a(3)
    by (simp add: reserves_def f_def replenish_def params_def on_dl_def task_set_class_def task_set_attr_def store_rt_prio_def sched_class_of_def
      idle_links_def unlinked_def)
  ultimately show thesis using that 1(2,3) q(2) by simp
qed

lemma admit_all_ok:
  assumes "attr_validate cfg a = Inr ()" "attr_class a = CDeadline" "dl_params a = Some p" "load_ppm p \<le> 1000000 - dl_bw_margin_ppm cfg"
    and "distinct ts" "\<forall>t \<in> set ts. sched_class_of (s t) = CFair \<and> attr_class (attr (s t)) = CFair \<and> idle_links (s t)"
    and "dl_unused q" "dl_ready (deadline_c q) = []"
  shows "\<exists>s' q'. admit_all cfg a now ts (s, q) = Some (s', q') \<and> (\<forall>x. x \<notin> set ts \<longrightarrow> s' x = s x) \<and> (\<forall>t \<in> set ts. reserves p (s' t))
    \<and> dl_unused q' \<and> dl_ready (deadline_c q') = []"
  using assms(5-8)
proof (induction ts arbitrary: s q)
  case (Cons t ts)
  obtain s1 q1 d where 1: "sched_set_attr cfg s q t a now = Some (s1, q1, Inr d)" "\<forall>x. x \<noteq> t \<longrightarrow> s1 x = s x" "reserves p (s1 t)"
    "dl_unused q1" "dl_ready (deadline_c q1) = []"
    by (rule admit_one [OF Cons.prems(3,4) _ _ _ assms(1-4), of s t]) (use Cons.prems(2) in auto)
  have "\<forall>u \<in> set ts. s1 u = s u" using 1(2) Cons.prems(1) by auto
  then obtain s2 q2 where 2: "admit_all cfg a now ts (s1, q1) = Some (s2, q2)" "\<forall>x. x \<notin> set ts \<longrightarrow> s2 x = s1 x" "\<forall>t \<in> set ts. reserves p (s2 t)"
    "dl_unused q2" "dl_ready (deadline_c q2) = []"
    using Cons.IH [of s1 q1] Cons.prems(1,2) 1(4,5) by auto
  have "reserves p (s2 t)" using 1(3) 2(2) Cons.prems(1) by simp
  then show ?case using 1(1,2) 2 by auto
qed simp

lemma tree_load_const:
  assumes "\<forall>t \<in> set ts. reserving_ppm (s t) = L"
  shows "tree_load_ppm s ts = min (length ts * L) U64_MAX"
proof -
  have "foldl (\<lambda>total t. sat_add total (reserving_ppm (s t))) (min n U64_MAX) ts = min (n + length ts * L) U64_MAX" for n
    using assms
  proof (induction ts arbitrary: n)
    case (Cons t ts)
    have "sat_add (min n U64_MAX) (reserving_ppm (s t)) = min (n + L) U64_MAX" using Cons.prems by (simp add: sat_add_def min_def)
    then show ?case using Cons.IH [of "n + L"] Cons.prems by (simp add: add.assoc)
  qed simp
  from this [of 0] show ?thesis by (simp add: tree_load_ppm_def)
qed

lemma wake_one:
  assumes q: "dl_unused q" and t: "reserves p (s t)" "0 < runtime_ns p"
  obtains s' q' d k where "sched_enqueue s q t (EWake False) now = Some (s', q', d)" "\<forall>x. x \<noteq> t \<longrightarrow> s' x = s x" "params (s' t) = Some p"
    "dl_unused q'" "dl_ready (deadline_c q') = tree_insert (k :: task_ref \<Rightarrow> nat \<times> nat) t (dl_ready (deadline_c q))"
proof -
  obtain q1 where 1: "charge s q now = Some (s, q1, False)" "dl_unused q1" "deadline_c q1 = deadline_c q" "cur q1 = None" by (rule charge_unused [OF q])
  note t' = t(1) [unfolded reserves_def]
  define g where "g = (\<lambda>x. on_dl (\<lambda>e. e\<lparr>ready_link := True\<rparr>) ((set_seat QDeadline \<circ> on_dl (\<lambda>e. e\<lparr>dl_tree_id := dl_next_enqueue_id (deadline_c q)\<rparr>)) x))"
  define c where "c = (deadline_c q)\<lparr>dl_next_enqueue_id := (dl_next_enqueue_id (deadline_c q) + 1) mod 2 ^ 64\<rparr>"
  define c' where "c' = c\<lparr>dl_ready := tree_insert (ready_key (upd t g s)) t (dl_ready (deadline_c q))\<rparr>"
  have "insert_ready s (deadline_c q) t = Some (upd t g s, c')"
    using t' by (simp add: insert_ready_def dl_alloc_enqueue_id_def Let_def upd_upd g_def c_def c'_def idle_links_def unlinked_def set_seat_def on_dl_def comp_def)
  then have e: "class_enqueue s q1 CDeadline t (EWake False) (curr_for s (cur q1) CDeadline) = Some (upd t g s, q1\<lparr>deadline_c := c'\<rparr>)"
    using t' t(2) 1(3) by (simp add: class_enqueue_def dl_enqueue_def)
  obtain n where "compute_next_event (upd t g s) (q1\<lparr>deadline_c := c'\<rparr>) = Some n" using next_event_total by blast
  then have "sched_enqueue s q t (EWake False) now = Some (upd t g s, q1\<lparr>deadline_c := c'\<rparr>, \<lparr>resched = True, next_event_ns = n\<rparr>)"
    using 1(1,4) e t' by (simp add: sched_enqueue_def Let_def resched_needed_def)
  moreover have "params (upd t g s t) = Some p" using t' by (simp add: g_def params_def on_dl_def set_seat_def)
  moreover have "dl_unused (q1\<lparr>deadline_c := c'\<rparr>)" using 1(2,3) by (simp add: dl_unused_def c'_def c_def)
  ultimately show thesis using that [of "upd t g s" "q1\<lparr>deadline_c := c'\<rparr>" _ "ready_key (upd t g s)"] by (simp add: c'_def)
qed

lemma wake_all_ok:
  assumes "0 < runtime_ns p" "distinct ts" "\<forall>t \<in> set ts. reserves p (s t)" "dl_unused q" "\<forall>t \<in> set (dl_ready (deadline_c q)). params (s t) = Some p"
  shows "\<exists>s' q'. wake_all now ts (s, q) = Some (s', q') \<and> dl_unused q' \<and> (\<forall>t \<in> set (dl_ready (deadline_c q')). params (s' t) = Some p)
    \<and> length (dl_ready (deadline_c q')) = length (dl_ready (deadline_c q)) + length ts"
  using assms(2-5)
proof (induction ts arbitrary: s q)
  case (Cons t ts)
  have t: "reserves p (s t)" using Cons.prems(2) by simp
  obtain s1 q1 d k where 1: "sched_enqueue s q t (EWake False) now = Some (s1, q1, d)" "\<forall>x. x \<noteq> t \<longrightarrow> s1 x = s x" "params (s1 t) = Some p"
    "dl_unused q1" "dl_ready (deadline_c q1) = tree_insert (k :: task_ref \<Rightarrow> nat \<times> nat) t (dl_ready (deadline_c q))"
    by (rule wake_one [where s = s and t = t, OF Cons.prems(3) t assms(1)])
  have "\<forall>u \<in> set ts. u \<noteq> t" using Cons.prems(1) by auto
  then have "\<forall>u \<in> set ts. reserves p (s1 u)" using Cons.prems(2) 1(2) by simp
  moreover have "params (s1 u) = Some p" if "u \<in> set (dl_ready (deadline_c q1))" for u
    using that Cons.prems(4) 1(2,3,5) by (cases "u = t") auto
  ultimately show ?case using Cons.IH [of s1 q1] Cons.prems(1) 1(1,4,5) by auto
qed simp

text \<open>
  C17. The admission limit of a run queue does not hold. Blocked tasks are not counted, and waking them checks
  nothing: on a run queue without deadline tasks, any number of blocked tasks may each ask for a reservation
  that alone is within the limit, none is refused, and once they are woken the reservations on the run queue
  are the sum of all of them.\<close>

theorem blocked_tasks_overcommit:
  assumes "attr_validate cfg a = Inr ()" "attr_class a = CDeadline" "dl_params a = Some p" "load_ppm p \<le> 1000000 - dl_bw_margin_ppm cfg"
    and "distinct ts" "\<forall>t \<in> set ts. sched_class_of (s t) = CFair \<and> attr_class (attr (s t)) = CFair \<and> idle_links (s t)"
    and "length ts * load_ppm p \<le> U64_MAX"
  shows "\<exists>s1 q1 s2 q2. admit_all cfg a now ts (s, scheduler_new cfg self idle 0) = Some (s1, q1)
    \<and> wake_all later ts (s1, q1) = Some (s2, q2) \<and> resident_load_ppm s2 (deadline_c q2) = length ts * load_ppm p"
proof -
  let ?q = "scheduler_new cfg self idle 0"
  have q: "dl_unused ?q" "dl_ready (deadline_c ?q) = []" by (simp_all add: scheduler_new_def dl_unused_def deadline_class_new_def)
  obtain s1 q1 where 1: "admit_all cfg a now ts (s, ?q) = Some (s1, q1)" "\<forall>t \<in> set ts. reserves p (s1 t)" "dl_unused q1" "dl_ready (deadline_c q1) = []"
    using admit_all_ok [OF assms(1-6) q] by blast
  have "policy a = SDeadline" using assms(2) by (cases "policy a") (simp_all add: attr_class_def policy_class_def)
  then have "0 < runtime_ns p" using assms(1,3) by (auto simp: attr_validate_def dl_params_new_def split: if_splits)
  then obtain s2 q2 where 2: "wake_all later ts (s1, q1) = Some (s2, q2)" "dl_unused q2" "\<forall>t \<in> set (dl_ready (deadline_c q2)). params (s2 t) = Some p"
    "length (dl_ready (deadline_c q2)) = length ts"
    using wake_all_ok [OF _ assms(5) 1(2,3)] 1(4) by fastforce
  have "tree_load_ppm s2 (dl_ready (deadline_c q2)) = min (length ts * load_ppm p) U64_MAX"
    using tree_load_const [of "dl_ready (deadline_c q2)" s2 "load_ppm p"] 2(3,4) by (simp add: reserving_ppm_def)
  then have "resident_load_ppm s2 (deadline_c q2) = length ts * load_ppm p"
    using 2(2) assms(7) by (simp add: resident_load_ppm_def dl_unused_def tree_load_ppm_def [of _ "[]"] sat_add_def)
  then show ?thesis using 1(1) 2(1) by blast
qed

text \<open>Two tasks with nine tenths of the processor each.\<close>

theorem blocked_tasks_overcommit_witness:
  "\<exists>s1 q1 s2 q2. admit_all demo_cfg (dl_attr 900000 1000000) 10 [1, 2] (demo_store, scheduler_new demo_cfg 0 0 0) = Some (s1, q1)
     \<and> wake_all 20 [1, 2] (s1, q1) = Some (s2, q2) \<and> resident_load_ppm s2 (deadline_c q2) = 1800000"
proof -
  let ?p = "\<lparr>runtime_ns = 900000, rel_deadline_ns = 1000000, period_ns = 1000000\<rparr>"
  have a: "attr_validate demo_cfg (dl_attr 900000 1000000) = Inr ()" "attr_class (dl_attr 900000 1000000) = CDeadline"
    "dl_params (dl_attr 900000 1000000) = Some ?p" "load_ppm ?p = 900000" "dl_bw_margin_ppm demo_cfg = 50000"
    by (simp_all add: attr_validate_def dl_attr_def dl_params_new_def demo_cfg_def min_dl_runtime_ns_def us_to_ns_def attr_class_def policy_class_def
      load_ppm_def dl_bw_margin_ppm_def)
  have t: "\<forall>t \<in> set [1, 2]. sched_class_of (demo_store t) = CFair \<and> attr_class (attr (demo_store t)) = CFair \<and> idle_links (demo_store t)"
    using demo_store_ok(1) by (simp add: demo_store_def task_new_def task_new_with_class_def sched_class_of_def attr_default_def attr_class_def policy_class_def)
  show ?thesis using blocked_tasks_overcommit [OF a(1-3) _ _ t, of 10 0 0 20] a(4,5) by simp
qed

end
