(* ===== verification/Spec2Isabelle.thy ===== *)
theory Spec2Isabelle
  imports KErrno SeccompThread Ebpf FdTable Cred MemAddr KAlloc SchedGaps
begin

text \<open>
  x-kernel is a Rust kernel with a Linux system call interface. This library models components whose
  behaviour is decided by their own code: each is a group of executable HOL definitions, translated
  function by function from the sources under \<open>src/\<close>, with the theorems that make it correct. A value
  \<open>None\<close> of an operation is a panic or a failed debug assertion of the source, an error result is a value
  of a sum type, and an object that the code mutates is a record passed in and returned updated.

  \<^bold>\<open>The parts and how they interact\<close>

  \<^item> \<open>Prelude\<close>: the machine integers (\<open>u8\<close> to \<open>u64\<close>, \<open>usize\<close> as words), the checked, saturating and
    overflowing operations of the Rust core library, little-endian byte strings, bit scans, and the
    generic lemmas the components share.
  \<^item> \<open>KErrno\<close>: \<open>src/util/kerrno/src/lib.rs\<close> and the error numbers of \<open>src/api/linux_sysno\<close>. Every other
    component returns these errors. Canonicalisation keeps the Linux number; the system call return
    value decodes to the same number in user space.
  \<^item> \<open>Seccomp\<close>: \<open>src/core/kseccomp\<close>: instruction encoding, validation, the classic-BPF interpreter,
    decisions and the strict allowlist. The interpreter may loop for ever, so it is a
    \<open>partial_function (option)\<close>, and termination is proved for every program without a zero-offset jump.
  \<^item> \<open>SeccompThread\<close>: the per-thread state of \<open>src/process/kprocess/src/thread/seccomp.rs\<close>, thread-group
    synchronisation, and \<open>seccomp(2)\<close> with the check at system call entry in \<open>src/core/ksyscall\<close>. The
    locale \<open>filter_engine\<close> is what a chain of filters needs from an engine; it is interpreted on the
    interpreter of \<open>Seccomp\<close>. System calls are steps of a relation over the whole thread group.
  \<^item> \<open>Ebpf\<close>: \<open>src/core/kbpf\<close>: instruction decoding, the machine, helpers and the interpreter loop with
    its instruction budget, which is the fuel of the source itself. Locale \<open>registry\<close> for the helper table.
  \<^item> \<open>FdSlots\<close> and \<open>FdTable\<close>: \<open>src/process/kfd\<close>: the occupancy bitmap with its slot array, and the
    descriptor table on top of it. The locale \<open>slot_table\<close> is the contract between the two.
  \<^item> \<open>Cred\<close>: \<open>src/process/kcred\<close> and the credential system calls of \<open>src/core/ksyscall\<close>. The locale
    \<open>confinement\<close> gives what no sequence of calls can regain.
  \<^item> \<open>MemAddr\<close>: \<open>src/mm/memaddr\<close>: alignment, address arithmetic, ranges and page iterators. The locale
    \<open>page_walk\<close> is shared by the two iterators.
  \<^item> \<open>Buddy\<close> (definitions), \<open>BuddyInv\<close> (one region), \<open>BuddySpec\<close> (all regions) and \<open>PageAllocator\<close>
    (contract and properties): \<open>src/mm/alloc-engine/src/buddy_alloc.rs\<close> and its adapter. The locale
    \<open>page_allocator\<close> is the trait of the same name: what a client may rely on when it allocates and frees
    in any order.
  \<^item> \<open>Pcp\<close> (definitions), \<open>PcpInv\<close> (caches) and \<open>KAlloc\<close> (contract and properties): the per-CPU page
    cache \<open>src/mm/kalloc/src/pcp.rs\<close> in front of the buddy allocator and the page entry points of
    \<open>src/mm/kalloc/src/lib.rs\<close>. They are a second interpretation of \<open>page_allocator\<close>, built on the first.
  \<^item> The scheduler core \<open>src/task/ksched\<close>. \<open>SchedTypes\<close> has policies, attributes, tasks and the clock
    (\<open>policy.rs\<close>, \<open>entity.rs\<close>, \<open>clock.rs\<close>); tasks are shared, so they live in a store and are named by
    reference. \<open>SchedRt\<close>, \<open>SchedDeadline\<close> and \<open>SchedFair\<close> are the classes under \<open>classes/\<close>, \<open>Scheduler\<close> is the
    arbitrator \<open>scheduler.rs\<close>. An intrusive red-black tree is the sequence of its elements in key order.
    \<open>SchedLib\<close> has the lemmas on trees and stores and the locale \<open>class_ops\<close>, the part of the trait
    \<open>ClassOps\<close> that moves tasks: enqueue, dequeue, pick, put back. It is interpreted four times, on the stop
    class and in \<open>SchedRtInv\<close>, \<open>SchedDlInv\<close> and \<open>SchedFairInv\<close> on the others. \<open>SchedInv\<close> and \<open>SchedRun\<close>
    lift the class invariants to the run queue and to every public operation and sequence of operations.
    \<open>SchedProps\<close>, \<open>SchedLive\<close> and \<open>SchedGaps\<close> hold the properties.

  \<^bold>\<open>What the theorems show\<close>

  The properties carry the labels C1, C2, and so on in the text before them. For seccomp: no call makes
  a thread more permissive, installation is all or nothing, evaluation is the conjunction of the filters.
  For the interpreters: termination or agreement with a step semantics, and memory safety of stores. For
  descriptors: the lowest free number is used, and duplication, range closing, exec and table copies do
  what they promise on every branch. For credentials: dropped privileges stay dropped. For memory: live
  blocks never overlap, nothing is lost, nothing panics, freed memory merges completely, and an
  allocator reports exhaustion only when it is exhausted. For the scheduler: no sequence of operations
  panics or loses a task, the best task of the highest class runs next, the fair class always has an
  eligible task and its sums do not overflow, round-robin tasks run in turn, and throttled work resumes in
  time. Five theorems show flaws of the code: the zero-offset jump that validation accepts, the trap
  action that outranks killing a process, the page lost when three pages are allocated with a large
  alignment, the deadline task that escapes its budget through \<open>set_attr\<close>, and the admission limit that
  blocked tasks pass by.

  \<^bold>\<open>Bounds and parameters\<close>

  Sizes are those of the source. The size of an intrusive list node, the page size of the buddy
  allocator, user memory, helper functions of eBPF programs and the address translation of DMA memory
  are parameters, as are the build settings of the scheduler. Intrusive lists are lists of addresses.
  Hypotheses on a parameter state what its documentation promises; each property with hypotheses has an
  instance on concrete data. The tree keys of the scheduler carry a 64-bit counter that wraps; an
  operation draws or reserves at most two numbers, so runs of fewer than \<open>2^62\<close> operations are covered. The
  loop that releases throttled deadline tasks takes one task off the tree per round, so the length of the
  tree is enough fuel.

  \<^bold>\<open>Not modelled\<close>

  Code that is mostly hardware or firmware access (\<open>src/arch\<close>, \<open>src/boot\<close>, \<open>src/drivers\<close>,
  \<open>src/platforms\<close>, \<open>src/virt\<close>), wrappers of third-party stacks (\<open>src/net\<close>, the cryptography of \<open>src/tee\<close>),
  build tooling, and the parts of the memory, process and file system code that are graphs of
  reference-counted objects. The layer above the scheduler core, \<open>src/task/ktask\<close>, is per-CPU state, context
  switches and inter-processor messages; what it must respect is the predicate \<open>op_legal\<close> of \<open>SchedRun\<close>.
  Atomics, locks and interrupt masking are not modelled: an operation that runs under its lock is one
  step.
\<close>

end
